(* ===== verification/Prelude.thy ===== *)
theory Prelude
  imports Main "HOL-Library.AList" "HOL-Library.Multiset"
begin

text \<open>
  What every component shares: Go's built-in containers and the order in which a
  \<^verbatim>\<open>range\<close> statement visits them.

  \<^item> A Go map that the code iterates over is an association list without duplicate keys
    (\<open>gomap\<close>, with \<open>map_of\<close>, \<open>AList.update\<close> and \<open>AList.delete\<close> as lookup, store
    and delete); a Go set (\<^verbatim>\<open>set.Set\<close>, a map to the empty struct) is a list without
    duplicates (\<open>goset\<close>).
  \<^item> Go does not specify the order in which a map is iterated. Every operation whose code
    ranges over a map takes the order as an argument of type \<open>order\<close>: for each length
    the sequence in which the positions are visited. \<open>valid_order\<close> says that it visits
    every position once. Properties that must hold for every iteration order are stated
    for every valid order.
  \<^item> A fallible operation returns \<open>'e + 'a\<close>, with \<open>Inl\<close> for the error.

  The interface \<open>map_iface\<close> states what the components rely on of a map, and is
  interpreted on the association lists.
\<close>

named_theorems go_map_simps \<open>lookups, stores and deletes on Go maps and sets\<close>

type_synonym bytes = string
type_synonym ('k, 'v) gomap = "('k \<times> 'v) list"
type_synonym 'k goset = "'k list"
type_synonym order = "nat \<Rightarrow> nat list"

section \<open>Go maps and sets\<close>

abbreviation gm_get :: "('k, 'v) gomap \<Rightarrow> 'k \<Rightarrow> 'v option" where
  "gm_get \<equiv> map_of"

abbreviation gm_put :: "'k \<Rightarrow> 'v \<Rightarrow> ('k, 'v) gomap \<Rightarrow> ('k, 'v) gomap" where
  "gm_put \<equiv> AList.update"

abbreviation gm_del :: "'k \<Rightarrow> ('k, 'v) gomap \<Rightarrow> ('k, 'v) gomap" where
  "gm_del \<equiv> AList.delete"

definition gm_ok :: "('k, 'v) gomap \<Rightarrow> bool" where
  "gm_ok m \<longleftrightarrow> distinct (map fst m)"

text \<open>Reading a missing key of a map of sets, or a nil map, yields the empty set.\<close>

definition gs_get :: "('k, 'a goset) gomap \<Rightarrow> 'k \<Rightarrow> 'a goset" where
  "gs_get m k = (case gm_get m k of None \<Rightarrow> [] | Some s \<Rightarrow> s)"

lemma gm_ok_Nil [simp]: "gm_ok []"
  by (simp add: gm_ok_def)

lemma gm_ok_put [simp]: "gm_ok m \<Longrightarrow> gm_ok (gm_put k v m)"
  by (simp add: gm_ok_def distinct_update)

lemma gm_ok_del [simp]: "gm_ok m \<Longrightarrow> gm_ok (gm_del k m)"
  by (simp add: gm_ok_def distinct_delete)

lemma gm_get_put [simp, go_map_simps]: "gm_get (gm_put k v m) = (gm_get m)(k \<mapsto> v)"
  by (rule update_conv')

lemma gm_get_del [simp, go_map_simps]: "gm_get (gm_del k m) = (gm_get m)(k := None)"
  by (rule delete_conv')

lemma gm_in_keys: "k \<in> fst ` set m \<longleftrightarrow> (\<exists>v. gm_get m k = Some v)"
  by (metis map_of_eq_None_iff not_None_eq)

lemma gm_get_in_set: "gm_ok m \<Longrightarrow> gm_get m k = Some v \<longleftrightarrow> (k, v) \<in> set m"
  by (simp add: gm_ok_def)

lemma gs_get_put [go_map_simps]: "gs_get (gm_put k s m) k' = (if k' = k then s else gs_get m k')"
  by (simp add: gs_get_def)

lemma gs_get_del [go_map_simps]: "gs_get (gm_del k m) k' = (if k' = k then [] else gs_get m k')"
  by (simp add: gs_get_def)

lemma gs_get_Nil [simp]: "gs_get [] k = []"
  by (simp add: gs_get_def)

locale map_iface =
  fixes get :: "'m \<Rightarrow> 'k \<Rightarrow> 'v option"
    and put :: "'k \<Rightarrow> 'v \<Rightarrow> 'm \<Rightarrow> 'm"
    and del :: "'k \<Rightarrow> 'm \<Rightarrow> 'm"
    and entries :: "'m \<Rightarrow> ('k \<times> 'v) list"
    and ok :: "'m \<Rightarrow> bool"
  assumes get_put: "ok m \<Longrightarrow> get (put k v m) k' = (if k' = k then Some v else get m k')"
    and get_del: "ok m \<Longrightarrow> get (del k m) k' = (if k' = k then None else get m k')"
    and get_entries: "ok m \<Longrightarrow> get m k = Some v \<longleftrightarrow> (k, v) \<in> set (entries m)"
    and distinct_entries: "ok m \<Longrightarrow> distinct (map fst (entries m))"
    and ok_put: "ok m \<Longrightarrow> ok (put k v m)"
    and ok_del: "ok m \<Longrightarrow> ok (del k m)"
begin

lemma entries_put:
  "ok m \<Longrightarrow> set (entries (put k v m)) = insert (k, v) {e \<in> set (entries m). fst e \<noteq> k}"
  by (auto simp: get_entries [OF ok_put, symmetric] get_entries [symmetric] get_put
      split: if_splits)

lemma entries_del: "ok m \<Longrightarrow> set (entries (del k m)) = {e \<in> set (entries m). fst e \<noteq> k}"
  by (auto simp: get_entries [OF ok_del, symmetric] get_entries [symmetric] get_del
      split: if_splits)

lemma entries_eqI:
  "\<lbrakk>ok m; ok m'; \<And>k. get m k = get m' k\<rbrakk> \<Longrightarrow> set (entries m) = set (entries m')"
  by (auto simp: get_entries [symmetric])

end

interpretation gm: map_iface map_of AList.update AList.delete "\<lambda>m. m" gm_ok
  by unfold_locales (auto simp: gm_get_in_set, simp add: gm_ok_def)

section \<open>Iteration order\<close>

definition valid_order :: "order \<Rightarrow> bool" where
  "valid_order p \<longleftrightarrow> (\<forall>n. mset (p n) = mset [0..<n])"

definition range_list :: "order \<Rightarrow> 'a list \<Rightarrow> 'a list" where
  "range_list p xs = map (\<lambda>i. xs ! i) (p (length xs))"

definition id_order :: order where
  "id_order n = [0..<n]"

definition rev_order :: order where
  "rev_order n = rev [0..<n]"

lemma valid_id_order [simp]: "valid_order id_order"
  by (simp add: valid_order_def id_order_def)

lemma valid_rev_order [simp]: "valid_order rev_order"
  by (simp add: valid_order_def rev_order_def)

lemma range_list_id [simp]: "range_list id_order xs = xs"
  by (simp add: range_list_def id_order_def map_nth)

lemma mset_range_list: "valid_order p \<Longrightarrow> mset (range_list p xs) = mset xs"
proof -
  assume "valid_order p"
  then have "mset (range_list p xs) = image_mset (\<lambda>i. xs ! i) (mset [0..<length xs])"
    unfolding range_list_def valid_order_def by (simp only: mset_map)
  also have "\<dots> = mset (map (\<lambda>i. xs ! i) [0..<length xs])"
    by (simp only: mset_map)
  finally show ?thesis by (simp add: map_nth)
qed

lemma set_range_list [simp]: "valid_order p \<Longrightarrow> set (range_list p xs) = set xs"
  by (metis mset_range_list set_mset_mset)

lemma distinct_range_list [simp]: "valid_order p \<Longrightarrow> distinct (range_list p xs) = distinct xs"
  by (metis mset_range_list mset_eq_imp_distinct_iff)

lemma length_range_list [simp]: "valid_order p \<Longrightarrow> length (range_list p xs) = length xs"
  by (metis mset_range_list size_mset)

lemma range_list_Nil [simp]: "valid_order p \<Longrightarrow> range_list p [] = []"
  by (metis length_0_conv length_range_list)

section \<open>Lists\<close>

lemma filter_fst_map_of:
  "distinct (map fst m) \<Longrightarrow> map_of (filter (\<lambda>e. P (fst e)) m) k = (if P k then map_of m k else None)"
  by (induction m) (auto simp: map_of_eq_None_iff)

end
