(* ===== verification/Descriptors.thy ===== *)
theory Descriptors
  imports Prelude
begin

text \<open>
  The data of the library: the error values of \<^verbatim>\<open>errdef\<close> and of the packages that
  define their own, content descriptors, the manifests they describe, and the functions on
  them (\<^verbatim>\<open>internal/descriptor\<close>, \<^verbatim>\<open>content/descriptor.go\<close>).

  Code the repository does not contain is a parameter, collected in the record \<open>ext\<close>:
  \<^item> \<^verbatim>\<open>github.com/opencontainers/go-digest\<close>: \<open>dg_valid\<close> (\<^verbatim>\<open>Digest.Validate\<close> returns
    nil), \<open>dg_usable\<close> (\<^verbatim>\<open>Digest.Verifier\<close> does not panic), \<open>dg_verify\<close>
    (a verifier of the digest accepts exactly these bytes) and \<open>dg_from\<close>
    (\<^verbatim>\<open>digest.FromBytes\<close>);
  \<^item> decoding of JSON into the structs of \<^verbatim>\<open>github.com/opencontainers/image-spec\<close>:
    \<open>un_manifest\<close>, \<open>un_index\<close>, \<open>un_artifact\<close> and \<open>un_subject\<close>, with \<open>None\<close>
    for a decoding error, and \<open>un_platform\<close>, which decodes the first value of a stream of
    bytes that ends with an error and reports \<open>EOF\<close> for a stream without a value.

  An error wrapped with \<^verbatim>\<open>fmt.Errorf("...%w", err)\<close> is modelled by the error it wraps,
  which is what \<^verbatim>\<open>errors.Is\<close> sees. A Go panic is the error \<open>Panic\<close>; a call that
  never returns, because it waits for something that no goroutine will do, is \<open>Blocked\<close>.
\<close>

section \<open>Errors\<close>

datatype error =
    ErrAlreadyExists | ErrInvalidDigest | ErrInvalidReference | ErrInvalidMediaType
  | ErrMissingReference | ErrNotFound | ErrSizeExceedsLimit | ErrUnsupported
  | ErrUnsupportedVersion | ErrInvalidDateTimeFormat | ErrMissingArtifactType
  | ErrInvalidDescriptorSize | ErrMismatchedDigest | ErrTrailingData | ErrEarlyVerify
  | EOF | ErrUnexpectedEOF
  | ErrDecode | SkipNode | Panic | Blocked | ErrOther string

type_synonym 'a res = "error + 'a"

section \<open>Descriptors and manifests\<close>

record platform =
  Architecture :: string
  OS :: string
  OSVersion :: string
  OSFeatures :: "string list"
  Variant :: string

record descriptor =
  MediaType :: string
  Digest :: string
  Size :: int
  URLs :: "string list"
  Annotations :: "(string, string) gomap option"
  Data :: bytes
  Platform :: "platform option"
  ArtifactType :: string

record manifest =
  m_MediaType :: string
  m_ArtifactType :: string
  m_Config :: descriptor
  m_Layers :: "descriptor list"
  m_Subject :: "descriptor option"
  m_Annotations :: "(string, string) gomap option"

record index =
  i_MediaType :: string
  i_ArtifactType :: string
  i_Manifests :: "descriptor list"
  i_Subject :: "descriptor option"
  i_Annotations :: "(string, string) gomap option"

text \<open>\<^verbatim>\<open>spec.Artifact\<close>.\<close>

record artifact =
  a_MediaType :: string
  a_ArtifactType :: string
  a_Blobs :: "descriptor list"
  a_Subject :: "descriptor option"
  a_Annotations :: "(string, string) gomap option"

record ext =
  dg_valid :: "string \<Rightarrow> bool"
  dg_usable :: "string \<Rightarrow> bool"
  dg_verify :: "string \<Rightarrow> bytes \<Rightarrow> bool"
  dg_from :: "bytes \<Rightarrow> string"
  un_manifest :: "bytes \<Rightarrow> manifest option"
  un_index :: "bytes \<Rightarrow> index option"
  un_artifact :: "bytes \<Rightarrow> artifact option"
  un_subject :: "bytes \<Rightarrow> descriptor option option"
  un_platform :: "bytes \<times> error \<Rightarrow> platform res"

section \<open>Media types\<close>

definition DefaultMediaType :: string where
  "DefaultMediaType = ''application/octet-stream''"

definition docker_MediaTypeConfig :: string where
  "docker_MediaTypeConfig = ''application/vnd.docker.container.image.v1+json''"

definition docker_MediaTypeManifestList :: string where
  "docker_MediaTypeManifestList = ''application/vnd.docker.distribution.manifest.list.v2+json''"

definition docker_MediaTypeManifest :: string where
  "docker_MediaTypeManifest = ''application/vnd.docker.distribution.manifest.v2+json''"

definition docker_MediaTypeForeignLayer :: string where
  "docker_MediaTypeForeignLayer = ''application/vnd.docker.image.rootfs.foreign.diff.tar.gzip''"

definition spec_MediaTypeArtifactManifest :: string where
  "spec_MediaTypeArtifactManifest = ''application/vnd.oci.artifact.manifest.v1+json''"

text \<open>The media types and annotation keys of image-spec v1.1.0 that the sources use.\<close>

definition oci_MediaTypeImageManifest :: string where
  "oci_MediaTypeImageManifest = ''application/vnd.oci.image.manifest.v1+json''"

definition oci_MediaTypeImageIndex :: string where
  "oci_MediaTypeImageIndex = ''application/vnd.oci.image.index.v1+json''"

definition oci_MediaTypeImageConfig :: string where
  "oci_MediaTypeImageConfig = ''application/vnd.oci.image.config.v1+json''"

definition oci_MediaTypeImageLayerNonDistributable :: string where
  "oci_MediaTypeImageLayerNonDistributable = ''application/vnd.oci.image.layer.nondistributable.v1.tar''"

definition oci_MediaTypeImageLayerNonDistributableGzip :: string where
  "oci_MediaTypeImageLayerNonDistributableGzip =
     ''application/vnd.oci.image.layer.nondistributable.v1.tar+gzip''"

definition oci_MediaTypeImageLayerNonDistributableZstd :: string where
  "oci_MediaTypeImageLayerNonDistributableZstd =
     ''application/vnd.oci.image.layer.nondistributable.v1.tar+zstd''"

definition oci_AnnotationRefName :: string where
  "oci_AnnotationRefName = ''org.opencontainers.image.ref.name''"

lemmas media_type_defs =
  docker_MediaTypeConfig_def docker_MediaTypeManifestList_def docker_MediaTypeManifest_def
  docker_MediaTypeForeignLayer_def spec_MediaTypeArtifactManifest_def
  oci_MediaTypeImageManifest_def oci_MediaTypeImageIndex_def oci_MediaTypeImageConfig_def
  oci_MediaTypeImageLayerNonDistributable_def oci_MediaTypeImageLayerNonDistributableGzip_def
  oci_MediaTypeImageLayerNonDistributableZstd_def DefaultMediaType_def

section \<open>Keys\<close>

text \<open>
  \<^verbatim>\<open>descriptor.Descriptor\<close>: the part of a descriptor that identifies content. It is the key
  of every in-memory map.
\<close>

datatype key = Key (key_media: string) (key_digest: string) (key_size: int)

definition FromOCI :: "descriptor \<Rightarrow> key" where
  "FromOCI d = Key (MediaType d) (Digest d) (Size d)"

definition Equal :: "descriptor \<Rightarrow> descriptor \<Rightarrow> bool" where
  "Equal a b \<longleftrightarrow> Size a = Size b \<and> Digest a = Digest b \<and> MediaType a = MediaType b"

text \<open>A descriptor with every field at its Go zero value but the three that identify content.\<close>

definition plain_desc :: "string \<Rightarrow> string \<Rightarrow> int \<Rightarrow> descriptor" where
  "plain_desc mt dg sz =
     \<lparr>MediaType = mt, Digest = dg, Size = sz, URLs = [], Annotations = None, Data = [],
      Platform = None, ArtifactType = []\<rparr>"

definition Plain :: "descriptor \<Rightarrow> descriptor" where
  "Plain d = plain_desc (MediaType d) (Digest d) (Size d)"

definition empty_descriptor :: descriptor where
  "empty_descriptor = plain_desc [] [] 0"

definition NewDescriptorFromBytes :: "ext \<Rightarrow> string \<Rightarrow> bytes \<Rightarrow> descriptor" where
  "NewDescriptorFromBytes P mt content =
     (let mt = (if mt = [] then DefaultMediaType else mt)
      in plain_desc mt (dg_from P content) (int (length content)))"

definition IsForeignLayer :: "descriptor \<Rightarrow> bool" where
  "IsForeignLayer d \<longleftrightarrow> MediaType d \<in>
     {oci_MediaTypeImageLayerNonDistributable, oci_MediaTypeImageLayerNonDistributableGzip,
      oci_MediaTypeImageLayerNonDistributableZstd, docker_MediaTypeForeignLayer}"

definition IsManifest :: "descriptor \<Rightarrow> bool" where
  "IsManifest d \<longleftrightarrow> MediaType d \<in>
     {docker_MediaTypeManifest, docker_MediaTypeManifestList, oci_MediaTypeImageManifest,
      oci_MediaTypeImageIndex, spec_MediaTypeArtifactManifest}"

text \<open>Reading a key of the annotations, with Go's zero value for a missing key or a nil map.\<close>

definition annotation :: "descriptor \<Rightarrow> string \<Rightarrow> string" where
  "annotation d k = (case Annotations d of None \<Rightarrow> [] | Some m \<Rightarrow>
     (case gm_get m k of None \<Rightarrow> [] | Some v \<Rightarrow> v))"

lemma FromOCI_eq_iff: "FromOCI a = FromOCI b \<longleftrightarrow> Equal a b"
  by (auto simp: FromOCI_def Equal_def)

lemma Equal_refl [simp]: "Equal a a"
  by (simp add: Equal_def)

lemma Equal_sym: "Equal a b \<Longrightarrow> Equal b a"
  by (simp add: Equal_def)

lemma Equal_trans: "Equal a b \<Longrightarrow> Equal b c \<Longrightarrow> Equal a c"
  by (simp add: Equal_def)

lemma plain_desc_sel [simp]:
  "MediaType (plain_desc mt dg sz) = mt" "Digest (plain_desc mt dg sz) = dg"
  "Size (plain_desc mt dg sz) = sz" "Annotations (plain_desc mt dg sz) = None"
  by (simp_all add: plain_desc_def)

lemma FromOCI_Plain [simp]: "FromOCI (Plain d) = FromOCI d"
  by (simp add: FromOCI_def Plain_def)

lemma FromOCI_sel [simp]:
  "key_media (FromOCI d) = MediaType d" "key_digest (FromOCI d) = Digest d"
  "key_size (FromOCI d) = Size d"
  by (simp_all add: FromOCI_def)

lemma FromOCI_annotations [simp]: "FromOCI (d\<lparr>Annotations := a\<rparr>) = FromOCI d"
  "FromOCI (d\<lparr>ArtifactType := t\<rparr>) = FromOCI d"
  by (simp_all add: FromOCI_def)

lemma IsManifest_cong: "MediaType a = MediaType b \<Longrightarrow> IsManifest a = IsManifest b"
  by (simp add: IsManifest_def)

lemma IsManifest_not_foreign: "IsManifest d \<Longrightarrow> \<not> IsForeignLayer d"
  by (auto simp: IsManifest_def IsForeignLayer_def media_type_defs)

section \<open>Digests\<close>

text \<open>
  What the sources rely on of \<^verbatim>\<open>go-digest\<close>: a valid digest is an algorithm, a colon and an
  encoding, the algorithm has no colon, and there is a verifier for it.
\<close>

definition dg_Algorithm :: "string \<Rightarrow> string" where
  "dg_Algorithm d = takeWhile (\<lambda>c. c \<noteq> CHR '':'') d"

definition dg_Encoded :: "string \<Rightarrow> string" where
  "dg_Encoded d = tl (dropWhile (\<lambda>c. c \<noteq> CHR '':'') d)"

definition digest_laws :: "ext \<Rightarrow> bool" where
  "digest_laws P \<longleftrightarrow> (\<forall>d. dg_valid P d \<longrightarrow> CHR '':'' \<in> set d \<and> dg_usable P d)"

lemma dg_split: "CHR '':'' \<in> set d \<Longrightarrow> d = dg_Algorithm d @ CHR '':'' # dg_Encoded d"
  unfolding dg_Algorithm_def dg_Encoded_def
  by (induction d) auto

section \<open>A concrete instance of the parameters\<close>

text \<open>
  Used only to evaluate properties at concrete inputs: the digest of some bytes is the bytes
  themselves behind the prefix \<^verbatim>\<open>sha256:\<close>, and nothing decodes.
\<close>

definition demo_ext :: ext where
  "demo_ext =
     \<lparr>dg_valid = (\<lambda>d. take 7 d = ''sha256:''), dg_usable = (\<lambda>d. take 7 d = ''sha256:''),
      dg_verify = (\<lambda>d b. d = ''sha256:'' @ b), dg_from = (\<lambda>b. ''sha256:'' @ b),
      un_manifest = (\<lambda>_. None), un_index = (\<lambda>_. None), un_artifact = (\<lambda>_. None),
      un_subject = (\<lambda>_. None), un_platform = (\<lambda>_. Inl ErrDecode)\<rparr>"

end
