(* ===== verification/Readers.thy ===== *)
theory Readers
  imports Descriptors
begin

text \<open>
  \<^verbatim>\<open>content/reader.go\<close> and \<^verbatim>\<open>internal/ioutil/io.go\<close>: reading content with
  verification against a descriptor.

  An \<^verbatim>\<open>io.Reader\<close> is the list of the results its calls of \<^verbatim>\<open>Read\<close> give when the buffer
  is large enough: a chunk of bytes with the error returned along with it. A call with a
  smaller buffer gets the beginning of the chunk; a reader that has failed, or that has
  no chunk left, keeps failing (with \<open>EOF\<close> in the latter case). Short reads, empty reads
  and data returned together with an error are all covered. \<open>rd_stream\<close> is what a reader
  delivers in all: its bytes, and the error that ends them.

  The record \<open>vreader\<close> is \<^verbatim>\<open>VerifyReader\<close>: an \<^verbatim>\<open>io.LimitedReader\<close> (\<open>vr_N\<close>) over
  an \<^verbatim>\<open>io.TeeReader\<close> (the source and the bytes the verifier has been given).
  The loops of \<^verbatim>\<open>io.ReadFull\<close> and \<^verbatim>\<open>io.CopyBuffer\<close> terminate because a successful
  \<^verbatim>\<open>Read\<close> with a non-empty buffer makes the source smaller (\<open>rd_size\<close>).
\<close>

type_synonym reader = "(bytes \<times> error option) list"

section \<open>Definitions\<close>

fun rd_read :: "nat \<Rightarrow> reader \<Rightarrow> bytes \<times> error option \<times> reader" where
  "rd_read n [] = ([], Some EOF, [])"
| "rd_read n ((b, e) # rest) =
     (if length b \<le> n
      then (b, e, case e of None \<Rightarrow> rest | Some x \<Rightarrow> [([], Some x)])
      else (take n b, None, (drop n b, e) # rest))"

fun rd_stream :: "reader \<Rightarrow> bytes \<times> error" where
  "rd_stream [] = ([], EOF)"
| "rd_stream ((b, Some x) # rest) = (b, x)"
| "rd_stream ((b, None) # rest) = (b @ fst (rd_stream rest), snd (rd_stream rest))"

definition rd_size :: "reader \<Rightarrow> nat" where
  "rd_size r = sum_list (map (\<lambda>(b, e). Suc (length b)) r)"

text \<open>\<^verbatim>\<open>bytes.NewReader\<close>.\<close>

definition bytes_reader :: "bytes \<Rightarrow> reader" where
  "bytes_reader b = (if b = [] then [] else [(b, None)])"

record tee =
  te_src :: reader
  te_seen :: bytes

definition tee_read :: "nat \<Rightarrow> tee \<Rightarrow> bytes \<times> error option \<times> tee" where
  "tee_read n t = (case rd_read n (te_src t) of (b, e, src) \<Rightarrow>
     (b, e, t\<lparr>te_src := src, te_seen := te_seen t @ b\<rparr>))"

record vreader =
  vr_N :: int
  vr_tee :: tee
  vr_digest :: string
  vr_verified :: bool
  vr_err :: "error option"

text \<open>\<^verbatim>\<open>io.LimitedReader.Read\<close> on the reader inside a \<^verbatim>\<open>VerifyReader\<close>.\<close>

definition lim_read :: "nat \<Rightarrow> vreader \<Rightarrow> bytes \<times> error option \<times> vreader" where
  "lim_read n v =
     (if vr_N v \<le> 0 then ([], Some EOF, v)
      else let n' = (if int n > vr_N v then nat (vr_N v) else n)
           in case tee_read n' (vr_tee v) of (b, e, t) \<Rightarrow>
             (b, e, v\<lparr>vr_N := vr_N v - int (length b), vr_tee := t\<rparr>))"

definition NewVerifyReader :: "ext \<Rightarrow> reader \<Rightarrow> descriptor \<Rightarrow> vreader res" where
  "NewVerifyReader P r d =
     (if \<not> dg_usable P (Digest d) then Inl Panic
      else Inr \<lparr>vr_N = Size d, vr_tee = \<lparr>te_src = r, te_seen = []\<rparr>, vr_digest = Digest d,
                vr_verified = False, vr_err = None\<rparr>)"

definition vr_Read :: "nat \<Rightarrow> vreader \<Rightarrow> bytes \<times> error option \<times> vreader" where
  "vr_Read n v = (case vr_err v of
     Some e \<Rightarrow> ([], Some e, v)
   | None \<Rightarrow> (case lim_read n v of (b, e, v') \<Rightarrow>
       (case e of
          None \<Rightarrow> (b, None, v')
        | Some x \<Rightarrow>
            let x' = (if x = EOF \<and> vr_N v' > 0 then ErrUnexpectedEOF else x)
            in (b, Some x', v'\<lparr>vr_err := Some x'\<rparr>))))"

lemma rd_size_simps [simp]:
  "rd_size [] = 0" "rd_size ((b, e) # r) = Suc (length b) + rd_size r"
  by (simp_all add: rd_size_def)

lemma rd_read_size: "\<lbrakk>rd_read n r = (b, None, r'); 0 < n\<rbrakk> \<Longrightarrow> rd_size r' < rd_size r"
  by (cases "(n, r)" rule: rd_read.cases) (auto split: if_splits)

lemma tee_read_size:
  "\<lbrakk>tee_read n t = (b, None, t'); 0 < n\<rbrakk> \<Longrightarrow> rd_size (te_src t') < rd_size (te_src t)"
  by (auto simp: tee_read_def split: prod.splits dest: rd_read_size)

lemma vr_Read_size:
  "\<lbrakk>vr_Read n v = (b, None, v'); 0 < n\<rbrakk>
   \<Longrightarrow> rd_size (te_src (vr_tee v')) < rd_size (te_src (vr_tee v))"
  by (auto simp: vr_Read_def lim_read_def Let_def split: option.splits prod.splits if_splits
      dest!: tee_read_size)

text \<open>\<^verbatim>\<open>io.ReadFull\<close> on a \<^verbatim>\<open>VerifyReader\<close>: \<open>need\<close> bytes of the buffer are still empty.\<close>

function read_full :: "nat \<Rightarrow> bytes \<Rightarrow> vreader \<Rightarrow> bytes \<times> error option \<times> vreader" where
  "read_full need acc v =
     (if need = 0 then (acc, None, v)
      else case vr_Read need v of (b, e, v') \<Rightarrow>
        (case e of
           None \<Rightarrow> read_full (need - length b) (acc @ b) v'
         | Some x \<Rightarrow>
             (if need \<le> length b then (acc @ b, None, v')
              else (acc @ b, Some (if acc @ b \<noteq> [] \<and> x = EOF then ErrUnexpectedEOF else x), v'))))"
  by pat_completeness auto
termination
  by (relation "measure (\<lambda>(need, acc, v). rd_size (te_src (vr_tee v)))")
    (auto dest!: sym [of _ "vr_Read _ _"] dest: vr_Read_size)

text \<open>\<^verbatim>\<open>io.ReadFull\<close> of one byte, as \<^verbatim>\<open>ensureEOF\<close> calls it on the reader under the limit.\<close>

function read_full1 :: "tee \<Rightarrow> bytes \<times> error option \<times> tee" where
  "read_full1 t =
     (case tee_read 1 t of (b, e, t') \<Rightarrow>
        if b \<noteq> [] then (b, None, t')
        else (case e of None \<Rightarrow> read_full1 t' | Some x \<Rightarrow> ([], Some x, t')))"
  by pat_completeness auto
termination
  by (relation "measure (\<lambda>t. rd_size (te_src t))")
    (auto dest!: sym [of _ "tee_read _ _"] dest: tee_read_size)

declare read_full.simps [simp del] read_full1.simps [simp del]

text \<open>(A read that never returns makes \<^verbatim>\<open>ensureEOF\<close> not return.)\<close>

definition ensureEOF :: "tee \<Rightarrow> error option \<times> tee" where
  "ensureEOF t = (case read_full1 t of (_, e, t') \<Rightarrow>
     (if e = Some Blocked then Some Blocked
      else if e \<noteq> Some EOF then Some ErrTrailingData else None, t'))"

definition Verify :: "ext \<Rightarrow> vreader \<Rightarrow> error option \<times> vreader" where
  "Verify P v =
     (if vr_verified v then (None, v)
      else if vr_err v = None \<and> vr_N v > 0 then (Some ErrEarlyVerify, v)
      else if vr_err v \<noteq> None \<and> vr_err v \<noteq> Some EOF then (vr_err v, v)
      else case ensureEOF (vr_tee v) of (e, t) \<Rightarrow>
        let v = v\<lparr>vr_tee := t\<rparr>
        in (case e of
              Some x \<Rightarrow> (Some x, v\<lparr>vr_err := Some x\<rparr>)
            | None \<Rightarrow>
                if \<not> dg_verify P (vr_digest v) (te_seen (vr_tee v))
                then (Some ErrMismatchedDigest, v\<lparr>vr_err := Some ErrMismatchedDigest\<rparr>)
                else (None, v\<lparr>vr_verified := True, vr_err := Some EOF\<rparr>)))"

text \<open>\<^verbatim>\<open>ReadAll\<close>, with all the bytes that were read from the source by the time it returns.\<close>

definition ReadAllS :: "ext \<Rightarrow> reader \<Rightarrow> descriptor \<Rightarrow> bytes res \<times> bytes" where
  "ReadAllS P r d =
     (if Size d < 0 then (Inl ErrInvalidDescriptorSize, [])
      else case NewVerifyReader P r d of
        Inl e \<Rightarrow> (Inl e, [])
      | Inr vr \<Rightarrow> (case read_full (nat (Size d)) [] vr of (buf, e, vr') \<Rightarrow>
          (case e of
             Some x \<Rightarrow> (Inl x, te_seen (vr_tee vr'))
           | None \<Rightarrow> (case Verify P vr' of (e, vr'') \<Rightarrow>
               (case e of Some x \<Rightarrow> Inl x | None \<Rightarrow> Inr buf, te_seen (vr_tee vr''))))))"

definition ReadAll :: "ext \<Rightarrow> reader \<Rightarrow> descriptor \<Rightarrow> bytes res" where
  "ReadAll P r d = fst (ReadAllS P r d)"

text \<open>
  The loop of \<^verbatim>\<open>io.CopyBuffer\<close> with a buffer of \<open>n\<close> bytes; the bytes written so far
  are accumulated. Writing does not fail; an empty buffer makes the library panic.
\<close>

function copy_loop :: "nat \<Rightarrow> bytes \<Rightarrow> vreader \<Rightarrow> bytes \<times> error option \<times> vreader" where
  "copy_loop n out v =
     (if n = 0 then (out, Some Panic, v)
      else case vr_Read n v of (b, e, v') \<Rightarrow>
        (case e of
           None \<Rightarrow> copy_loop n (out @ b) v'
         | Some x \<Rightarrow> (out @ b, if x = EOF then None else Some x, v')))"
  by pat_completeness auto
termination
  by (relation "measure (\<lambda>(n, out, v). rd_size (te_src (vr_tee v)))")
    (auto dest!: sym [of _ "vr_Read _ _"] dest: vr_Read_size)

declare copy_loop.simps [simp del]

text \<open>The result, and what has been written to \<^verbatim>\<open>dst\<close>.\<close>

definition CopyBuffer :: "ext \<Rightarrow> nat \<Rightarrow> reader \<Rightarrow> descriptor \<Rightarrow> unit res \<times> bytes" where
  "CopyBuffer P n r d = (case NewVerifyReader P r d of
     Inl e \<Rightarrow> (Inl e, [])
   | Inr vr \<Rightarrow> (case copy_loop n [] vr of (out, e, vr') \<Rightarrow>
       (case e of
          Some x \<Rightarrow> (Inl x, out)
        | None \<Rightarrow> (case Verify P vr' of (e, _) \<Rightarrow>
            (case e of Some x \<Rightarrow> (Inl x, out) | None \<Rightarrow> (Inr (), out))))))"

section \<open>What a reader delivers\<close>

lemma rd_read_None:
  "rd_read n r = (b, None, r') \<Longrightarrow>
   rd_stream r = (b @ fst (rd_stream r'), snd (rd_stream r')) \<and> length b \<le> n"
proof (cases "(n, r)" rule: rd_read.cases)
  case (2 n' c e rest)
  assume "rd_read n r = (b, None, r')"
  with 2 show ?thesis
    by (cases e) (auto split: if_splits)
qed simp

lemma rd_read_Some:
  "rd_read n r = (b, Some x, r') \<Longrightarrow>
   rd_stream r = (b, x) \<and> rd_stream r' = ([], x) \<and> length b \<le> n"
  by (cases "(n, r)" rule: rd_read.cases) (auto split: if_splits option.splits)

lemma rd_stream_bytes_reader [simp]: "rd_stream (bytes_reader b) = (b, EOF)"
  by (simp add: bytes_reader_def)

text \<open>One \<^verbatim>\<open>Read\<close> of a reader that has not failed and whose limit is not reached.\<close>

lemma vr_Read_None:
  assumes "vr_Read n v = (b, None, v')" "rd_stream (te_src (vr_tee v)) = (s, x)"
  shows "s = b @ fst (rd_stream (te_src (vr_tee v')))"
    and "snd (rd_stream (te_src (vr_tee v'))) = x"
    and "vr_err v' = None" and "0 < vr_N v" and "vr_N v' = vr_N v - int (length b)"
    and "length b \<le> n" and "int (length b) \<le> vr_N v"
    and "te_seen (vr_tee v') = te_seen (vr_tee v) @ b"
    and "vr_digest v' = vr_digest v" and "vr_verified v' = vr_verified v"
  using assms
  by (auto simp: vr_Read_def lim_read_def tee_read_def Let_def
      split: option.splits prod.splits if_splits dest!: rd_read_None)

lemma vr_Read_Some:
  assumes "vr_Read n v = (b, Some y, v')" "rd_stream (te_src (vr_tee v)) = (s, x)"
    and "vr_err v = None" "0 < vr_N v"
  shows "s = b" and "rd_stream (te_src (vr_tee v')) = ([], x)"
    and "vr_err v' = Some y" and "vr_N v' = vr_N v - int (length b)"
    and "y = (if x = EOF \<and> vr_N v' > 0 then ErrUnexpectedEOF else x)"
    and "length b \<le> n" and "int (length b) \<le> vr_N v"
    and "te_seen (vr_tee v') = te_seen (vr_tee v) @ b"
    and "vr_digest v' = vr_digest v" and "vr_verified v' = vr_verified v"
  using assms
  by (auto simp: vr_Read_def lim_read_def tee_read_def Let_def
      split: option.splits prod.splits if_splits dest!: rd_read_Some)

lemma vr_Read_limit: "\<lbrakk>vr_err v = None; vr_N v \<le> 0\<rbrakk> \<Longrightarrow> vr_Read n v = ([], Some EOF, v\<lparr>vr_err := Some EOF\<rparr>)"
  by (simp add: vr_Read_def lim_read_def)

section \<open>The loops\<close>

text \<open>The part of a \<^verbatim>\<open>VerifyReader\<close> that no read changes.\<close>

definition vr_same :: "vreader \<Rightarrow> vreader \<Rightarrow> bool" where
  "vr_same v v' \<longleftrightarrow> vr_digest v' = vr_digest v \<and> vr_verified v' = vr_verified v"

lemma read_full_enough:
  assumes "vr_err v = None" "vr_N v = int need"
    and "rd_stream (te_src (vr_tee v)) = (s, x)" "need \<le> length s"
  shows "\<exists>v'. read_full need acc v = (acc @ take need s, None, v') \<and> vr_N v' = 0
     \<and> te_seen (vr_tee v') = te_seen (vr_tee v) @ take need s
     \<and> rd_stream (te_src (vr_tee v')) = (drop need s, x) \<and> vr_same v v'
     \<and> (vr_err v' = None \<or> vr_err v' = Some x \<and> length s = need)"
  using assms
proof (induction need acc v arbitrary: s rule: read_full.induct)
  case (1 need acc v)
  obtain b e v1 where rd: "vr_Read need v = (b, e, v1)"
    by (cases "vr_Read need v") auto
  show ?case
  proof (cases "need = 0 \<or> e \<noteq> None")
    case True
    show ?thesis
    proof (cases "need = 0")
      case True
      with 1 show ?thesis
        by (simp add: read_full.simps [of 0 acc v] vr_same_def)
    next
      case False
      with True obtain y where e: "e = Some y" by auto
      have pos: "0 < vr_N v" using False "1.prems" by simp
      note st = vr_Read_Some [OF rd [unfolded e] "1.prems"(3,1) pos]
      from st(1,6) "1.prems"(4) have [simp]: "s = b" "length b = need" by auto
      from st(4,5) "1.prems"(2) have "vr_N v1 = 0" "y = x" by auto
      with st False show ?thesis
        by (auto simp: read_full.simps [of need acc v] rd e vr_same_def)
    qed
  next
    case False
    then have e: "e = None" and nz: "need \<noteq> 0" by auto
    note st = vr_Read_None [OF rd [unfolded e] "1.prems"(3)]
    define s1 where "s1 = fst (rd_stream (te_src (vr_tee v1)))"
    from st have s: "s = b @ s1" and s1: "rd_stream (te_src (vr_tee v1)) = (s1, x)"
      by (auto simp: s1_def prod_eq_iff)
    have "\<exists>v'. read_full (need - length b) (acc @ b) v1 =
        ((acc @ b) @ take (need - length b) s1, None, v') \<and> vr_N v' = 0
     \<and> te_seen (vr_tee v') = te_seen (vr_tee v1) @ take (need - length b) s1
     \<and> rd_stream (te_src (vr_tee v')) = (drop (need - length b) s1, x) \<and> vr_same v1 v'
     \<and> (vr_err v' = None \<or> vr_err v' = Some x \<and> length s1 = need - length b)"
      by (rule "1.IH" [OF nz rd [symmetric] refl e])
        (use st s1 s "1.prems"(2,4) in auto)
    with st nz s show ?thesis
      by (auto simp: read_full.simps [of need acc v] rd e vr_same_def)
  qed
qed

lemma read_full_short:
  assumes "vr_err v = None" "vr_N v = int need"
    and "rd_stream (te_src (vr_tee v)) = (s, x)" "length s < need"
  shows "\<exists>b v'. read_full need acc v = (b, Some (if x = EOF then ErrUnexpectedEOF else x), v')
     \<and> te_seen (vr_tee v') = te_seen (vr_tee v) @ s"
  using assms
proof (induction need acc v arbitrary: s rule: read_full.induct)
  case (1 need acc v)
  obtain b e v1 where rd: "vr_Read need v = (b, e, v1)"
    by (cases "vr_Read need v") auto
  have nz: "need \<noteq> 0" and pos: "0 < vr_N v" using "1.prems" by auto
  show ?case
  proof (cases e)
    case (Some y)
    note st = vr_Read_Some [OF rd [unfolded Some] "1.prems"(3,1) pos]
    with Some "1.prems" nz show ?thesis
      by (auto simp: read_full.simps [of need acc v] rd)
  next
    case None
    note st = vr_Read_None [OF rd [unfolded None] "1.prems"(3)]
    have "\<exists>b' v'. read_full (need - length b) (acc @ b) v1 =
        (b', Some (if x = EOF then ErrUnexpectedEOF else x), v')
        \<and> te_seen (vr_tee v') = te_seen (vr_tee v1) @ fst (rd_stream (te_src (vr_tee v1)))"
      by (rule "1.IH" [OF nz rd [symmetric] refl None, where s = "fst (rd_stream (te_src (vr_tee v1)))"])
        (use st "1.prems"(2,4) in \<open>auto simp: prod_eq_iff\<close>)
    with nz None st show ?thesis
      by (auto simp: read_full.simps [of need acc v] rd)
  qed
qed

lemma read_full1_stream:
  "read_full1 t = (b, e, t') \<Longrightarrow> rd_stream (te_src t) = (s, x) \<Longrightarrow>
   e = (if s = [] then Some x else None)
   \<and> te_seen t' = te_seen t @ take 1 s \<and> rd_stream (te_src t') = (drop 1 s, x)"
proof (induction t arbitrary: s rule: read_full1.induct)
  case (1 t)
  obtain c f t1 where rd: "tee_read 1 t = (c, f, t1)" by (cases "tee_read 1 t") auto
  then obtain src where src: "rd_read 1 (te_src t) = (c, f, src)"
    and t1: "t1 = t\<lparr>te_src := src, te_seen := te_seen t @ c\<rparr>"
    by (auto simp: tee_read_def split: prod.splits)
  show ?case
  proof (cases "c \<noteq> []")
    case True
    from True "1.prems"(1) rd have r1: "e = None" "t' = t1"
      by (simp_all add: read_full1.simps [of t])
    have "length c = 1 \<and> rd_stream src = (drop 1 s, x) \<and> take 1 s = c"
    proof (cases f)
      case None
      with rd_read_None [of 1 "te_src t" c src] src "1.prems"(2) True
      show ?thesis by (cases c) (auto simp: prod_eq_iff)
    next
      case (Some y)
      with rd_read_Some [of 1 "te_src t" c y src] src "1.prems"(2) True
      show ?thesis by (cases c) auto
    qed
    with r1 True show ?thesis by (auto simp: t1)
  next
    case False
    show ?thesis
    proof (cases f)
      case None
      with rd_read_None [of 1 "te_src t" c src] src "1.prems" False
      have "rd_stream (te_src t1) = (s, x)" by (auto simp: t1 prod_eq_iff)
      moreover have "read_full1 t1 = (b, e, t')"
        using "1.prems"(1) False None rd by (simp add: read_full1.simps [of t])
      moreover have "te_seen t1 = te_seen t" using False by (simp add: t1)
      ultimately show ?thesis using "1.IH" [OF rd [symmetric] refl _ None] False by auto
    next
      case (Some y)
      with rd_read_Some [of 1 "te_src t" c y src] src 1 False rd
      show ?thesis by (auto simp: read_full1.simps [of t] t1)
    qed
  qed
qed

lemma ensureEOF_stream:
  "ensureEOF t = (e, t') \<Longrightarrow> rd_stream (te_src t) = (s, x) \<Longrightarrow>
   e = (if s = [] \<and> x = EOF then None else if s = [] \<and> x = Blocked then Some Blocked
        else Some ErrTrailingData)
   \<and> te_seen t' = te_seen t @ take 1 s"
  using read_full1_stream [of t _ _ t' s x]
  by (auto simp: ensureEOF_def split: prod.splits if_splits)

text \<open>
  What \<^verbatim>\<open>Verify\<close> returns once the limit is reached: the source must end there, cleanly, and
  the bytes seen must have the expected digest.
\<close>

lemma Verify_at_limit:
  assumes "\<not> vr_verified v" "vr_N v \<le> 0" "vr_err v = None \<or> vr_err v = Some EOF"
    and "rd_stream (te_src (vr_tee v)) = (s, x)"
  shows "fst (Verify P v) =
     (if s = [] \<and> x = EOF
      then if dg_verify P (vr_digest v) (te_seen (vr_tee v)) then None else Some ErrMismatchedDigest
      else if s = [] \<and> x = Blocked then Some Blocked else Some ErrTrailingData)"
    and "te_seen (vr_tee (snd (Verify P v))) = te_seen (vr_tee v) @ take 1 s"
proof -
  obtain e t where "ensureEOF (vr_tee v) = (e, t)" by (cases "ensureEOF (vr_tee v)")
  note eof = this ensureEOF_stream [OF this assms(4)]
  then show "fst (Verify P v) =
     (if s = [] \<and> x = EOF
      then if dg_verify P (vr_digest v) (te_seen (vr_tee v)) then None else Some ErrMismatchedDigest
      else if s = [] \<and> x = Blocked then Some Blocked else Some ErrTrailingData)"
    using assms by (auto simp: Verify_def Let_def)
  show "te_seen (vr_tee (snd (Verify P v))) = te_seen (vr_tee v) @ take 1 s"
    using assms eof by (auto simp: Verify_def Let_def split: option.splits)
qed

lemma Verify_failed:
  "\<lbrakk>\<not> vr_verified v; vr_err v = Some x; x \<noteq> EOF\<rbrakk> \<Longrightarrow> Verify P v = (Some x, v)"
  by (simp add: Verify_def)

lemma copy_loop_stream:
  assumes "vr_err v = None" "0 < n" "rd_stream (te_src (vr_tee v)) = (s, x)"
  shows "\<exists>v' e. copy_loop n out v = (out @ take (nat (vr_N v)) s, e, v') \<and> vr_same v v'
     \<and> te_seen (vr_tee v') = te_seen (vr_tee v) @ take (nat (vr_N v)) s
     \<and> rd_stream (te_src (vr_tee v')) = (drop (nat (vr_N v)) s, x)
     \<and> (if int (length s) < vr_N v
        then e = Some (if x = EOF then ErrUnexpectedEOF else x)
        else vr_N v' \<le> 0 \<and>
          (e = None \<and> vr_err v' = Some EOF \<or> e = Some x \<and> x \<noteq> EOF \<and> int (length s) = vr_N v))"
  using assms
proof (induction n out v arbitrary: s rule: copy_loop.induct)
  case (1 n out v)
  obtain b e v1 where rd: "vr_Read n v = (b, e, v1)" by (cases "vr_Read n v") auto
  show ?case
  proof (cases "vr_N v \<le> 0")
    case True
    with vr_Read_limit [OF "1.prems"(1) True, of n] "1.prems" show ?thesis
      by (auto simp: copy_loop.simps [of n out v] vr_same_def)
  next
    case False
    then have pos: "0 < vr_N v" by simp
    show ?thesis
    proof (cases e)
      case (Some y)
      note st = vr_Read_Some [OF rd [unfolded Some] "1.prems"(3,1) pos]
      with Some "1.prems" show ?thesis
        by (auto simp: copy_loop.simps [of n out v] rd vr_same_def)
    next
      case None
      note st = vr_Read_None [OF rd [unfolded None] "1.prems"(3)]
      define s1 where "s1 = fst (rd_stream (te_src (vr_tee v1)))"
      from st have s: "s = b @ s1" and s1: "rd_stream (te_src (vr_tee v1)) = (s1, x)"
        by (auto simp: s1_def prod_eq_iff)
      have nz: "n \<noteq> 0" using "1.prems" by simp
      have N: "nat (vr_N v1) = nat (vr_N v) - length b" "length b \<le> nat (vr_N v)"
        using st(5,7) by linarith+
      have unf: "copy_loop n out v = copy_loop n (out @ b) v1"
        using nz None by (simp add: copy_loop.simps [of n out v] rd)
      from "1.IH" [OF nz rd [symmetric] refl None st(3) "1.prems"(2) s1]
      obtain v' e' where IH: "copy_loop n (out @ b) v1 = ((out @ b) @ take (nat (vr_N v1)) s1, e', v')"
        "vr_same v1 v'" "te_seen (vr_tee v') = te_seen (vr_tee v1) @ take (nat (vr_N v1)) s1"
        "rd_stream (te_src (vr_tee v')) = (drop (nat (vr_N v1)) s1, x)"
        "if int (length s1) < vr_N v1 then e' = Some (if x = EOF then ErrUnexpectedEOF else x)
         else vr_N v' \<le> 0 \<and> (e' = None \<and> vr_err v' = Some EOF
           \<or> e' = Some x \<and> x \<noteq> EOF \<and> int (length s1) = vr_N v1)"
        by blast
      show ?thesis
        by (rule exI [of _ v'], rule exI [of _ e'])
          (use IH [unfolded N(1)] st(5,8-10) in \<open>auto simp: unf s N vr_same_def\<close>)
    qed
  qed
qed

section \<open>Reading with verification\<close>

text \<open>What \<^verbatim>\<open>ReadAll\<close> should return for content \<open>s\<close> that ends cleanly.\<close>

definition read_all_spec :: "ext \<Rightarrow> bytes \<Rightarrow> descriptor \<Rightarrow> bytes res" where
  "read_all_spec P s d =
     (if Size d < 0 then Inl ErrInvalidDescriptorSize
      else if \<not> dg_usable P (Digest d) then Inl Panic
      else if int (length s) < Size d then Inl ErrUnexpectedEOF
      else if int (length s) > Size d then Inl ErrTrailingData
      else if \<not> dg_verify P (Digest d) s then Inl ErrMismatchedDigest
      else Inr s)"

lemma ReadAllS_enough:
  assumes "0 \<le> Size d" "dg_usable P (Digest d)"
    and "rd_stream r = (s, x)" "Size d \<le> int (length s)"
  shows "\<exists>y. ReadAllS P r d =
     (if int (length s) = Size d \<and> x = EOF
      then if dg_verify P (Digest d) s then Inr s else Inl ErrMismatchedDigest
      else Inl y, take (nat (Size d) + 1) s) \<and> (x = EOF \<longrightarrow> y = ErrTrailingData)
     \<and> (x = Blocked \<and> int (length s) = Size d \<longrightarrow> y = Blocked) \<and> y \<in> {ErrTrailingData, Blocked, x}"
proof -
  define v where "v = \<lparr>vr_N = Size d, vr_tee = \<lparr>te_src = r, te_seen = []\<rparr>, vr_digest = Digest d,
      vr_verified = False, vr_err = None\<rparr>"
  define n where "n = nat (Size d)"
  have n: "Size d = int n" "n \<le> length s" using assms by (auto simp: n_def)
  have v: "vr_err v = None" "vr_N v = int n" "rd_stream (te_src (vr_tee v)) = (s, x)"
    using assms n by (simp_all add: v_def)
  from read_full_enough [OF v n(2), of "[]"]
  obtain v' where rf: "read_full n [] v = (take n s, None, v')" and N: "vr_N v' = 0"
    and seen: "te_seen (vr_tee v') = take n s"
    and src: "rd_stream (te_src (vr_tee v')) = (drop n s, x)" and same: "vr_same v v'"
    and err: "vr_err v' = None \<or> vr_err v' = Some x \<and> length s = n"
    by (auto simp: v_def)
  have RA: "ReadAllS P r d = (case fst (Verify P v') of Some x \<Rightarrow> Inl x | None \<Rightarrow> Inr (take n s),
      te_seen (vr_tee (snd (Verify P v'))))"
    using assms rf n by (simp add: ReadAllS_def NewVerifyReader_def v_def split: prod.splits)
  have st: "\<not> vr_verified v'" "vr_digest v' = Digest d" "vr_N v' \<le> 0"
    using same N by (simp_all add: v_def vr_same_def)
  show ?thesis
  proof (cases "vr_err v' = None \<or> x = EOF")
    case True
    with err have "vr_err v' = None \<or> vr_err v' = Some EOF" by auto
    from Verify_at_limit [OF st(1,3) this src, of P] show ?thesis
      using n(2) seen st(2) take_add [of n 1 s] by (auto simp: RA n(1))
  next
    case False
    with err have "vr_err v' = Some x" "x \<noteq> EOF" "length s = n" by auto
    with Verify_failed [OF st(1)] seen show ?thesis by (auto simp: RA n(1))
  qed
qed

lemma ReadAllS_short:
  assumes "0 \<le> Size d" "dg_usable P (Digest d)" "rd_stream r = (s, x)" "int (length s) < Size d"
  shows "ReadAllS P r d = (Inl (if x = EOF then ErrUnexpectedEOF else x), s)"
proof -
  define v where "v = \<lparr>vr_N = Size d, vr_tee = \<lparr>te_src = r, te_seen = []\<rparr>, vr_digest = Digest d,
      vr_verified = False, vr_err = None\<rparr>"
  have "length s < nat (Size d)" using assms by linarith
  then obtain b v' where "read_full (nat (Size d)) [] v =
      (b, Some (if x = EOF then ErrUnexpectedEOF else x), v')" "te_seen (vr_tee v') = s"
    using read_full_short [of v "nat (Size d)" s x "[]"] assms by (auto simp: v_def)
  with assms show ?thesis by (simp add: ReadAllS_def NewVerifyReader_def v_def)
qed

lemma ReadAll_rejects:
  "Size d < 0 \<Longrightarrow> ReadAllS P r d = (Inl ErrInvalidDescriptorSize, [])"
  "\<lbrakk>0 \<le> Size d; \<not> dg_usable P (Digest d)\<rbrakk> \<Longrightarrow> ReadAllS P r d = (Inl Panic, [])"
  by (simp_all add: ReadAllS_def NewVerifyReader_def)

lemma ReadAll_enough:
  assumes "0 \<le> Size d" "dg_usable P (Digest d)"
    and "rd_stream r = (s, x)" "Size d \<le> int (length s)"
  shows "\<exists>y. ReadAll P r d =
     (if int (length s) = Size d \<and> x = EOF
      then if dg_verify P (Digest d) s then Inr s else Inl ErrMismatchedDigest
      else Inl y) \<and> (x = EOF \<longrightarrow> y = ErrTrailingData)"
  using ReadAllS_enough [OF assms] by (auto simp: ReadAll_def)

lemma ReadAll_short:
  assumes "0 \<le> Size d" "dg_usable P (Digest d)" "rd_stream r = (s, x)" "int (length s) < Size d"
  shows "ReadAll P r d = Inl (if x = EOF then ErrUnexpectedEOF else x)"
  using ReadAllS_short [OF assms] by (simp add: ReadAll_def)

text \<open>The errors of \<^verbatim>\<open>ReadAll\<close> and \<^verbatim>\<open>CopyBuffer\<close>.\<close>

lemma ReadAll_errors:
  assumes "ReadAll P r d = Inl e"
  shows "e \<in> {ErrInvalidDescriptorSize, Panic, ErrUnexpectedEOF, ErrTrailingData, ErrMismatchedDigest,
    Blocked, snd (rd_stream r)}"
proof -
  obtain s x where s: "rd_stream r = (s, x)" by (cases "rd_stream r")
  show ?thesis
  proof (cases "0 \<le> Size d \<and> dg_usable P (Digest d)")
    case True
    then have t: "0 \<le> Size d" "dg_usable P (Digest d)" by simp_all
    show ?thesis
    proof (cases "int (length s) < Size d")
      case True
      with ReadAllS_short [OF t s] assms s show ?thesis by (auto simp: ReadAll_def split: if_splits)
    next
      case False
      with ReadAllS_enough [OF t s] assms s show ?thesis by (auto simp: ReadAll_def split: if_splits)
    qed
  next
    case False
    with ReadAll_rejects [of d P r] assms show ?thesis by (cases "Size d < 0") (auto simp: ReadAll_def)
  qed
qed

lemma ReadAll_Inr:
  "ReadAll P r d = Inr b \<longleftrightarrow>
     dg_usable P (Digest d) \<and> rd_stream r = (b, EOF) \<and> int (length b) = Size d
     \<and> dg_verify P (Digest d) b"
proof (cases "0 \<le> Size d \<and> dg_usable P (Digest d)")
  case True
  obtain s x where s: "rd_stream r = (s, x)" by (cases "rd_stream r")
  show ?thesis
  proof (cases "int (length s) < Size d")
    case True
    with ReadAll_short [OF _ _ s] \<open>0 \<le> Size d \<and> _\<close> show ?thesis by (auto simp: s)
  next
    case False
    with ReadAll_enough [OF _ _ s, of d P] True show ?thesis by (auto simp: s split: if_splits)
  qed
next
  case False
  then show ?thesis by (cases "Size d < 0") (auto simp: ReadAll_def ReadAll_rejects)
qed

lemma ReadAll_clean:
  assumes "snd (rd_stream r) = EOF"
  shows "ReadAll P r d = read_all_spec P (fst (rd_stream r)) d"
proof -
  obtain s where s: "rd_stream r = (s, EOF)" using assms by (cases "rd_stream r") auto
  show ?thesis
  proof (cases "0 \<le> Size d \<and> dg_usable P (Digest d)")
    case True
    then show ?thesis
      using ReadAll_enough [OF _ _ s, of d P] ReadAll_short [OF _ _ s, of d P]
      by (auto simp: s read_all_spec_def)
  next
    case False
    then show ?thesis
      by (cases "Size d < 0") (auto simp: ReadAll_def ReadAll_rejects read_all_spec_def)
  qed
qed

text \<open>
  C11. \<^verbatim>\<open>content.ReadAll\<close> returns content exactly when the source delivers precisely that
  content and then ends cleanly, its length is the size of the descriptor and its digest is
  the digest of the descriptor. In particular truncated, extended or altered content is
  never returned, however the source splits it into reads.
\<close>

theorem ReadAll_iff:
  "ReadAll P r d = Inr b \<longleftrightarrow>
     dg_usable P (Digest d) \<and> rd_stream r = (b, EOF) \<and> int (length b) = Size d
     \<and> dg_verify P (Digest d) b"
  by (rule ReadAll_Inr)

text \<open>
  C21. For a source that ends cleanly, the result of \<^verbatim>\<open>content.ReadAll\<close>, errors included,
  depends on the delivered bytes only: a negative size, short content, trailing data and a
  digest mismatch are each reported by their own error, for every way of splitting the
  content into reads.
\<close>

theorem ReadAll_refines_spec:
  assumes "snd (rd_stream r) = EOF"
  shows "ReadAll P r d = read_all_spec P (fst (rd_stream r)) d"
  using assms by (rule ReadAll_clean)

theorem ReadAll_refines_spec_witness:
  "snd (rd_stream [(''he'', None), ([], None), (''llo'', Some EOF)]) = EOF \<and>
   ReadAll demo_ext [(''he'', None), ([], None), (''llo'', Some EOF)]
     (plain_desc DefaultMediaType ''sha256:hello'' 5) = Inr ''hello''"
proof -
  have h: "snd (rd_stream [(''he'', None), ([], None), (''llo'', Some EOF)]) = EOF" by simp
  show ?thesis
    using h ReadAll_refines_spec [OF h, of demo_ext "plain_desc DefaultMediaType ''sha256:hello'' 5"]
    by (simp add: read_all_spec_def demo_ext_def)
qed

lemma CopyBuffer_Inr:
  assumes "0 < n"
  shows "CopyBuffer P n r d = (Inr (), b) \<longleftrightarrow>
     dg_usable P (Digest d) \<and> rd_stream r = (b, EOF) \<and> int (length b) = max 0 (Size d)
     \<and> dg_verify P (Digest d) b"
proof (cases "dg_usable P (Digest d)")
  case True
  obtain s x where s: "rd_stream r = (s, x)" by (cases "rd_stream r")
  define v where "v = \<lparr>vr_N = Size d, vr_tee = \<lparr>te_src = r, te_seen = []\<rparr>, vr_digest = Digest d,
      vr_verified = False, vr_err = None\<rparr>"
  let ?k = "nat (Size d)"
  have v: "vr_N v = Size d" "vr_err v = None" "vr_tee v = \<lparr>te_src = r, te_seen = []\<rparr>"
    by (simp_all add: v_def)
  from copy_loop_stream [of v n s x "[]", unfolded v] s assms
  obtain v' e where cl: "copy_loop n [] v = (take ?k s, e, v')" and same: "vr_same v v'"
    and seen: "te_seen (vr_tee v') = take ?k s"
    and src: "rd_stream (te_src (vr_tee v')) = (drop ?k s, x)"
    and e: "if int (length s) < Size d then e = Some (if x = EOF then ErrUnexpectedEOF else x)
       else vr_N v' \<le> 0 \<and> (e = None \<and> vr_err v' = Some EOF
         \<or> e = Some x \<and> x \<noteq> EOF \<and> int (length s) = Size d)"
    by auto
  have CB: "CopyBuffer P n r d = (case e of Some x \<Rightarrow> (Inl x, take ?k s) | None \<Rightarrow>
      (case fst (Verify P v') of Some x \<Rightarrow> (Inl x, take ?k s) | None \<Rightarrow> (Inr (), take ?k s)))"
    using True cl
    by (cases e; cases "Verify P v'") (simp_all add: CopyBuffer_def NewVerifyReader_def v_def)
  have st: "\<not> vr_verified v'" "vr_digest v' = Digest d"
    using same by (simp_all add: v_def vr_same_def)
  show ?thesis
  proof (cases e)
    case None
    with e have N: "vr_N v' \<le> 0" "vr_err v' = Some EOF" and len: "Size d \<le> int (length s)"
      by (auto split: if_splits)
    have "take ?k s = s \<longleftrightarrow> drop ?k s = []" by simp
    with Verify_at_limit [OF st(1) N(1) _ src, of P] N None len True seen show ?thesis
      by (auto simp: CB s st(2))
  next
    case (Some y)
    with e s show ?thesis by (auto simp: CB split: if_splits)
  qed
next
  case False
  then show ?thesis by (auto simp: CopyBuffer_def NewVerifyReader_def)
qed

lemma CopyBuffer_errors:
  assumes "0 < n" "CopyBuffer P n r d = (Inl e, w)"
  shows "e \<in> {Panic, ErrUnexpectedEOF, ErrTrailingData, ErrMismatchedDigest, Blocked, snd (rd_stream r)}"
proof (cases "dg_usable P (Digest d)")
  case True
  obtain s x where s: "rd_stream r = (s, x)" by (cases "rd_stream r")
  define v where "v = \<lparr>vr_N = Size d, vr_tee = \<lparr>te_src = r, te_seen = []\<rparr>, vr_digest = Digest d,
      vr_verified = False, vr_err = None\<rparr>"
  have v: "vr_N v = Size d" "vr_err v = None" "vr_tee v = \<lparr>te_src = r, te_seen = []\<rparr>"
    by (simp_all add: v_def)
  from copy_loop_stream [of v n s x "[]", unfolded v] s assms(1)
  obtain b v' e' where cl: "copy_loop n [] v = (b, e', v')" and same: "vr_same v v'"
    and src: "rd_stream (te_src (vr_tee v')) = (drop (nat (Size d)) s, x)"
    and e': "if int (length s) < Size d then e' = Some (if x = EOF then ErrUnexpectedEOF else x)
       else vr_N v' \<le> 0 \<and> (e' = None \<and> vr_err v' = Some EOF
         \<or> e' = Some x \<and> x \<noteq> EOF \<and> int (length s) = Size d)"
    by auto
  have st: "\<not> vr_verified v'" using same by (simp add: v_def vr_same_def)
  have CB: "CopyBuffer P n r d = (case e' of Some x \<Rightarrow> (Inl x, b) | None \<Rightarrow>
      (case fst (Verify P v') of Some x \<Rightarrow> (Inl x, b) | None \<Rightarrow> (Inr (), b)))"
    using True cl
    by (cases e'; cases "Verify P v'") (simp_all add: CopyBuffer_def NewVerifyReader_def v_def)
  show ?thesis
  proof (cases e')
    case None
    with e' have "vr_N v' \<le> 0" "vr_err v' = Some EOF" by (auto split: if_splits)
    with Verify_at_limit [OF st(1) _ _ src, of P] CB None assms(2) s show ?thesis
      by (auto split: if_splits option.splits)
  next
    case (Some y)
    with e' s CB assms(2) show ?thesis by (auto split: if_splits)
  qed
next
  case False
  with assms(2) show ?thesis by (auto simp: CopyBuffer_def NewVerifyReader_def)
qed



end
