(* ===== verification/Storage.thy ===== *)
theory Storage
  imports Readers
begin

text \<open>
  \<^verbatim>\<open>content/storage.go\<close>, \<^verbatim>\<open>content/limitedstorage.go\<close> and \<^verbatim>\<open>internal/cas/memory.go\<close>.

  A Go storage is a state together with the methods \<^verbatim>\<open>Fetch\<close>, \<^verbatim>\<open>Exists\<close> and
  \<^verbatim>\<open>Push\<close>; the record \<open>storage\<close> holds the methods of a value of the interface
  \<^verbatim>\<open>content.Storage\<close> whose states have type \<open>'s\<close>. The locale \<open>cas\<close> is the contract of
  that interface: a content-addressable storage returns only content that was verified
  against the descriptor, never replaces content, and keeps its state when a push fails.
  It is interpreted on the memory CAS and on a limited memory CAS here, and on the file
  system storage of an OCI layout in \<open>Oci_Storage\<close>.
\<close>

record 's storage =
  st_Fetch :: "'s \<Rightarrow> descriptor \<Rightarrow> reader res"
  st_Exists :: "'s \<Rightarrow> descriptor \<Rightarrow> bool res"
  st_Push :: "'s \<Rightarrow> descriptor \<Rightarrow> reader \<Rightarrow> unit res \<times> 's"

section \<open>Fetching and limiting\<close>

definition FetchAll :: "ext \<Rightarrow> (descriptor \<Rightarrow> reader res) \<Rightarrow> descriptor \<Rightarrow> bytes res" where
  "FetchAll P fetch d = (case fetch d of Inl e \<Rightarrow> Inl e | Inr rc \<Rightarrow> ReadAll P rc d)"

text \<open>
  \<^verbatim>\<open>io.LimitReader\<close>: at most \<open>n\<close> bytes of the reader, then \<open>EOF\<close>. (The callers stop
  at the first error they see, so an error that comes with the last byte may stay.)
\<close>

fun limit_reader :: "nat \<Rightarrow> reader \<Rightarrow> reader" where
  "limit_reader n [] = []"
| "limit_reader n ((b, e) # rest) =
     (if n = 0 then []
      else if length b < n then (b, e) # limit_reader (n - length b) rest
      else if length b = n then [(b, e)]
      else [(take n b, None)])"

record 's limited =
  ls_Storage :: "'s storage"
  ls_PushLimit :: int

definition limited_Push :: "'s limited \<Rightarrow> 's \<Rightarrow> descriptor \<Rightarrow> reader \<Rightarrow> unit res \<times> 's" where
  "limited_Push ls s expected content =
     (if Size expected > ls_PushLimit ls then (Inl ErrSizeExceedsLimit, s)
      else st_Push (ls_Storage ls) s expected (limit_reader (nat (Size expected)) content))"

text \<open>The limited storage as a storage: the other methods are those of the embedded one.\<close>

definition LimitStorage :: "'s storage \<Rightarrow> int \<Rightarrow> 's storage" where
  "LimitStorage st n =
     st\<lparr>st_Push := limited_Push \<lparr>ls_Storage = st, ls_PushLimit = n\<rparr>\<rparr>"

section \<open>The memory CAS\<close>

type_synonym cas_memory = "key \<rightharpoonup> bytes"

definition mem_New :: cas_memory where
  "mem_New = Map.empty"

definition mem_Fetch :: "cas_memory \<Rightarrow> descriptor \<Rightarrow> reader res" where
  "mem_Fetch m target = (case m (FromOCI target) of
     None \<Rightarrow> Inl ErrNotFound
   | Some content \<Rightarrow> Inr (bytes_reader content))"

definition mem_Exists :: "cas_memory \<Rightarrow> descriptor \<Rightarrow> bool res" where
  "mem_Exists m target = Inr (m (FromOCI target) \<noteq> None)"

text \<open>
  \<^verbatim>\<open>Push\<close> looks the key up, reads the content, and then stores it with
  \<^verbatim>\<open>LoadOrStore\<close>. Another goroutine may store in between, so the state at the lookup and
  the state at the store are two arguments; a push that is not raced has them equal.
\<close>

definition mem_PushAt :: "ext \<Rightarrow> cas_memory \<Rightarrow> cas_memory \<Rightarrow> descriptor \<Rightarrow> reader \<Rightarrow> unit res \<times> cas_memory" where
  "mem_PushAt P m0 m expected content =
     (let key = FromOCI expected
      in if m0 key \<noteq> None then (Inl ErrAlreadyExists, m)
         else case ReadAll P content expected of
           Inl e \<Rightarrow> (Inl e, m)
         | Inr value \<Rightarrow>
             if m key \<noteq> None then (Inl ErrAlreadyExists, m)
             else (Inr (), m(key \<mapsto> value)))"

definition mem_Push :: "ext \<Rightarrow> cas_memory \<Rightarrow> descriptor \<Rightarrow> reader \<Rightarrow> unit res \<times> cas_memory" where
  "mem_Push P m = mem_PushAt P m m"

definition mem_storage :: "ext \<Rightarrow> cas_memory storage" where
  "mem_storage P = \<lparr>st_Fetch = mem_Fetch, st_Exists = mem_Exists, st_Push = mem_Push P\<rparr>"

text \<open>Every entry of the memory has the size and the digest of its key.\<close>

definition mem_inv :: "ext \<Rightarrow> cas_memory \<Rightarrow> bool" where
  "mem_inv P m \<longleftrightarrow> (\<forall>k b. m k = Some b \<longrightarrow>
     dg_usable P (key_digest k) \<and> dg_verify P (key_digest k) b \<and> int (length b) = key_size k)"

definition mem_content :: "cas_memory \<Rightarrow> descriptor \<Rightarrow> bytes option" where
  "mem_content m d = m (FromOCI d)"

section \<open>The contract of a content-addressable storage\<close>

locale cas =
  fixes P :: ext
    and st :: "'s storage"
    and inv :: "'s \<Rightarrow> bool"
    and content :: "'s \<Rightarrow> descriptor \<Rightarrow> bytes option"
    and accepts :: "descriptor \<Rightarrow> bool"
  assumes content_key: "FromOCI d = FromOCI d' \<Longrightarrow> content s d = content s d'"
    and fetch_Some: "\<lbrakk>inv s; content s d = Some b\<rbrakk> \<Longrightarrow> \<exists>r. st_Fetch st s d = Inr r \<and> rd_stream r = (b, EOF)"
    and fetch_None: "\<lbrakk>inv s; content s d = None\<rbrakk> \<Longrightarrow> \<exists>e. st_Fetch st s d = Inl e"
    and exists_iff: "\<lbrakk>inv s; st_Exists st s d = Inr x\<rbrakk> \<Longrightarrow> x \<longleftrightarrow> content s d \<noteq> None"
    and exists_ok: "\<lbrakk>inv s; accepts d\<rbrakk> \<Longrightarrow> \<exists>x. st_Exists st s d = Inr x"
    and content_verified: "\<lbrakk>inv s; content s d = Some b\<rbrakk> \<Longrightarrow>
          dg_usable P (Digest d) \<and> dg_verify P (Digest d) b"
    and push_ok: "\<lbrakk>inv s; st_Push st s d r = (Inr (), s')\<rbrakk> \<Longrightarrow>
          content s d = None \<and>
          (\<exists>b. content s' d = Some b \<and> b = take (length b) (fst (rd_stream r))
               \<and> (0 \<le> Size d \<longrightarrow> int (length b) = Size d))"
    and push_frame: "\<lbrakk>inv s; st_Push st s d r = (Inr (), s'); content s d' = Some b\<rbrakk> \<Longrightarrow>
          content s' d' = Some b"
    and push_new: "\<lbrakk>inv s; st_Push st s d r = (Inr (), s'); content s' d' \<noteq> None; content s d' = None\<rbrakk> \<Longrightarrow>
          Digest d' = Digest d"
    and push_err: "\<lbrakk>inv s; st_Push st s d r = (Inl e, s')\<rbrakk> \<Longrightarrow> content s' = content s"
    and push_exists: "\<lbrakk>inv s; accepts d; content s d \<noteq> None\<rbrakk> \<Longrightarrow>
          fst (st_Push st s d r) = Inl ErrAlreadyExists"
    and push_already: "\<lbrakk>inv s; st_Push st s d r = (Inl ErrAlreadyExists, s'); snd (rd_stream r) \<noteq> ErrAlreadyExists\<rbrakk> \<Longrightarrow>
          content s d \<noteq> None"
    and push_accepts: "\<lbrakk>inv s; accepts d; content s d = None; rd_stream r = (b, EOF);
          int (length b) = Size d; dg_usable P (Digest d); dg_verify P (Digest d) b\<rbrakk> \<Longrightarrow>
          fst (st_Push st s d r) = Inr ()"
    and push_inv: "inv s \<Longrightarrow> inv (snd (st_Push st s d r))"
begin

text \<open>Pushing and then fetching gives back the pushed content, verified.\<close>

lemma push_FetchAll:
  assumes "inv s" "st_Push st s d r = (Inr (), s')" "0 \<le> Size d"
  shows "FetchAll P (st_Fetch st s') d = Inr (take (nat (Size d)) (fst (rd_stream r)))"
proof -
  from push_ok [OF assms(1,2)] assms(3) obtain b where b: "content s' d = Some b"
    "b = take (length b) (fst (rd_stream r))" "int (length b) = Size d" by auto
  have inv': "inv s'" using push_inv [OF assms(1), of d r] assms(2) by simp
  from fetch_Some [OF inv' b(1)] obtain rc where "st_Fetch st s' d = Inr rc" "rd_stream rc = (b, EOF)"
    by auto
  with content_verified [OF inv' b(1)] b(3) have "FetchAll P (st_Fetch st s') d = Inr b"
    by (simp add: FetchAll_def ReadAll_Inr)
  moreover have "length b = nat (Size d)" using b(3) by linarith
  ultimately show ?thesis using b(2) by simp
qed

text \<open>Whatever is fetched has the digest of the descriptor.\<close>

lemma FetchAll_verified:
  "FetchAll P (st_Fetch st s) d = Inr b \<Longrightarrow> dg_verify P (Digest d) b \<and> int (length b) = Size d"
  by (auto simp: FetchAll_def ReadAll_Inr split: sum.splits)

lemma FetchAll_content:
  assumes "inv s" "FetchAll P (st_Fetch st s) d = Inr b"
  shows "content s d = Some b"
proof (cases "content s d")
  case None
  with fetch_None [OF assms(1) None] assms(2) show ?thesis by (auto simp: FetchAll_def)
next
  case (Some c)
  with fetch_Some [OF assms(1) Some] assms(2) show ?thesis
    by (auto simp: FetchAll_def ReadAll_Inr)
qed

text \<open>A push never changes what an earlier fetch returned.\<close>

lemma push_keeps_content:
  assumes "inv s" "content s d' = Some b"
  shows "content (snd (st_Push st s d r)) d' = Some b"
proof (cases "st_Push st s d r")
  case (Pair x s')
  show ?thesis
  proof (cases x)
    case (Inl e)
    with push_err [OF assms(1), of d r e s'] Pair assms(2) show ?thesis by simp
  next
    case (Inr u)
    with push_frame [OF assms(1), of d r s' d' b] Pair assms(2) show ?thesis by simp
  qed
qed

lemma push_keeps_FetchAll:
  assumes "inv s" "FetchAll P (st_Fetch st s) d' = Inr b"
  shows "FetchAll P (st_Fetch st (snd (st_Push st s d r))) d' = Inr b"
proof -
  have "content (snd (st_Push st s d r)) d' = Some b"
    by (rule push_keeps_content [OF assms(1) FetchAll_content [OF assms]])
  from fetch_Some [OF push_inv [OF assms(1)] this] FetchAll_verified [OF assms(2)]
    content_verified [OF assms(1) FetchAll_content [OF assms]]
  show ?thesis by (auto simp: FetchAll_def ReadAll_Inr)
qed

end

section \<open>What a client may rely on\<close>

text \<open>From \<open>s\<close> to \<open>s'\<close>, content is only added, and only content with the digest of \<open>d\<close>.\<close>

definition adds :: "('s \<Rightarrow> descriptor \<Rightarrow> bytes option) \<Rightarrow> descriptor \<Rightarrow> 's \<Rightarrow> 's \<Rightarrow> bool" where
  "adds content d s s' \<longleftrightarrow> (\<forall>x b. content s x = Some b \<longrightarrow> content s' x = Some b)
     \<and> (\<forall>x. content s' x \<noteq> None \<and> content s x = None \<longrightarrow> Digest x = Digest d)"

lemma adds_refl: "adds content d s s"
  by (auto simp: adds_def)

lemma adds_trans: "\<lbrakk>adds content d s s'; adds content d s' s''\<rbrakk> \<Longrightarrow> adds content d s s''"
  unfolding adds_def by blast

lemma adds_mono: "\<lbrakk>adds content d s s'; content s x \<noteq> None\<rbrakk> \<Longrightarrow> content s' x \<noteq> None"
  unfolding adds_def by blast

text \<open>
  What a client of a store can rely on whatever the store does besides storing: the stores that
  index and tag what is pushed may fail after they have stored the content.
\<close>

locale push_store =
  fixes P :: ext
    and st :: "'s storage"
    and inv :: "'s \<Rightarrow> bool"
    and content :: "'s \<Rightarrow> descriptor \<Rightarrow> bytes option"
  assumes store_key: "FromOCI d = FromOCI d' \<Longrightarrow> content s d = content s d'"
    and store_exists: "\<lbrakk>inv s; st_Exists st s d = Inr x\<rbrakk> \<Longrightarrow> x \<longleftrightarrow> content s d \<noteq> None"
    and store_verified: "\<lbrakk>inv s; content s d = Some b\<rbrakk> \<Longrightarrow> dg_verify P (Digest d) b"
    and store_adds: "inv s \<Longrightarrow> adds content d s (snd (st_Push st s d r))"
    and store_ok: "\<lbrakk>inv s; st_Push st s d r = (Inr (), s')\<rbrakk> \<Longrightarrow> content s' d \<noteq> None"
    and store_already: "\<lbrakk>inv s; st_Push st s d r = (Inl ErrAlreadyExists, s'); snd (rd_stream r) \<noteq> ErrAlreadyExists\<rbrakk> \<Longrightarrow>
          content s' d \<noteq> None"
    and store_inv: "inv s \<Longrightarrow> inv (snd (st_Push st s d r))"

sublocale cas \<subseteq> ps: push_store P st inv content
proof (unfold_locales, goal_cases)
  case 1 then show ?case by (rule content_key)
next
  case 2 then show ?case by (rule exists_iff)
next
  case 3 then show ?case using content_verified by blast
next
  case (4 s d r)
  obtain x s' where p: "st_Push st s d r = (x, s')" by (cases "st_Push st s d r")
  show ?case
  proof (cases x)
    case (Inl e)
    with push_err [OF 4] p show ?thesis by (auto simp: adds_def)
  next
    case (Inr u)
    then have p': "st_Push st s d r = (Inr (), s')" using p by simp
    have "adds content d s s'" unfolding adds_def
      using push_frame [OF 4 p'] push_new [OF 4 p'] by blast
    with p show ?thesis by simp
  qed
next
  case (5 s d r s') then show ?case using push_ok [of s d r s'] by auto
next
  case (6 s d r s') then show ?case using push_already [of s d r s'] push_err [of s d r _ s'] by simp
next
  case 7 then show ?case by (rule push_inv)
qed

text \<open>
  A store with references, as \<^verbatim>\<open>oras.Target\<close>. The two errors of the last law but one are those
  by which the functions of \<^verbatim>\<open>copy.go\<close> signal to each other.
\<close>

locale tag_store = push_store +
  fixes resolve :: "'s \<Rightarrow> string \<Rightarrow> descriptor res"
    and tag :: "'s \<Rightarrow> descriptor \<Rightarrow> string \<Rightarrow> unit res \<times> 's"
  assumes tag_ok: "\<lbrakk>inv s; tag s d r = (Inr (), s')\<rbrakk> \<Longrightarrow> \<exists>x. resolve s' r = Inr x \<and> Equal x d"
    and tag_inv: "inv s \<Longrightarrow> inv (snd (tag s d r))"
    and tag_content: "inv s \<Longrightarrow> content (snd (tag s d r)) = content s"
    and tag_err: "\<lbrakk>inv s; tag s d r = (Inl e, s')\<rbrakk> \<Longrightarrow> s' = s \<and> e \<notin> {SkipNode, ErrOther ''skip source''}"
    and push_resolve: "\<lbrakk>inv s; resolve s r = Inr x\<rbrakk> \<Longrightarrow>
          \<exists>x'. resolve (snd (st_Push st s d rd)) r = Inr x' \<and> (Equal x' x \<or> r = Digest d \<and> Equal x' d)"

section \<open>A limited storage keeps the contract\<close>

lemma limit_reader_stream:
  "fst (rd_stream (limit_reader n r)) = take n (fst (rd_stream r))"
proof (induction n r rule: limit_reader.induct)
  case (2 n b e rest)
  then show ?case by (cases e) auto
qed simp

lemma limit_reader_end: "snd (rd_stream (limit_reader n r)) \<in> {EOF, snd (rd_stream r)}"
proof (induction n r rule: limit_reader.induct)
  case (2 n b e rest)
  then show ?case by (cases e) auto
qed simp

lemma limit_reader_EOF: "snd (rd_stream r) = EOF \<Longrightarrow> snd (rd_stream (limit_reader n r)) = EOF"
proof (induction n r rule: limit_reader.induct)
  case (2 n b e rest)
  then show ?case by (cases e) auto
qed simp

lemma LimitStorage_sel [simp]:
  "st_Fetch (LimitStorage st n) = st_Fetch st" "st_Exists (LimitStorage st n) = st_Exists st"
  "st_Push (LimitStorage st n) s d r =
     (if Size d > n then (Inl ErrSizeExceedsLimit, s)
      else st_Push st s d (limit_reader (nat (Size d)) r))"
  by (simp_all add: LimitStorage_def limited_Push_def)

locale limited_cas = cas +
  fixes limit :: int

sublocale limited_cas \<subseteq> lim: cas P "LimitStorage st limit" inv content "\<lambda>d. accepts d \<and> Size d \<le> limit"
proof (unfold_locales, goal_cases)
  case 1 then show ?case by (rule content_key)
next
  case 2 then show ?case by (simp add: fetch_Some)
next
  case 3 then show ?case by (simp add: fetch_None)
next
  case 4 then show ?case using exists_iff by simp
next
  case 5 then show ?case by (simp add: exists_ok)
next
  case 6 then show ?case by (simp add: content_verified)
next
  case (7 s d r s')
  then have "st_Push st s d (limit_reader (nat (Size d)) r) = (Inr (), s')"
    by (simp split: if_splits)
  from push_ok [OF 7(1) this] show ?case
    by (auto simp: limit_reader_stream min_def split: if_splits)
next
  case 8 then show ?case using push_frame by (auto split: if_splits)
next
  case 9 then show ?case using push_new by (auto split: if_splits)
next
  case 10 then show ?case using push_err by (auto split: if_splits)
next
  case 11 then show ?case using push_exists by auto
next
  case (12 s d r s')
  then show ?case
    using push_already [OF 12(1), of d "limit_reader (nat (Size d)) r" s'] limit_reader_end [of "nat (Size d)" r]
    by (auto split: if_splits)
next
  case (13 s d r b)
  then have "rd_stream (limit_reader (nat (Size d)) r) = (b, EOF)"
    using limit_reader_stream [of "nat (Size d)" r] limit_reader_EOF [of r "nat (Size d)"]
    by (simp add: prod_eq_iff)
  with 13 push_accepts show ?case by auto
next
  case 14 then show ?case by (simp add: push_inv)
qed

section \<open>The memory CAS keeps the contract\<close>

lemma mem_Push_iff:
  "mem_Push P m d r = (Inr (), m') \<longleftrightarrow>
     m (FromOCI d) = None \<and> (\<exists>b. ReadAll P r d = Inr b \<and> m' = m(FromOCI d \<mapsto> b))"
  by (auto simp: mem_Push_def mem_PushAt_def Let_def split: sum.splits)

lemma mem_Push_err: "mem_Push P m d r = (Inl e, m') \<Longrightarrow> m' = m"
  by (auto simp: mem_Push_def mem_PushAt_def Let_def split: sum.splits if_splits)

lemma mem_Push_new:
  "mem_Push P m d r =
     (if m (FromOCI d) \<noteq> None then (Inl ErrAlreadyExists, m)
      else case ReadAll P r d of Inl e \<Rightarrow> (Inl e, m) | Inr b \<Rightarrow> (Inr (), m(FromOCI d \<mapsto> b)))"
  by (simp add: mem_Push_def mem_PushAt_def Let_def split: sum.splits)

lemma mem_inv_empty [simp]: "mem_inv P mem_New"
  by (simp add: mem_inv_def mem_New_def)

lemma mem_inv_FromOCI:
  "\<lbrakk>mem_inv P m; m (FromOCI d) = Some b\<rbrakk> \<Longrightarrow>
   dg_usable P (Digest d) \<and> dg_verify P (Digest d) b \<and> int (length b) = Size d"
  unfolding mem_inv_def by (metis FromOCI_sel)

lemma mem_PushAt_inv: "mem_inv P m \<Longrightarrow> mem_inv P (snd (mem_PushAt P m0 m d r))"
  by (auto simp: mem_PushAt_def Let_def mem_inv_def ReadAll_Inr split: sum.splits)

interpretation mem: cas P "mem_storage P" "mem_inv P" mem_content "\<lambda>_. True" for P
proof (unfold_locales, goal_cases)
  case 1 then show ?case by (simp add: mem_content_def)
next
  case 2 then show ?case by (simp add: mem_storage_def mem_content_def mem_Fetch_def)
next
  case 3 then show ?case by (simp add: mem_storage_def mem_content_def mem_Fetch_def)
next
  case 4 then show ?case by (simp add: mem_storage_def mem_content_def mem_Exists_def)
next
  case 5 then show ?case by (simp add: mem_storage_def mem_Exists_def)
next
  case 6 then show ?case by (simp add: mem_content_def mem_inv_FromOCI)
next
  case 7 then show ?case by (auto simp: mem_storage_def mem_content_def mem_Push_iff ReadAll_Inr)
next
  case 8 then show ?case by (auto simp: mem_storage_def mem_content_def mem_Push_iff)
next
  case 9 then show ?case
    by (auto simp: mem_storage_def mem_content_def mem_Push_iff FromOCI_eq_iff Equal_def split: if_splits)
next
  case 10 then show ?case by (auto simp: mem_storage_def dest!: mem_Push_err)
next
  case 11 then show ?case by (auto simp: mem_storage_def mem_content_def mem_Push_new)
next
  case 12 then show ?case
    by (auto simp: mem_storage_def mem_content_def mem_Push_new split: if_splits sum.splits dest: ReadAll_errors)
next
  case (13 m d r b)
  then have "ReadAll P r d = Inr b" by (simp add: ReadAll_Inr)
  with 13 show ?case by (simp add: mem_storage_def mem_content_def mem_Push_new)
next
  case 14 then show ?case by (simp add: mem_storage_def mem_Push_def mem_PushAt_inv)
qed

interpretation limmem: limited_cas P "mem_storage P" "mem_inv P" mem_content "\<lambda>_. True" n for P n
  by unfold_locales

section \<open>What the storages promise\<close>

lemma mem_storage_sel [simp]:
  "st_Fetch (mem_storage P) = mem_Fetch" "st_Exists (mem_storage P) = mem_Exists"
  "st_Push (mem_storage P) = mem_Push P"
  by (simp_all add: mem_storage_def)

lemma mem_FetchAll:
  "mem_inv P m \<Longrightarrow> FetchAll P (mem_Fetch m) d =
     (case m (FromOCI d) of None \<Rightarrow> Inl ErrNotFound | Some b \<Rightarrow> Inr b)"
  by (auto simp: FetchAll_def mem_Fetch_def ReadAll_Inr dest: mem_inv_FromOCI split: option.splits)

text \<open>
  C22. Round trip of the memory CAS. After a successful \<^verbatim>\<open>Push\<close>, fetching any descriptor
  with the same media type, digest and size returns the pushed content, and fetching any
  other descriptor returns what it returned before.
\<close>

theorem mem_push_fetch_roundtrip:
  assumes "mem_inv P m" "mem_Push P m d r = (Inr (), m')"
  shows "FetchAll P (mem_Fetch m') d' =
     (if Equal d' d then Inr (fst (rd_stream r)) else FetchAll P (mem_Fetch m) d')"
proof -
  have "mem_inv P m'" using mem_PushAt_inv [OF assms(1), of m d r] assms(2) by (simp add: mem_Push_def)
  with assms show ?thesis
    by (auto simp: mem_FetchAll mem_Push_iff ReadAll_Inr FromOCI_eq_iff)
qed

theorem mem_push_fetch_roundtrip_witness:
  "FetchAll demo_ext (mem_Fetch (snd (mem_Push demo_ext mem_New
      (plain_desc DefaultMediaType ''sha256:hello'' 5) [(''he'', None), (''llo'', None)])))
      (plain_desc DefaultMediaType ''sha256:hello'' 5) = Inr ''hello''"
proof -
  let ?d = "plain_desc DefaultMediaType ''sha256:hello'' 5"
  let ?r = "[(''he'', None), (''llo'', None)] :: reader"
  have r: "ReadAll demo_ext ?r ?d = Inr ''hello''" by (simp add: ReadAll_Inr demo_ext_def)
  have "mem_Push demo_ext mem_New ?d ?r = (Inr (), snd (mem_Push demo_ext mem_New ?d ?r))"
    by (simp add: mem_Push_new mem_New_def r)
  from mem_push_fetch_roundtrip [OF mem_inv_empty this, of ?d] show ?thesis by simp
qed

text \<open>
  The memory CAS is safe under concurrent pushes. Whatever state \<open>m0\<close> the lookup of a
  \<^verbatim>\<open>Push\<close> saw, the store at its end keeps every entry that the memory has by then, keeps
  the invariant that each entry has the size and digest of its key, and leaves the memory
  unchanged when the push fails; a push that loses the race reports
  \<^verbatim>\<open>ErrAlreadyExists\<close>.
\<close>

lemma mem_push_race_safe:
  assumes "mem_inv P m" "mem_PushAt P m0 m d r = (x, m')"
  shows "mem_inv P m' \<and> m \<subseteq>\<^sub>m m' \<and> (x \<noteq> Inr () \<longrightarrow> m' = m)
    \<and> (m (FromOCI d) \<noteq> None \<and> ReadAll P r d = Inr b \<longrightarrow> x = Inl ErrAlreadyExists)"
proof (intro conjI)
  show "mem_inv P m'" using mem_PushAt_inv [OF assms(1), of m0 d r] assms(2) by simp
  show "m \<subseteq>\<^sub>m m'" "x \<noteq> Inr () \<longrightarrow> m' = m"
    "m (FromOCI d) \<noteq> None \<and> ReadAll P r d = Inr b \<longrightarrow> x = Inl ErrAlreadyExists"
    using assms(2)
    by (auto simp: mem_PushAt_def Let_def map_le_def split: sum.splits if_splits)
qed

lemma mem_push_race_safe_witness:
  "fst (mem_PushAt demo_ext mem_New [Key DefaultMediaType ''sha256:hello'' 5 \<mapsto> ''hello'']
      (plain_desc DefaultMediaType ''sha256:hello'' 5) [(''hello'', None)]) = Inl ErrAlreadyExists"
proof -
  let ?d = "plain_desc DefaultMediaType ''sha256:hello'' 5"
  let ?m = "[Key DefaultMediaType ''sha256:hello'' 5 \<mapsto> ''hello''] :: cas_memory"
  have inv: "mem_inv demo_ext ?m" by (simp add: mem_inv_def demo_ext_def)
  have r: "ReadAll demo_ext [(''hello'', None)] ?d = Inr ''hello''"
    by (simp add: ReadAll_Inr demo_ext_def)
  have "?m (FromOCI ?d) \<noteq> None" by (simp add: FromOCI_def)
  with mem_push_race_safe [OF inv prod.collapse [symmetric]] r show ?thesis by blast
qed

text \<open>
  A limited storage stores at most the described number of bytes: a push that succeeds
  through \<^verbatim>\<open>LimitedStorage\<close> has a size within the limit, and what is stored is the
  described prefix of the stream. Data after that prefix is ignored, where a push to the
  memory CAS itself is refused with \<^verbatim>\<open>ErrTrailingData\<close>.
\<close>

lemma limited_push_prefix:
  assumes "mem_inv P m" "0 \<le> Size d"
    and "st_Push (LimitStorage (mem_storage P) n) m d r = (Inr (), m')"
  shows "Size d \<le> n \<and> FetchAll P (mem_Fetch m') d = Inr (take (nat (Size d)) (fst (rd_stream r)))
    \<and> (Size d < int (length (fst (rd_stream r))) \<longrightarrow> fst (mem_Push P m d r) \<noteq> Inr ())"
proof (intro conjI impI)
  show "Size d \<le> n" using assms(3) by (simp split: if_splits)
  show "FetchAll P (mem_Fetch m') d = Inr (take (nat (Size d)) (fst (rd_stream r)))"
    using limmem.lim.push_FetchAll [OF assms(1,3,2)] by simp
  assume "Size d < int (length (fst (rd_stream r)))"
  then have "ReadAll P r d \<noteq> Inr b" for b by (auto simp: ReadAll_Inr)
  then show "fst (mem_Push P m d r) \<noteq> Inr ()" by (auto simp: mem_Push_new split: sum.splits)
qed

lemma limited_push_prefix_witness:
  "FetchAll demo_ext (mem_Fetch (snd (st_Push (LimitStorage (mem_storage demo_ext) 10) mem_New
      (plain_desc DefaultMediaType ''sha256:hello'' 5) [(''hello world'', None)])))
      (plain_desc DefaultMediaType ''sha256:hello'' 5) = Inr ''hello''
   \<and> fst (mem_Push demo_ext mem_New
      (plain_desc DefaultMediaType ''sha256:hello'' 5) [(''hello world'', None)]) \<noteq> Inr ()"
proof -
  let ?d = "plain_desc DefaultMediaType ''sha256:hello'' 5"
  let ?r = "[(''hello world'', None)] :: reader"
  let ?push = "st_Push (LimitStorage (mem_storage demo_ext) 10) mem_New ?d ?r"
  have "ReadAll demo_ext (limit_reader 5 ?r) ?d = Inr ''hello''"
    by (simp add: ReadAll_Inr demo_ext_def)
  then have "?push = (Inr (), snd ?push)" by (simp add: mem_Push_new mem_New_def)
  from limited_push_prefix [OF mem_inv_empty _ this] show ?thesis by simp
qed

end
