(* ===== verification/Proxy.thy ===== *)
theory Proxy
  imports Storage
begin

text \<open>
  \<^verbatim>\<open>internal/cas/proxy.go\<close>: the caching proxy that \<^verbatim>\<open>Copy\<close> puts in front of its
  source. A first fetch reads the base storage and feeds every byte, through an
  \<^verbatim>\<open>io.Pipe\<close>, to a goroutine that pushes it to the cache.

  The pipe has no buffer: a \<^verbatim>\<open>Write\<close> returns once its bytes are consumed. If the push
  has already failed, the pipe is closed with its error and the \<^verbatim>\<open>Write\<close> fails with it;
  if the push has already succeeded, nobody closes or reads the pipe and the \<^verbatim>\<open>Write\<close>
  never returns. How many bytes a push reads before it decides is a function of the cache,
  \<open>px_demand\<close>; \<open>mem_demand\<close> and \<open>limit_demand\<close> are those of the two caches the library
  uses, and \<open>limit_demand_enough\<close> shows that a push to the limited memory cache depends
  on that many bytes only.
\<close>

record 'c proxy =
  px_Fetch :: "descriptor \<Rightarrow> reader res"
  px_Exists :: "descriptor \<Rightarrow> bool res"
  px_Cache :: "'c storage"
  px_demand :: "descriptor \<Rightarrow> nat"
  px_StopCaching :: bool

definition NewProxy :: "(descriptor \<Rightarrow> reader res) \<Rightarrow> (descriptor \<Rightarrow> bool res) \<Rightarrow> 'c storage \<Rightarrow>
    (descriptor \<Rightarrow> nat) \<Rightarrow> 'c proxy" where
  "NewProxy fetch exists cache demand =
     \<lparr>px_Fetch = fetch, px_Exists = exists, px_Cache = cache, px_demand = demand,
      px_StopCaching = False\<rparr>"

text \<open>A push to a limited storage reads nothing above the limit and the described size below it.\<close>

definition limit_demand :: "int \<Rightarrow> descriptor \<Rightarrow> nat" where
  "limit_demand n d = (if Size d > n then 0 else nat (Size d))"

text \<open>A push to the memory CAS also looks for one byte of trailing data.\<close>

definition mem_demand :: "descriptor \<Rightarrow> nat" where
  "mem_demand d = (if Size d < 0 then 0 else nat (Size d) + 1)"

definition NewProxyWithLimit :: "(descriptor \<Rightarrow> reader res) \<Rightarrow> (descriptor \<Rightarrow> bool res) \<Rightarrow>
    'c storage \<Rightarrow> int \<Rightarrow> 'c proxy" where
  "NewProxyWithLimit fetch exists cache n =
     NewProxy fetch exists (LimitStorage cache n) (limit_demand n)"

definition FetchCached :: "'c proxy \<Rightarrow> 'c \<Rightarrow> descriptor \<Rightarrow> reader res" where
  "FetchCached p c target = (case st_Exists (px_Cache p) c target of
     Inl e \<Rightarrow> Inl e
   | Inr True \<Rightarrow> st_Fetch (px_Cache p) c target
   | Inr False \<Rightarrow> px_Fetch p target)"

text \<open>
  \<^verbatim>\<open>io.TeeReader(rc, pw)\<close>: the reads of \<open>rc\<close>, each written to the pipe. \<open>k\<close> is what the
  push still reads, \<open>after\<close> is the outcome of a write once the push has returned.
\<close>

fun tee_pipe :: "nat \<Rightarrow> error \<Rightarrow> reader \<Rightarrow> reader" where
  "tee_pipe k after [] = []"
| "tee_pipe k after ((b, e) # rest) =
     (if length b \<le> k then (b, e) # tee_pipe (k - length b) after rest
      else [(take k b, Some after)])"

text \<open>
  \<^verbatim>\<open>Proxy.Fetch\<close> followed by \<^verbatim>\<open>content.ReadAll\<close> and \<^verbatim>\<open>Close\<close>, as \<^verbatim>\<open>content.FetchAll\<close>
  calls them on a proxy: the result, and the cache afterwards. \<^verbatim>\<open>Close\<close> closes the pipe,
  so the push sees the bytes that were read and then the end of the stream, and waits for
  the push; its own error is dropped by the caller.
\<close>

definition tee_ReadAll :: "ext \<Rightarrow> 'c proxy \<Rightarrow> 'c \<Rightarrow> descriptor \<Rightarrow> reader \<Rightarrow> bytes res \<times> 'c" where
  "tee_ReadAll P p c target rc =
     (let push = (\<lambda>b. st_Push (px_Cache p) c target (bytes_reader b));
          k = px_demand p target;
          after = (case fst (push (take k (fst (rd_stream rc)))) of Inl e \<Rightarrow> e | Inr _ \<Rightarrow> Blocked)
      in case ReadAllS P (tee_pipe k after rc) target of
           (result, seen) \<Rightarrow> (result, snd (push seen)))"

definition proxy_FetchAll :: "ext \<Rightarrow> 'c proxy \<Rightarrow> 'c \<Rightarrow> descriptor \<Rightarrow> bytes res \<times> 'c" where
  "proxy_FetchAll P p c target =
     (if px_StopCaching p then (FetchAll P (FetchCached p c) target, c)
      else case st_Fetch (px_Cache p) c target of
        Inr rc \<Rightarrow> (ReadAll P rc target, c)
      | Inl _ \<Rightarrow>
          (case px_Fetch p target of
             Inl e \<Rightarrow> (Inl e, c)
           | Inr rc \<Rightarrow> tee_ReadAll P p c target rc))"

definition proxy_Exists :: "'c proxy \<Rightarrow> 'c \<Rightarrow> descriptor \<Rightarrow> bool res" where
  "proxy_Exists p c target = (case st_Exists (px_Cache p) c target of
     Inr True \<Rightarrow> Inr True
   | _ \<Rightarrow> px_Exists p target)"

section \<open>The reader and the pipe\<close>

lemma tee_pipe_stream:
  "rd_stream (tee_pipe k after r) =
     (let (s, x) = rd_stream r in if length s \<le> k then (s, x) else (take k s, after))"
proof (induction k after r rule: tee_pipe.induct)
  case (2 k after b e rest)
  then show ?case by (cases e) (auto simp: Let_def split: prod.splits)
qed simp

lemma limit_reader_bytes: "limit_reader n (bytes_reader b) = bytes_reader (take n b)"
  by (auto simp: bytes_reader_def)

text \<open>A push to the limited memory cache, by the bytes it is given.\<close>

lemma limit_push_bytes:
  "st_Push (LimitStorage (mem_storage P) n) c d (bytes_reader b) =
     (if Size d > n then (Inl ErrSizeExceedsLimit, c)
      else if c (FromOCI d) \<noteq> None then (Inl ErrAlreadyExists, c)
      else case read_all_spec P (take (nat (Size d)) b) d of
        Inl e \<Rightarrow> (Inl e, c) | Inr v \<Rightarrow> (Inr (), c(FromOCI d \<mapsto> v)))"
  by (simp add: limit_reader_bytes mem_Push_new ReadAll_clean)

lemma limit_demand_enough:
  "take (limit_demand n d) b = take (limit_demand n d) b' \<Longrightarrow>
   st_Push (LimitStorage (mem_storage P) n) c d (bytes_reader b) =
   st_Push (LimitStorage (mem_storage P) n) c d (bytes_reader b')"
  by (cases "Size d > n") (simp_all add: limit_push_bytes limit_demand_def del: LimitStorage_sel)

lemma read_all_spec_not_EOF: "read_all_spec P s d \<noteq> Inl EOF"
  by (simp add: read_all_spec_def)

lemma limit_push_not_EOF: "fst (st_Push (LimitStorage (mem_storage P) n) c d (bytes_reader b)) \<noteq> Inl EOF"
  using read_all_spec_not_EOF [of P "take (nat (Size d)) b" d]
  by (auto simp: limit_push_bytes simp del: LimitStorage_sel split: sum.splits)

section \<open>A fetch through the proxy\<close>

text \<open>A miss, with the pipe and the push unfolded.\<close>

lemma proxy_miss:
  assumes "c (FromOCI d) = None" "fetch d = Inr rc"
  shows "\<exists>after. proxy_FetchAll P (NewProxyWithLimit fetch ex (mem_storage P) n) c d =
     (case ReadAllS P (tee_pipe (limit_demand n d) after rc) d of (result, seen) \<Rightarrow>
        (result, snd (st_Push (LimitStorage (mem_storage P) n) c d (bytes_reader seen))))
     \<and> after \<noteq> EOF
     \<and> (Size d \<le> n \<and> (\<exists>v. read_all_spec P (take (nat (Size d)) (fst (rd_stream rc))) d = Inr v)
        \<longrightarrow> after = Blocked)"
proof -
  let ?push = "\<lambda>b. st_Push (LimitStorage (mem_storage P) n) c d (bytes_reader b)"
  define after where "after = (case fst (?push (take (limit_demand n d) (fst (rd_stream rc)))) of
     Inl e \<Rightarrow> e | Inr _ \<Rightarrow> Blocked)"
  have "proxy_FetchAll P (NewProxyWithLimit fetch ex (mem_storage P) n) c d =
     (case ReadAllS P (tee_pipe (limit_demand n d) after rc) d of (result, seen) \<Rightarrow>
        (result, snd (?push seen)))"
    using assms
    by (simp add: proxy_FetchAll_def tee_ReadAll_def NewProxyWithLimit_def NewProxy_def mem_Fetch_def after_def Let_def
        del: LimitStorage_sel(3))
  moreover have "after \<noteq> EOF"
    using limit_push_not_EOF [of P n c d] by (auto simp: after_def simp del: LimitStorage_sel split: sum.splits)
  moreover have "after = Blocked" if "Size d \<le> n"
    "read_all_spec P (take (nat (Size d)) (fst (rd_stream rc))) d = Inr v" for v
    using assms that
    by (simp add: after_def limit_push_bytes limit_demand_def min_def del: LimitStorage_sel)
  ultimately show ?thesis by blast
qed

text \<open>What the cache holds and what the caller gets after a miss.\<close>

lemma proxy_miss_sound:
  assumes "c (FromOCI d) = None" "fetch d = Inr rc"
    and "proxy_FetchAll P (NewProxyWithLimit fetch ex (mem_storage P) n) c d = (Inr b, c')"
  shows "ReadAll P rc d = Inr b"
proof -
  from proxy_miss [where c = c and d = d and fetch = fetch, OF assms(1,2), of P ex n, unfolded assms(3)] obtain after where
    r: "ReadAll P (tee_pipe (limit_demand n d) after rc) d = Inr b" and "after \<noteq> EOF"
    unfolding ReadAll_def split_beta prod.inject by metis
  then show ?thesis
    by (auto simp: ReadAll_Inr tee_pipe_stream Let_def split: prod.splits if_splits)
qed

lemma proxy_miss_stores:
  assumes "c (FromOCI d) = None" "fetch d = Inr rc" "ReadAll P rc d = Inr b" "Size d \<le> n"
  shows "proxy_FetchAll P (NewProxyWithLimit fetch ex (mem_storage P) n) c d =
    (Inr b, c(FromOCI d \<mapsto> b))"
proof -
  from assms(3) have b: "rd_stream rc = (b, EOF)" "int (length b) = Size d"
    "dg_usable P (Digest d)" "dg_verify P (Digest d) b"
    by (auto simp: ReadAll_Inr)
  then have k: "limit_demand n d = length b" using assms(4) by (simp add: limit_demand_def)
  have sz: "nat (Size d) = length b" using b(2) by linarith
  from proxy_miss [where c = c and d = d and fetch = fetch, OF assms(1,2), of P ex n] obtain after where
    p: "proxy_FetchAll P (NewProxyWithLimit fetch ex (mem_storage P) n) c d =
     (case ReadAllS P (tee_pipe (length b) after rc) d of (result, seen) \<Rightarrow>
        (result, snd (st_Push (LimitStorage (mem_storage P) n) c d (bytes_reader seen))))"
    unfolding k by blast
  have "rd_stream (tee_pipe (length b) after rc) = (b, EOF)"
    by (simp add: tee_pipe_stream b)
  then have "ReadAllS P (tee_pipe (length b) after rc) d = (Inr b, b)"
    using ReadAllS_enough [of d P "tee_pipe (length b) after rc" b EOF] b(2-4) sz by simp
  then show ?thesis
    using b assms(1,4) sz by (simp add: p limit_push_bytes read_all_spec_def del: LimitStorage_sel)
qed

lemma proxy_cache_only_grows:
  assumes "proxy_FetchAll P p c d = (x, c')"
  shows "c' = c \<or> (\<exists>b. c' = snd (st_Push (px_Cache p) c d (bytes_reader b)))"
  using assms by (auto simp: proxy_FetchAll_def tee_ReadAll_def Let_def split: sum.splits prod.splits if_splits)

text \<open>
  C23. Fetching through the caching proxy is transparent and caches. If the base storage
  delivers valid content for a descriptor within the cache limit, the first fetch returns
  that content and stores it, and every later fetch returns it from the cache, whatever the
  base storage (\<open>fetch'\<close>) does by then and whether or not caching has been stopped.
\<close>

theorem proxy_transparent:
  assumes "mem_inv P c" "mem_content c d = None" "FetchAll P fetch d = Inr b" "Size d \<le> n"
  shows "\<exists>c'. proxy_FetchAll P (NewProxyWithLimit fetch ex (mem_storage P) n) c d = (Inr b, c')
     \<and> mem_content c' d = Some b
     \<and> proxy_FetchAll P ((NewProxyWithLimit fetch' ex (mem_storage P) n)\<lparr>px_StopCaching := stop\<rparr>) c' d
       = (Inr b, c')"
proof -
  from assms(3) obtain rc where rc: "fetch d = Inr rc" "ReadAll P rc d = Inr b"
    by (auto simp: FetchAll_def split: sum.splits)
  have "proxy_FetchAll P ((NewProxyWithLimit fetch' ex (mem_storage P) n)\<lparr>px_StopCaching := stop\<rparr>)
      (c(FromOCI d \<mapsto> b)) d = (Inr b, c(FromOCI d \<mapsto> b))"
    using rc(2)
    by (simp add: proxy_FetchAll_def tee_ReadAll_def NewProxyWithLimit_def NewProxy_def FetchAll_def FetchCached_def
        mem_Fetch_def mem_Exists_def ReadAll_Inr)
  with proxy_miss_stores [of c d fetch rc P b n ex] assms(2,4) rc show ?thesis
    by (auto simp: mem_content_def)
qed

theorem proxy_transparent_witness:
  "\<exists>c'. proxy_FetchAll demo_ext (NewProxyWithLimit (\<lambda>_. Inr [(''hello'', None)]) (\<lambda>_. Inr True)
       (mem_storage demo_ext) 10) mem_New (plain_desc DefaultMediaType ''sha256:hello'' 5)
     = (Inr ''hello'', c')"
proof -
  let ?d = "plain_desc DefaultMediaType ''sha256:hello'' 5"
  have "FetchAll demo_ext (\<lambda>_. Inr [(''hello'', None)]) ?d = Inr ''hello''"
    by (simp add: FetchAll_def ReadAll_Inr demo_ext_def)
  from proxy_transparent [OF mem_inv_empty _ this, of 10 "\<lambda>_. Inr True"] show ?thesis
    by (auto simp: mem_content_def mem_New_def)
qed

lemma proxy_FetchAll_sound:
  assumes "mem_inv P c"
    and "proxy_FetchAll P (NewProxyWithLimit fetch ex (mem_storage P) n) c d = (x, c')"
  shows "mem_inv P c' \<and> c \<subseteq>\<^sub>m c' \<and> (\<forall>b. x = Inr b \<longrightarrow>
     dg_verify P (Digest d) b \<and> int (length b) = Size d
     \<and> (mem_content c d = Some b \<or> FetchAll P fetch d = Inr b))"
proof (intro conjI allI impI)
  let ?px = "NewProxyWithLimit fetch ex (mem_storage P) n"
  have cache: "px_Cache ?px = LimitStorage (mem_storage P) n"
    by (simp add: NewProxyWithLimit_def NewProxy_def)
  note grows = proxy_cache_only_grows [OF assms(2), unfolded cache]
  with assms(1) limmem.lim.push_inv [of P c] show "mem_inv P c'" by metis
  have "mem_content c' d' = Some b" if "mem_content c d' = Some b" for d' b
    using grows limmem.lim.push_keeps_content [OF assms(1) that, of n d] that by metis
  then have "c' (FromOCI d') = Some b" if "c (FromOCI d') = Some b" for d' b
    using that by (simp add: mem_content_def)
  moreover have "k = FromOCI (plain_desc (key_media k) (key_digest k) (key_size k))" for k
    by (simp add: FromOCI_def)
  ultimately show "c \<subseteq>\<^sub>m c'" unfolding map_le_def by (metis domIff not_None_eq)
  fix b assume x: "x = Inr b"
  have *: "dg_verify P (Digest d) b \<and> int (length b) = Size d
     \<and> (mem_content c d = Some b \<or> FetchAll P fetch d = Inr b)"
  proof (cases "c (FromOCI d)")
    case None
    from assms(2) x None obtain rc where rc: "fetch d = Inr rc"
      by (auto simp: proxy_FetchAll_def tee_ReadAll_def NewProxyWithLimit_def NewProxy_def mem_Fetch_def split: sum.splits)
    from proxy_miss_sound [where c = c and d = d and fetch = fetch, OF None rc] assms(2) x rc show ?thesis
      by (auto simp: FetchAll_def ReadAll_Inr)
  next
    case (Some v)
    with assms x show ?thesis
      by (auto simp: proxy_FetchAll_def tee_ReadAll_def NewProxyWithLimit_def NewProxy_def mem_Fetch_def mem_content_def
          ReadAll_Inr)
  qed
  then show "dg_verify P (Digest d) b" "int (length b) = Size d"
    "mem_content c d = Some b \<or> FetchAll P fetch d = Inr b" by auto
qed

text \<open>
  C24. A fetch through the proxy returns only content that the cache already held or that the
  base storage delivered, verified against the descriptor in both cases; it keeps the cache
  valid and never changes or removes an entry of it, also when it fails.
\<close>

theorem proxy_sound:
  assumes "mem_inv P c"
    and "proxy_FetchAll P (NewProxyWithLimit fetch ex (mem_storage P) n) c d = (x, c')"
  shows "mem_inv P c' \<and> c \<subseteq>\<^sub>m c' \<and> (\<forall>b. x = Inr b \<longrightarrow>
     dg_verify P (Digest d) b \<and> int (length b) = Size d
     \<and> (mem_content c d = Some b \<or> FetchAll P fetch d = Inr b))"
  by (rule proxy_FetchAll_sound [OF assms])

theorem proxy_sound_witness:
  "mem_inv demo_ext (snd (proxy_FetchAll demo_ext (NewProxyWithLimit (\<lambda>_. Inr [(''help!'', None)])
     (\<lambda>_. Inr True) (mem_storage demo_ext) 10) mem_New (plain_desc DefaultMediaType ''sha256:hello'' 5)))"
  using proxy_sound [OF mem_inv_empty prod.collapse [symmetric]] by blast

text \<open>
  C28. Fetching through the proxy does not return when the base storage sends more than the
  described content: the cache, which reads only the described bytes, accepts them and
  leaves the pipe open, and the next write to the pipe waits for a reader for ever. Without
  the proxy the same fetch fails with \<^verbatim>\<open>ErrTrailingData\<close>.
\<close>

theorem proxy_trailing_blocks:
  assumes "c (FromOCI d) = None" "fetch d = Inr rc" "rd_stream rc = (s, EOF)"
    and "0 \<le> Size d" "Size d \<le> n" "Size d < int (length s)" "dg_usable P (Digest d)"
    and "dg_verify P (Digest d) (take (nat (Size d)) s)"
  shows "fst (proxy_FetchAll P (NewProxyWithLimit fetch ex (mem_storage P) n) c d) = Inl Blocked
     \<and> FetchAll P fetch d = Inl ErrTrailingData"
proof
  define k where "k = nat (Size d)"
  have k: "limit_demand n d = k" "Size d = int k" "k < length s" "length (take k s) = k"
    using assms(4-6) by (auto simp: limit_demand_def k_def)
  have "read_all_spec P (take (nat (Size d)) (fst (rd_stream rc))) d = Inr (take k s)"
    using assms k by (simp add: read_all_spec_def)
  with proxy_miss [where c = c and d = d and fetch = fetch, OF assms(1,2), of P ex n] assms(5)
  have "proxy_FetchAll P (NewProxyWithLimit fetch ex (mem_storage P) n) c d =
     (case ReadAllS P (tee_pipe k Blocked rc) d of (result, seen) \<Rightarrow>
        (result, snd (st_Push (LimitStorage (mem_storage P) n) c d (bytes_reader seen))))"
    unfolding k(1) by blast
  moreover have "rd_stream (tee_pipe k Blocked rc) = (take k s, Blocked)"
    using k(3) by (simp add: tee_pipe_stream assms(3))
  from ReadAllS_enough [OF assms(4,7) this] have "fst (ReadAllS P (tee_pipe k Blocked rc) d) = Inl Blocked"
    using k(2,4) by auto
  ultimately show "fst (proxy_FetchAll P (NewProxyWithLimit fetch ex (mem_storage P) n) c d) = Inl Blocked"
    by (simp add: split_beta)
  show "FetchAll P fetch d = Inl ErrTrailingData"
    using assms by (simp add: FetchAll_def ReadAll_clean read_all_spec_def)
qed

theorem proxy_trailing_blocks_witness:
  "fst (proxy_FetchAll demo_ext (NewProxyWithLimit (\<lambda>_. Inr [(''hello world'', None)]) (\<lambda>_. Inr True)
       (mem_storage demo_ext) 10) mem_New (plain_desc DefaultMediaType ''sha256:hello'' 5))
     = Inl Blocked"
  using proxy_trailing_blocks [of mem_New "plain_desc DefaultMediaType ''sha256:hello'' 5"
      "\<lambda>_. Inr [(''hello world'', None)]" "[(''hello world'', None)]" "''hello world''" 10 demo_ext]
  by (simp add: mem_New_def demo_ext_def)

end
