(* ===== verification/Oci_Storage.thy ===== *)
theory Oci_Storage
  imports Storage
begin

text \<open>
  \<^verbatim>\<open>content/oci/storage.go\<close> and \<^verbatim>\<open>content/oci/readonlystorage.go\<close>: the storage of an OCI
  image layout on a file system.

  The file system is a map from paths to file contents; a path is the list of its components
  relative to the root of the layout. I/O errors other than a missing file are not modelled.
  A push writes to a temporary file of the ingest directory, which is renamed to its blob
  path when the content has been verified and removed otherwise, so the temporary file is
  never part of the state between two calls.
\<close>

type_synonym path = "string list"
type_synonym files = "(path, bytes) gomap"

definition blobPath :: "ext \<Rightarrow> string \<Rightarrow> path res" where
  "blobPath P dgst =
     (if \<not> dg_valid P dgst then Inl ErrInvalidDigest
      else Inr [''blobs'', dg_Algorithm dgst, dg_Encoded dgst])"

section \<open>Operations\<close>

definition oci_Fetch :: "ext \<Rightarrow> files \<Rightarrow> descriptor \<Rightarrow> reader res" where
  "oci_Fetch P fs target = (case blobPath P (Digest target) of
     Inl _ \<Rightarrow> Inl ErrInvalidDigest
   | Inr path \<Rightarrow> (case gm_get fs path of
       None \<Rightarrow> Inl ErrNotFound
     | Some b \<Rightarrow> Inr (bytes_reader b)))"

definition oci_Exists :: "ext \<Rightarrow> files \<Rightarrow> descriptor \<Rightarrow> bool res" where
  "oci_Exists P fs target = (case blobPath P (Digest target) of
     Inl _ \<Rightarrow> Inl ErrInvalidDigest
   | Inr path \<Rightarrow> Inr (gm_get fs path \<noteq> None))"

text \<open>The buffers of the pool have one mebibyte.\<close>

definition bufSize :: nat where
  "bufSize = 2 ^ 20"

text \<open>\<^verbatim>\<open>ingest\<close>: the content of the temporary file.\<close>

definition oci_ingest :: "ext \<Rightarrow> descriptor \<Rightarrow> reader \<Rightarrow> bytes res" where
  "oci_ingest P expected content = (case CopyBuffer P bufSize content expected of
     (Inl e, _) \<Rightarrow> Inl e
   | (Inr _, written) \<Rightarrow> Inr written)"

text \<open>
  The existence check and the rename at the end see different states when pushes run
  concurrently (\<open>fs0\<close> and \<open>fs\<close>). The rename replaces a file that appeared in between.
\<close>

definition oci_PushAt :: "ext \<Rightarrow> files \<Rightarrow> files \<Rightarrow> descriptor \<Rightarrow> reader \<Rightarrow> unit res \<times> files" where
  "oci_PushAt P fs0 fs expected content = (case blobPath P (Digest expected) of
     Inl _ \<Rightarrow> (Inl ErrInvalidDigest, fs)
   | Inr target \<Rightarrow>
       if gm_get fs0 target \<noteq> None then (Inl ErrAlreadyExists, fs)
       else case oci_ingest P expected content of
         Inl e \<Rightarrow> (Inl e, fs)
       | Inr b \<Rightarrow> (Inr (), gm_put target b fs))"

definition oci_Push :: "ext \<Rightarrow> files \<Rightarrow> descriptor \<Rightarrow> reader \<Rightarrow> unit res \<times> files" where
  "oci_Push P fs = oci_PushAt P fs fs"

definition oci_Delete :: "ext \<Rightarrow> files \<Rightarrow> descriptor \<Rightarrow> unit res \<times> files" where
  "oci_Delete P fs target = (case blobPath P (Digest target) of
     Inl _ \<Rightarrow> (Inl ErrInvalidDigest, fs)
   | Inr path \<Rightarrow> (case gm_get fs path of
       None \<Rightarrow> (Inl ErrNotFound, fs)
     | Some _ \<Rightarrow> (Inr (), gm_del path fs)))"

definition oci_storage :: "ext \<Rightarrow> files storage" where
  "oci_storage P = \<lparr>st_Fetch = oci_Fetch P, st_Exists = oci_Exists P, st_Push = oci_Push P\<rparr>"

section \<open>The contract\<close>

text \<open>Every blob file has the digest of its path.\<close>

definition oci_inv :: "ext \<Rightarrow> files \<Rightarrow> bool" where
  "oci_inv P fs \<longleftrightarrow> digest_laws P \<and> gm_ok fs \<and>
     (\<forall>d p b. blobPath P d = Inr p \<and> gm_get fs p = Some b \<longrightarrow> dg_verify P d b)"

definition oci_content :: "ext \<Rightarrow> files \<Rightarrow> descriptor \<Rightarrow> bytes option" where
  "oci_content P fs d = (case blobPath P (Digest d) of Inl _ \<Rightarrow> None | Inr p \<Rightarrow> gm_get fs p)"

lemma blobPath_valid: "blobPath P d = Inr p \<Longrightarrow> dg_valid P d"
  by (simp add: blobPath_def split: if_splits)

lemma blobPath_inject:
  assumes "digest_laws P" "blobPath P d = Inr p" "blobPath P d' = Inr p"
  shows "d = d'"
proof -
  from assms have "dg_Algorithm d = dg_Algorithm d'" "dg_Encoded d = dg_Encoded d'"
    by (auto simp: blobPath_def split: if_splits)
  moreover from assms have "CHR '':'' \<in> set d" "CHR '':'' \<in> set d'"
    by (auto simp: digest_laws_def dest!: blobPath_valid)
  ultimately show ?thesis using dg_split [of d] dg_split [of d'] by simp
qed

lemma blobPath_length: "blobPath P d = Inr p \<Longrightarrow> length p = 3"
  by (auto simp: blobPath_def split: if_splits)

lemma bufSize_pos: "0 < bufSize"
  by (simp add: bufSize_def)

lemma oci_ingest_iff:
  "oci_ingest P d r = Inr b \<longleftrightarrow> dg_usable P (Digest d) \<and> rd_stream r = (b, EOF)
     \<and> int (length b) = max 0 (Size d) \<and> dg_verify P (Digest d) b"
proof -
  have "oci_ingest P d r = Inr b \<longleftrightarrow> CopyBuffer P bufSize r d = (Inr (), b)"
    by (auto simp: oci_ingest_def split: prod.splits sum.splits)
  then show ?thesis by (simp add: CopyBuffer_Inr [OF bufSize_pos])
qed

lemma oci_Push_iff:
  "oci_Push P fs d r = (Inr (), fs') \<longleftrightarrow>
     (\<exists>p b. blobPath P (Digest d) = Inr p \<and> gm_get fs p = None \<and> oci_ingest P d r = Inr b
        \<and> fs' = gm_put p b fs)"
  by (auto simp: oci_Push_def oci_PushAt_def split: sum.splits)

lemma oci_Push_err: "oci_Push P fs d r = (Inl e, fs') \<Longrightarrow> fs' = fs"
  by (auto simp: oci_Push_def oci_PushAt_def split: sum.splits if_splits)

lemma oci_inv_put:
  assumes "oci_inv P fs" "blobPath P (Digest d) = Inr p" "oci_ingest P d r = Inr b"
  shows "oci_inv P (gm_put p b fs)"
proof -
  have "dg_verify P d' c" if "blobPath P d' = Inr q" "gm_get (gm_put p b fs) q = Some c" for d' q c
  proof (cases "q = p")
    case True
    with that assms blobPath_inject [of P d' p "Digest d"] have "d' = Digest d" "c = b"
      by (auto simp: oci_inv_def)
    with assms(3) show ?thesis by (simp add: oci_ingest_iff)
  next
    case False
    with that assms(1) show ?thesis by (auto simp: oci_inv_def)
  qed
  with assms(1) show ?thesis by (auto simp: oci_inv_def)
qed

lemma oci_PushAt_inv: "oci_inv P fs \<Longrightarrow> oci_inv P (snd (oci_PushAt P fs0 fs d r))"
  by (simp add: oci_PushAt_def oci_inv_put split: sum.splits)

lemma oci_Delete_inv: "oci_inv P fs \<Longrightarrow> oci_inv P (snd (oci_Delete P fs d))"
  by (auto simp: oci_Delete_def oci_inv_def split: sum.splits option.splits if_splits)

interpretation ocist: cas P "oci_storage P" "oci_inv P" "oci_content P" "\<lambda>d. dg_valid P (Digest d)" for P
proof (unfold_locales, goal_cases)
  case 1 then show ?case by (simp add: oci_content_def FromOCI_def)
next
  case 2 then show ?case by (auto simp: oci_storage_def oci_content_def oci_Fetch_def split: sum.splits)
next
  case 3 then show ?case by (auto simp: oci_storage_def oci_content_def oci_Fetch_def split: sum.splits)
next
  case 4 then show ?case by (auto simp: oci_storage_def oci_content_def oci_Exists_def split: sum.splits)
next
  case 5 then show ?case by (simp add: oci_storage_def oci_Exists_def blobPath_def)
next
  case (6 fs d b)
  then obtain p where p: "blobPath P (Digest d) = Inr p" "gm_get fs p = Some b"
    by (auto simp: oci_content_def split: sum.splits)
  with 6 blobPath_valid [OF p(1)] show ?case by (auto simp: oci_inv_def digest_laws_def)
next
  case 7 then show ?case
    by (auto simp: oci_storage_def oci_content_def oci_Push_iff oci_ingest_iff)
next
  case 8 then show ?case
    by (auto simp: oci_storage_def oci_content_def oci_Push_iff split: sum.splits)
next
  case (9 fs d r fs' d')
  then obtain p b where p: "blobPath P (Digest d) = Inr p" "fs' = gm_put p b fs"
    by (auto simp: oci_storage_def oci_Push_iff)
  with 9 have "blobPath P (Digest d') = Inr p"
    by (auto simp: oci_content_def split: sum.splits if_splits)
  with p(1) 9(1) blobPath_inject show ?case by (auto simp: oci_inv_def)
next
  case 10 then show ?case by (auto simp: oci_storage_def dest!: oci_Push_err)
next
  case 11 then show ?case
    by (auto simp: oci_storage_def oci_content_def oci_Push_def oci_PushAt_def blobPath_def split: sum.splits)
next
  case (12 fs d r fs')
  then show ?case
    using CopyBuffer_errors [OF bufSize_pos, of P r d ErrAlreadyExists]
    by (auto simp: oci_storage_def oci_content_def oci_Push_def oci_PushAt_def oci_ingest_def blobPath_def
        split: sum.splits prod.splits if_splits)
next
  case (13 fs d r b)
  then obtain p where p: "blobPath P (Digest d) = Inr p" "gm_get fs p = None"
    by (auto simp: oci_content_def blobPath_def)
  moreover from 13 have "oci_ingest P d r = Inr b" by (simp add: oci_ingest_iff)
  ultimately show ?case by (simp add: oci_storage_def oci_Push_def oci_PushAt_def)
next
  case 14 then show ?case by (simp add: oci_storage_def oci_Push_def oci_PushAt_inv)
qed

end
