(* ===== verification/Content_Graph.thy ===== *)
theory Content_Graph
  imports Storage
begin

text \<open>
  \<^verbatim>\<open>content/graph.go\<close>, \<^verbatim>\<open>internal/manifestutil/parser.go\<close>,
  \<^verbatim>\<open>internal/platform/platform.go\<close> and the function \<^verbatim>\<open>Referrers\<close> of
  \<^verbatim>\<open>registry/repository.go\<close>: what a manifest points to, and the selection of manifests by
  platform and by subject.

  A fetcher is a function from descriptors to readers. Each of the five manifest media types
  is fetched with \<^verbatim>\<open>FetchAll\<close> and decoded; \<open>decode_successors\<close> is the part of
  \<^verbatim>\<open>Successors\<close> after the fetch, shared with the callers that fetch through a proxy.
\<close>

section \<open>Successors\<close>

definition opt_list :: "'a option \<Rightarrow> 'a list" where
  "opt_list x = (case x of None \<Rightarrow> [] | Some y \<Rightarrow> [y])"

definition decode_successors :: "ext \<Rightarrow> descriptor \<Rightarrow> bytes \<Rightarrow> descriptor list res" where
  "decode_successors P node content =
     (if MediaType node = docker_MediaTypeManifest then
        (case un_manifest P content of
           None \<Rightarrow> Inl ErrDecode
         | Some manifest \<Rightarrow> Inr (m_Config manifest # m_Layers manifest))
      else if MediaType node = oci_MediaTypeImageManifest then
        (case un_manifest P content of
           None \<Rightarrow> Inl ErrDecode
         | Some manifest \<Rightarrow>
             Inr (opt_list (m_Subject manifest) @ [m_Config manifest] @ m_Layers manifest))
      else if MediaType node = docker_MediaTypeManifestList then
        (case un_index P content of
           None \<Rightarrow> Inl ErrDecode
         | Some index \<Rightarrow> Inr (i_Manifests index))
      else if MediaType node = oci_MediaTypeImageIndex then
        (case un_index P content of
           None \<Rightarrow> Inl ErrDecode
         | Some index \<Rightarrow> Inr (opt_list (i_Subject index) @ i_Manifests index))
      else if MediaType node = spec_MediaTypeArtifactManifest then
        (case un_artifact P content of
           None \<Rightarrow> Inl ErrDecode
         | Some manifest \<Rightarrow> Inr (opt_list (a_Subject manifest) @ a_Blobs manifest))
      else Inr [])"

definition Successors :: "ext \<Rightarrow> (descriptor \<Rightarrow> reader res) \<Rightarrow> descriptor \<Rightarrow> descriptor list res" where
  "Successors P fetcher node =
     (if MediaType node \<in> {docker_MediaTypeManifest, oci_MediaTypeImageManifest,
          docker_MediaTypeManifestList, oci_MediaTypeImageIndex, spec_MediaTypeArtifactManifest}
      then (case FetchAll P fetcher node of
              Inl e \<Rightarrow> Inl e
            | Inr content \<Rightarrow> decode_successors P node content)
      else Inr [])"

section \<open>Parts of a manifest\<close>

definition Config :: "ext \<Rightarrow> (descriptor \<Rightarrow> reader res) \<Rightarrow> descriptor \<Rightarrow> descriptor option res" where
  "Config P fetcher desc =
     (if MediaType desc \<in> {docker_MediaTypeManifest, oci_MediaTypeImageManifest} then
        (case FetchAll P fetcher desc of
           Inl e \<Rightarrow> Inl e
         | Inr content \<Rightarrow> (case un_manifest P content of
             None \<Rightarrow> Inl ErrDecode
           | Some manifest \<Rightarrow> Inr (Some (m_Config manifest))))
      else Inr None)"

definition Manifests :: "ext \<Rightarrow> (descriptor \<Rightarrow> reader res) \<Rightarrow> descriptor \<Rightarrow> descriptor list res" where
  "Manifests P fetcher desc =
     (if MediaType desc \<in> {docker_MediaTypeManifestList, oci_MediaTypeImageIndex} then
        (case FetchAll P fetcher desc of
           Inl e \<Rightarrow> Inl e
         | Inr content \<Rightarrow> (case un_index P content of
             None \<Rightarrow> Inl ErrDecode
           | Some index \<Rightarrow> Inr (i_Manifests index)))
      else Inr [])"

definition Subject :: "ext \<Rightarrow> (descriptor \<Rightarrow> reader res) \<Rightarrow> descriptor \<Rightarrow> descriptor option res" where
  "Subject P fetcher desc =
     (if MediaType desc \<in> {oci_MediaTypeImageManifest, oci_MediaTypeImageIndex,
          spec_MediaTypeArtifactManifest} then
        (case FetchAll P fetcher desc of
           Inl e \<Rightarrow> Inl e
         | Inr content \<Rightarrow> (case un_subject P content of
             None \<Rightarrow> Inl ErrDecode
           | Some subject \<Rightarrow> Inr subject))
      else Inr None)"

section \<open>Selection by platform\<close>

definition isSubset :: "string list \<Rightarrow> string list \<Rightarrow> bool" where
  "isSubset a b =
     (let s = foldl (\<lambda>s v. s(v \<mapsto> True)) Map.empty b
      in list_all (\<lambda>v. s v \<noteq> None) a)"

definition Match :: "platform option \<Rightarrow> platform option \<Rightarrow> bool" where
  "Match got want = (case (got, want) of
     (None, None) \<Rightarrow> True
   | (Some g, Some w) \<Rightarrow>
       if Architecture g \<noteq> Architecture w \<or> OS g \<noteq> OS w then False
       else if OSVersion w \<noteq> [] \<and> OSVersion g \<noteq> OSVersion w then False
       else if Variant w \<noteq> [] \<and> Variant g \<noteq> Variant w then False
       else if length (OSFeatures w) \<noteq> 0 \<and> \<not> isSubset (OSFeatures w) (OSFeatures g) then False
       else True
   | _ \<Rightarrow> False)"

definition zero_platform :: platform where
  "zero_platform = \<lparr>Architecture = [], OS = [], OSVersion = [], OSFeatures = [], Variant = []\<rparr>"

text \<open>The config is decoded from the stream as it comes: neither its size nor its digest is checked.\<close>

definition getPlatformFromConfig :: "ext \<Rightarrow> (descriptor \<Rightarrow> reader res) \<Rightarrow> descriptor \<Rightarrow> string \<Rightarrow>
    platform option res" where
  "getPlatformFromConfig P src desc targetConfigMediaType =
     (if MediaType desc \<noteq> targetConfigMediaType then Inl (ErrOther ''unknown config'')
      else case src desc of
        Inl e \<Rightarrow> Inl e
      | Inr rc \<Rightarrow> (case un_platform P (rd_stream rc) of
          Inl e \<Rightarrow> if e = EOF then Inr (Some zero_platform) else Inl e
        | Inr platform \<Rightarrow> Inr (Some platform)))"

definition SelectManifest :: "ext \<Rightarrow> (descriptor \<Rightarrow> reader res) \<Rightarrow> descriptor \<Rightarrow> platform option \<Rightarrow>
    descriptor res" where
  "SelectManifest P src root p =
     (if MediaType root \<in> {docker_MediaTypeManifestList, oci_MediaTypeImageIndex} then
        (case Manifests P src root of
           Inl e \<Rightarrow> Inl e
         | Inr manifests \<Rightarrow> (case find (\<lambda>m. Match (Platform m) p) manifests of
             Some m \<Rightarrow> Inr m
           | None \<Rightarrow> Inl ErrNotFound))
      else if MediaType root \<in> {docker_MediaTypeManifest, oci_MediaTypeImageManifest} then
        (case Config P src root of
           Inl e \<Rightarrow> Inl e
         | Inr None \<Rightarrow> Inl Panic
         | Inr (Some config) \<Rightarrow>
             (let configMediaType =
                (if MediaType root = oci_MediaTypeImageManifest then oci_MediaTypeImageConfig
                 else docker_MediaTypeConfig)
              in case getPlatformFromConfig P src config configMediaType of
                   Inl e \<Rightarrow> Inl e
                 | Inr cfgPlatform \<Rightarrow>
                     if Match cfgPlatform p then Inr root else Inl ErrNotFound))
      else Inl ErrUnsupported)"

section \<open>Selection by subject\<close>

text \<open>
  One iteration of the loop of \<^verbatim>\<open>Referrers\<close>: the predecessor with its artifact type and
  annotations filled in, or \<open>None\<close> where the code continues with the next one.
\<close>

definition referrer_of :: "ext \<Rightarrow> (descriptor \<Rightarrow> reader res) \<Rightarrow> descriptor \<Rightarrow> descriptor \<Rightarrow>
    descriptor option res" where
  "referrer_of P fetch desc node =
     (let keep = (\<lambda>subject at an. Inr
        (if subject = None \<or> \<not> Equal (the subject) desc then None
         else Some (node\<lparr>ArtifactType := at, Annotations := an\<rparr>)))
      in
      if MediaType node = oci_MediaTypeImageManifest then
        (case FetchAll P fetch node of
           Inl e \<Rightarrow> Inl e
         | Inr fetched \<Rightarrow> (case un_manifest P fetched of
             None \<Rightarrow> Inl ErrDecode
           | Some manifest \<Rightarrow>
               keep (m_Subject manifest)
                 (if m_ArtifactType manifest = [] then MediaType (m_Config manifest)
                  else m_ArtifactType manifest)
                 (m_Annotations manifest)))
      else if MediaType node = oci_MediaTypeImageIndex then
        (case FetchAll P fetch node of
           Inl e \<Rightarrow> Inl e
         | Inr fetched \<Rightarrow> (case un_index P fetched of
             None \<Rightarrow> Inl ErrDecode
           | Some index \<Rightarrow> keep (i_Subject index) (i_ArtifactType index) (i_Annotations index)))
      else if MediaType node = spec_MediaTypeArtifactManifest then
        (case FetchAll P fetch node of
           Inl e \<Rightarrow> Inl e
         | Inr fetched \<Rightarrow> (case un_artifact P fetched of
             None \<Rightarrow> Inl ErrDecode
           | Some artifact \<Rightarrow>
               keep (a_Subject artifact) (a_ArtifactType artifact) (a_Annotations artifact)))
      else Inr None)"

fun referrers_loop :: "ext \<Rightarrow> (descriptor \<Rightarrow> reader res) \<Rightarrow> descriptor \<Rightarrow> string \<Rightarrow>
    descriptor list \<Rightarrow> descriptor list \<Rightarrow> descriptor list res" where
  "referrers_loop P fetch desc artifactType results [] = Inr results"
| "referrers_loop P fetch desc artifactType results (node # rest) =
     (case referrer_of P fetch desc node of
        Inl e \<Rightarrow> Inl e
      | Inr None \<Rightarrow> referrers_loop P fetch desc artifactType results rest
      | Inr (Some node') \<Rightarrow>
          referrers_loop P fetch desc artifactType
            (if artifactType = [] \<or> artifactType = ArtifactType node' then results @ [node']
             else results) rest)"

text \<open>
  \<open>rf\<close> is the \<^verbatim>\<open>Referrers\<close> method of a store that has one: the pages it hands to its
  callback, or the error it returns.
\<close>

definition Referrers :: "ext \<Rightarrow> (descriptor \<Rightarrow> string \<Rightarrow> descriptor list list res) option \<Rightarrow>
    (descriptor \<Rightarrow> reader res) \<Rightarrow> (descriptor \<Rightarrow> descriptor list res) \<Rightarrow>
    descriptor \<Rightarrow> string \<Rightarrow> descriptor list res" where
  "Referrers P rf fetch predecessors desc artifactType =
     (if \<not> IsManifest desc then Inl ErrUnsupported
      else case rf of
        Some rf \<Rightarrow> (case rf desc artifactType of Inl e \<Rightarrow> Inl e | Inr pages \<Rightarrow> Inr (concat pages))
      | None \<Rightarrow> (case predecessors desc of
          Inl e \<Rightarrow> Inl e
        | Inr nodes \<Rightarrow> referrers_loop P fetch desc artifactType [] nodes))"

section \<open>Properties of the manifest functions\<close>

text \<open>
  Decoding a manifest into a struct that has only the field \<^verbatim>\<open>subject\<close> succeeds when
  decoding it into the full struct does, with the same subject: \<^verbatim>\<open>encoding/json\<close> decodes
  the fields of a struct independently.
\<close>

definition json_subject_ok :: "ext \<Rightarrow> bool" where
  "json_subject_ok P \<longleftrightarrow>
     (\<forall>b m. un_manifest P b = Some m \<longrightarrow> un_subject P b = Some (m_Subject m)) \<and>
     (\<forall>b i. un_index P b = Some i \<longrightarrow> un_subject P b = Some (i_Subject i)) \<and>
     (\<forall>b a. un_artifact P b = Some a \<longrightarrow> un_subject P b = Some (a_Subject a))"

lemma json_subject_okD:
  assumes "json_subject_ok P"
  shows "un_manifest P b = Some m \<Longrightarrow> un_subject P b = Some (m_Subject m)"
    and "un_index P b = Some i \<Longrightarrow> un_subject P b = Some (i_Subject i)"
    and "un_artifact P b = Some a \<Longrightarrow> un_subject P b = Some (a_Subject a)"
  using assms by (simp_all add: json_subject_ok_def)

lemmas manifest_case_defs =
  Successors_def decode_successors_def Config_def Manifests_def Subject_def

lemma Successors_eq:
  "Successors P fetcher node =
     (if IsManifest node
      then (case FetchAll P fetcher node of
              Inl e \<Rightarrow> Inl e | Inr content \<Rightarrow> decode_successors P node content)
      else Inr [])"
  by (auto simp: Successors_def IsManifest_def)

lemma decode_successors_leaf: "\<not> IsManifest node \<Longrightarrow> decode_successors P node b = Inr []"
  by (auto simp: decode_successors_def IsManifest_def)

lemma decode_successors_cong: "MediaType a = MediaType b \<Longrightarrow> decode_successors P a = decode_successors P b"
  by (simp add: decode_successors_def fun_eq_iff)

lemma Successors_cong:
  "\<lbrakk>MediaType a = MediaType b; FetchAll P f a = FetchAll P g b\<rbrakk> \<Longrightarrow> Successors P f a = Successors P g b"
  using decode_successors_cong [of a b P] IsManifest_cong [of a b]
  by (simp add: Successors_eq split: sum.splits)

lemma opt_list_set [simp]: "set (opt_list x) = set_option x"
  by (cases x) (auto simp: opt_list_def)

lemma Subject_in_Successors:
  assumes "json_subject_ok P" "Successors P fetcher node = Inr ss"
    "Subject P fetcher node = Inr (Some s)"
  shows "s \<in> set ss"
  using assms
  by (auto simp: manifest_case_defs json_subject_ok_def media_type_defs
      split: if_splits sum.splits option.splits)

lemma Config_in_Successors:
  "\<lbrakk>Successors P fetcher node = Inr ss; Config P fetcher node = Inr (Some c)\<rbrakk> \<Longrightarrow> c \<in> set ss"
  by (auto simp: manifest_case_defs split: if_splits sum.splits option.splits)

lemma Manifests_in_Successors:
  "\<lbrakk>Successors P fetcher node = Inr ss; Manifests P fetcher node = Inr ms\<rbrakk> \<Longrightarrow> set ms \<subseteq> set ss"
  by (auto simp: manifest_case_defs media_type_defs split: if_splits sum.splits option.splits)

lemma isSubset_iff: "isSubset a b \<longleftrightarrow> set a \<subseteq> set b"
proof -
  have "foldl (\<lambda>s v. s(v \<mapsto> True)) m b v \<noteq> None \<longleftrightarrow> v \<in> set b \<or> m v \<noteq> None" for m :: "string \<rightharpoonup> bool" and v
    by (induction b arbitrary: m) auto
  then show ?thesis by (auto simp: isSubset_def Let_def list_all_iff)
qed

lemma Match_Some:
  "Match (Some g) (Some w) \<longleftrightarrow>
     Architecture g = Architecture w \<and> OS g = OS w \<and> (OSVersion w \<noteq> [] \<longrightarrow> OSVersion g = OSVersion w)
     \<and> (Variant w \<noteq> [] \<longrightarrow> Variant g = Variant w) \<and> set (OSFeatures w) \<subseteq> set (OSFeatures g)"
  by (auto simp: Match_def isSubset_iff)

lemma Subject_media:
  "\<lbrakk>Subject P fetch node = Inr (Some s)\<rbrakk> \<Longrightarrow> MediaType node \<in>
     {oci_MediaTypeImageManifest, oci_MediaTypeImageIndex, spec_MediaTypeArtifactManifest}"
  by (auto simp: Subject_def split: if_splits)

lemma referrer_of_Subject:
  assumes "json_subject_ok P" "referrer_of P fetch desc node = Inr x"
  shows "map_option FromOCI x =
     (if \<exists>s. Subject P fetch node = Inr (Some s) \<and> Equal s desc then Some (FromOCI node) else None)"
proof -
  note D = json_subject_okD [OF assms(1)]
  consider "MediaType node = oci_MediaTypeImageManifest" | "MediaType node = oci_MediaTypeImageIndex"
    | "MediaType node = spec_MediaTypeArtifactManifest"
    | "MediaType node \<notin> {oci_MediaTypeImageManifest, oci_MediaTypeImageIndex, spec_MediaTypeArtifactManifest}"
    by blast
  then show ?thesis
  proof cases
    case 1
    with assms(2) show ?thesis
      by (auto simp: referrer_of_def Subject_def Let_def FromOCI_def dest: D(1)
          split: if_splits sum.splits option.splits)
  next
    case 2
    with assms(2) show ?thesis
      by (auto simp: referrer_of_def Subject_def Let_def FromOCI_def media_type_defs dest: D(2)
          split: if_splits sum.splits option.splits)
  next
    case 3
    with assms(2) show ?thesis
      by (auto simp: referrer_of_def Subject_def Let_def FromOCI_def media_type_defs dest: D(3)
          split: if_splits sum.splits option.splits)
  next
    case 4
    with assms(2) show ?thesis by (auto simp: referrer_of_def Subject_def)
  qed
qed

lemma referrers_loop_step:
  "referrers_loop P fetch desc at acc nodes =
     map_sum id (\<lambda>rs. acc @ rs) (referrers_loop P fetch desc at [] nodes)"
proof (induction nodes arbitrary: acc)
  case (Cons n ns)
  show ?case
  proof (cases "referrer_of P fetch desc n")
    case (Inr x)
    show ?thesis
    proof (cases x)
      case None
      with Inr Cons [of acc] show ?thesis by simp
    next
      case (Some r)
      with Inr Cons [of "acc @ [r]"] Cons [of acc] Cons [of "[r]"] show ?thesis
        by (simp add: sum.map_comp comp_def)
    qed
  qed simp
qed simp

lemma referrers_loop_Cons:
  "referrers_loop P fetch desc at [] (n # ns) =
     (case referrer_of P fetch desc n of
        Inl e \<Rightarrow> Inl e
      | Inr x \<Rightarrow> map_sum id (\<lambda>rs. filter (\<lambda>r. at = [] \<or> at = ArtifactType r) (opt_list x) @ rs)
          (referrers_loop P fetch desc at [] ns))"
proof (cases "referrer_of P fetch desc n")
  case (Inr x)
  then show ?thesis
    using referrers_loop_step [of P fetch desc at "[the x]" ns]
    by (cases x; cases "referrers_loop P fetch desc at [] ns") (auto simp: opt_list_def)
qed simp

lemma referrer_of_FromOCI: "referrer_of P fetch desc n = Inr (Some r) \<Longrightarrow> FromOCI r = FromOCI n"
  by (auto simp: referrer_of_def Let_def split: if_splits sum.splits option.splits)

lemma Referrers_FromOCI:
  assumes "Referrers P None fetch preds desc at = Inr rs" "preds desc = Inr nodes"
  shows "FromOCI ` set rs \<subseteq> FromOCI ` set nodes"
proof -
  have "FromOCI ` set rs \<subseteq> FromOCI ` set ns" if "referrers_loop P fetch desc at [] ns = Inr rs" for ns rs
    using that
  proof (induction ns arbitrary: rs)
    case (Cons n ns)
    from Cons.prems obtain x rs' where x: "referrer_of P fetch desc n = Inr x"
      "referrers_loop P fetch desc at [] ns = Inr rs'"
      "rs = filter (\<lambda>r. at = [] \<or> at = ArtifactType r) (opt_list x) @ rs'"
      unfolding referrers_loop_Cons
      by (cases "referrer_of P fetch desc n"; cases "referrers_loop P fetch desc at [] ns") auto
    with Cons.IH [OF x(2)] referrer_of_FromOCI [of P fetch desc n] show ?case by auto
  qed simp
  with assms show ?thesis by (auto simp: Referrers_def split: if_splits)
qed

lemma referrers_loop_filter:
  "referrers_loop P fetch desc [] [] nodes = Inr rs \<Longrightarrow>
   referrers_loop P fetch desc at [] nodes = Inr (filter (\<lambda>r. at = [] \<or> at = ArtifactType r) rs)"
proof (induction nodes arbitrary: rs)
  case (Cons n ns)
  then obtain x rs' where "referrer_of P fetch desc n = Inr x"
    "referrers_loop P fetch desc [] [] ns = Inr rs'" "rs = opt_list x @ rs'"
    by (cases "referrers_loop P fetch desc [] [] ns")
      (auto simp: referrers_loop_Cons simp del: referrers_loop.simps split: sum.splits)
  with Cons.IH show ?case by (simp add: referrers_loop_Cons del: referrers_loop.simps)
qed simp

lemma referrers_loop_subjects:
  "\<lbrakk>json_subject_ok P; referrers_loop P fetch desc [] [] nodes = Inr rs\<rbrakk> \<Longrightarrow>
   map FromOCI rs = map FromOCI
     (filter (\<lambda>n. \<exists>s. Subject P fetch n = Inr (Some s) \<and> Equal s desc) nodes)"
proof (induction nodes arbitrary: rs)
  case (Cons n ns)
  from Cons.prems(2) obtain x where x: "referrer_of P fetch desc n = Inr x"
    by (auto split: sum.splits)
  note ref = referrer_of_Subject [OF Cons.prems(1) x]
  from Cons.prems(2) x
  obtain rs' where rs': "referrers_loop P fetch desc [] [] ns = Inr rs'" "rs = opt_list x @ rs'"
    by (cases "referrers_loop P fetch desc [] [] ns")
      (auto simp: referrers_loop_Cons simp del: referrers_loop.simps)
  from Cons.IH [OF Cons.prems(1) rs'(1)] ref rs'(2) show ?case
    by (cases x) (auto simp: opt_list_def split: if_splits)
qed simp

section \<open>Consistent descriptors\<close>

text \<open>
  No two contents have the same digest. This is what the library assumes of a cryptographic
  digest; it is needed where content may be deleted and pushed again.
\<close>

definition collision_free :: "ext \<Rightarrow> bool" where
  "collision_free P \<longleftrightarrow> (\<forall>dg b b'. dg_verify P dg b \<and> dg_verify P dg b' \<longrightarrow> b = b')"

text \<open>
  Storages may look up content by digest alone. Many properties are about descriptors that
  describe a digest always by the same media type and size, given by \<open>ty\<close>, also in the
  manifests that are read.
\<close>

definition consistent :: "ext \<Rightarrow> (string \<Rightarrow> key) \<Rightarrow> bool" where
  "consistent P ty \<longleftrightarrow> collision_free P \<and> digest_laws P \<and>
     (\<forall>d b ss s. dg_verify P (Digest d) b \<and> decode_successors P d b = Inr ss \<and> s \<in> set ss \<longrightarrow>
        FromOCI s = ty (Digest s))"

section \<open>A concrete graph\<close>

text \<open>
  An instance of the parameters for the witnesses: an image manifest with the content \<open>M\<close>,
  a config and a layer, and a manifest \<open>R\<close> whose subject is \<open>M\<close>.
\<close>

definition demo_config :: descriptor where
  "demo_config = plain_desc oci_MediaTypeImageConfig ''sha256:c'' 1"

definition demo_layer :: descriptor where
  "demo_layer = plain_desc ''application/layer'' ''sha256:l'' 1"

definition demo_manifest :: descriptor where
  "demo_manifest = plain_desc oci_MediaTypeImageManifest ''sha256:M'' 1"

definition demo_referrer :: descriptor where
  "demo_referrer = plain_desc oci_MediaTypeImageManifest ''sha256:R'' 1"

definition demo_decode :: "bytes \<Rightarrow> manifest option" where
  "demo_decode b =
     (if b = ''M'' then Some \<lparr>m_MediaType = oci_MediaTypeImageManifest, m_ArtifactType = [],
        m_Config = demo_config, m_Layers = [demo_layer], m_Subject = None, m_Annotations = None\<rparr>
      else if b = ''R'' then Some \<lparr>m_MediaType = oci_MediaTypeImageManifest,
        m_ArtifactType = ''sbom'', m_Config = demo_config, m_Layers = [],
        m_Subject = Some demo_manifest, m_Annotations = None\<rparr>
      else None)"

definition demo_graph_ext :: ext where
  "demo_graph_ext = demo_ext\<lparr>un_manifest := demo_decode,
     un_subject := (\<lambda>b. map_option m_Subject (demo_decode b))\<rparr>"

definition demo_fetch :: "descriptor \<Rightarrow> reader res" where
  "demo_fetch d = Inr (bytes_reader (drop 7 (Digest d)))"

lemmas demo_nodes = demo_config_def demo_layer_def demo_manifest_def demo_referrer_def

lemma demo_json [simp]: "json_subject_ok demo_graph_ext"
  by (simp add: json_subject_ok_def demo_graph_ext_def demo_ext_def)

lemma demo_FetchAll [simp]:
  "FetchAll demo_graph_ext demo_fetch demo_manifest = Inr ''M''"
  "FetchAll demo_graph_ext demo_fetch demo_referrer = Inr ''R''"
  by (simp_all add: FetchAll_def demo_fetch_def ReadAll_Inr demo_nodes demo_graph_ext_def demo_ext_def)

lemma demo_Successors [simp]:
  "Successors demo_graph_ext demo_fetch demo_manifest = Inr [demo_config, demo_layer]"
  "Successors demo_graph_ext demo_fetch demo_referrer = Inr [demo_manifest, demo_config]"
  by (simp_all add: Successors_def decode_successors_def)
    (simp_all add: demo_nodes demo_graph_ext_def demo_decode_def media_type_defs opt_list_def)

lemma demo_Subject [simp]:
  "Subject demo_graph_ext demo_fetch demo_referrer = Inr (Some demo_manifest)"
  by (simp add: Subject_def) (simp add: demo_referrer_def demo_graph_ext_def demo_decode_def media_type_defs)

definition demo_ty :: "string \<Rightarrow> key" where
  "demo_ty dg = (if dg = ''sha256:c'' then FromOCI demo_config else if dg = ''sha256:l'' then FromOCI demo_layer
     else if dg = ''sha256:M'' then FromOCI demo_manifest else FromOCI demo_referrer)"

lemma demo_ty [simp]:
  "demo_ty (Digest demo_config) = FromOCI demo_config" "demo_ty (Digest demo_layer) = FromOCI demo_layer"
  "demo_ty (Digest demo_manifest) = FromOCI demo_manifest" "demo_ty (Digest demo_referrer) = FromOCI demo_referrer"
  by (simp_all add: demo_ty_def demo_nodes)

lemma demo_consistent: "consistent demo_graph_ext demo_ty"
proof -
  have "FromOCI s = demo_ty (Digest s)"
    if "decode_successors demo_graph_ext d b = Inr ss" "s \<in> set ss" for d b ss s
  proof -
    from that have "s \<in> {demo_config, demo_layer, demo_manifest}"
      by (auto simp: decode_successors_def demo_graph_ext_def demo_ext_def demo_decode_def opt_list_def
          split: if_splits option.splits)
    then show ?thesis by auto
  qed
  moreover have "digest_laws demo_graph_ext"
  proof -
    have "CHR '':'' \<in> set d" if "take 7 d = ''sha256:''" for d :: string
      using in_set_takeD [of "CHR '':''" 7 d] that by simp
    then show ?thesis by (simp add: digest_laws_def demo_graph_ext_def demo_ext_def)
  qed
  moreover have "collision_free demo_graph_ext" by (simp add: collision_free_def demo_graph_ext_def demo_ext_def)
  ultimately show ?thesis unfolding consistent_def by blast
qed

section \<open>What the functions promise\<close>

text \<open>
  The parts of a manifest that the parser functions return are successors of it: the
  subject, the config and every manifest of an index are among the nodes that
  \<^verbatim>\<open>Successors\<close> returns for the same manifest.
\<close>

lemma manifest_parts_are_successors:
  assumes "json_subject_ok P" "Successors P fetcher node = Inr ss"
  shows "(\<forall>s. Subject P fetcher node = Inr (Some s) \<longrightarrow> s \<in> set ss) \<and>
    (\<forall>c. Config P fetcher node = Inr (Some c) \<longrightarrow> c \<in> set ss) \<and>
    (\<forall>ms. Manifests P fetcher node = Inr ms \<longrightarrow> set ms \<subseteq> set ss)"
  using Subject_in_Successors [OF assms] Config_in_Successors [OF assms(2)]
    Manifests_in_Successors [OF assms(2)] by blast

lemma manifest_parts_are_successors_witness:
  "\<exists>ss. Successors demo_graph_ext demo_fetch demo_referrer = Inr ss \<and> demo_manifest \<in> set ss"
  using manifest_parts_are_successors [OF demo_json demo_Successors(2)] demo_Subject demo_Successors(2)
  by blast

text \<open>
  The match of platforms is reflexive and transitive: a platform satisfies itself as a
  requirement, and a platform that satisfies a requirement also satisfies every weaker one.
\<close>

lemma Match_preorder:
  "Match a a \<and> (Match a b \<and> Match b c \<longrightarrow> Match a c)"
  by (cases a; cases b; cases c) (simp_all add: Match_Some, auto simp: Match_def)

lemma Match_preorder_witness:
  "Match (Some (zero_platform\<lparr>OS := ''linux'', Variant := ''v8''\<rparr>)) (Some (zero_platform\<lparr>OS := ''linux''\<rparr>))"
  using Match_preorder [of "Some (zero_platform\<lparr>OS := ''linux'', Variant := ''v8''\<rparr>)"
      "Some (zero_platform\<lparr>OS := ''linux'', Variant := ''v8''\<rparr>)" "Some (zero_platform\<lparr>OS := ''linux''\<rparr>)"]
  by (simp add: Match_Some zero_platform_def)


text \<open>
  C26. For a store without a referrers API, \<^verbatim>\<open>Referrers\<close> lists exactly the predecessors
  whose subject is the given manifest, in the order of the predecessors, and asking for an
  artifact type returns exactly the entries of the full list that have that type.
\<close>

theorem Referrers_exact:
  assumes "json_subject_ok P" "predecessors desc = Inr nodes"
    and "Referrers P None fetch predecessors desc [] = Inr rs"
  shows "map FromOCI rs = map FromOCI
      (filter (\<lambda>n. \<exists>s. Subject P fetch n = Inr (Some s) \<and> Equal s desc) nodes)
    \<and> Referrers P None fetch predecessors desc at
      = Inr (filter (\<lambda>r. at = [] \<or> at = ArtifactType r) rs)"
proof -
  from assms have loop: "referrers_loop P fetch desc [] [] nodes = Inr rs" and "IsManifest desc"
    by (auto simp: Referrers_def split: if_splits)
  with assms(2) referrers_loop_filter [OF loop, of at] have
    "Referrers P None fetch predecessors desc at = Inr (filter (\<lambda>r. at = [] \<or> at = ArtifactType r) rs)"
    by (simp add: Referrers_def)
  with referrers_loop_subjects [OF assms(1) loop] show ?thesis by blast
qed

theorem Referrers_exact_witness:
  "Referrers demo_graph_ext None demo_fetch (\<lambda>_. Inr [demo_referrer]) demo_manifest ''sbom''
     = Inr [demo_referrer\<lparr>ArtifactType := ''sbom'', Annotations := None\<rparr>]"
proof -
  have "IsManifest demo_manifest" by (simp add: IsManifest_def demo_manifest_def)
  then have "Referrers demo_graph_ext None demo_fetch (\<lambda>_. Inr [demo_referrer]) demo_manifest []
     = Inr [demo_referrer\<lparr>ArtifactType := ''sbom'', Annotations := None\<rparr>]"
    by (simp add: Referrers_def referrer_of_def)
      (simp add: demo_nodes demo_graph_ext_def demo_decode_def Equal_def)
  from Referrers_exact [OF demo_json refl this, of "''sbom''"] show ?thesis by simp
qed

end
