(* ===== verification/Graph_Memory.thy ===== *)
theory Graph_Memory
  imports Content_Graph
begin

text \<open>
  \<^verbatim>\<open>internal/graph/memory.go\<close>: the index of predecessors that the memory store, the OCI
  store and the file store keep. It has the nodes, and for each key the set of its
  predecessors and of its successors.

  \<open>g_ok\<close> is the invariant that the comments of the struct describe: the two edge maps are
  inverse to each other, every key with a successor set is a node, and no predecessor set is
  empty. \<open>abs_graph\<close> maps a state to an abstract directed graph, and every operation is
  shown to implement an operation on that graph.

  \<^verbatim>\<open>IndexAll\<close> starts a goroutine per successor. It is a step relation: a state has the
  descriptors whose goroutine has not run yet, the commits of the tracker and the index, and
  a step runs any one of them.
\<close>

record graph =
  g_nodes :: "(key, descriptor) gomap"
  g_preds :: "key \<rightharpoonup> key goset"
  g_succs :: "key \<rightharpoonup> key goset"

definition graph_NewMemory :: graph where
  "graph_NewMemory = \<lparr>g_nodes = [], g_preds = Map.empty, g_succs = Map.empty\<rparr>"

text \<open>Reading a set of the maps: the nil set for a missing key.\<close>

definition gset :: "(key \<rightharpoonup> key goset) \<Rightarrow> key \<Rightarrow> key goset" where
  "gset m k = (case m k of None \<Rightarrow> [] | Some s \<Rightarrow> s)"

section \<open>Operations\<close>

text \<open>The body of the loop of \<^verbatim>\<open>index\<close>, and the part of \<^verbatim>\<open>index\<close> under the lock.\<close>

definition graph_add_edge :: "key \<Rightarrow> graph \<Rightarrow> descriptor \<Rightarrow> graph" where
  "graph_add_edge nodeKey g successor =
     (let successorKey = FromOCI successor
      in g\<lparr>g_succs := (g_succs g)(nodeKey \<mapsto> List.insert successorKey (gset (g_succs g) nodeKey)),
           g_preds := (g_preds g)(successorKey \<mapsto> List.insert nodeKey (gset (g_preds g) successorKey))\<rparr>)"

definition graph_add :: "graph \<Rightarrow> descriptor \<Rightarrow> descriptor list \<Rightarrow> graph" where
  "graph_add g node successors =
     (let nodeKey = FromOCI node;
          g = g\<lparr>g_nodes := gm_put nodeKey node (g_nodes g), g_succs := (g_succs g)(nodeKey \<mapsto> [])\<rparr>
      in foldl (graph_add_edge nodeKey) g successors)"

definition graph_index :: "ext \<Rightarrow> (descriptor \<Rightarrow> reader res) \<Rightarrow> graph \<Rightarrow> descriptor \<Rightarrow>
    descriptor list res \<times> graph" where
  "graph_index P fetcher g node = (case Successors P fetcher node of
     Inl e \<Rightarrow> (Inl e, g)
   | Inr successors \<Rightarrow> (Inr successors, graph_add g node successors))"

definition graph_Index :: "ext \<Rightarrow> (descriptor \<Rightarrow> reader res) \<Rightarrow> graph \<Rightarrow> descriptor \<Rightarrow> unit res \<times> graph" where
  "graph_Index P fetcher g node = (case graph_index P fetcher g node of
     (Inl e, g') \<Rightarrow> (Inl e, g')
   | (Inr _, g') \<Rightarrow> (Inr (), g'))"

definition graph_node :: "graph \<Rightarrow> key \<Rightarrow> descriptor" where
  "graph_node g k = (case gm_get (g_nodes g) k of None \<Rightarrow> empty_descriptor | Some d \<Rightarrow> d)"

definition graph_Predecessors :: "graph \<Rightarrow> order \<Rightarrow> descriptor \<Rightarrow> descriptor list" where
  "graph_Predecessors g ord node = (case g_preds g (FromOCI node) of
     None \<Rightarrow> []
   | Some s \<Rightarrow> map (graph_node g) (range_list ord s))"

definition graph_remove_edge :: "key \<Rightarrow> graph \<times> descriptor list \<Rightarrow> key \<Rightarrow> graph \<times> descriptor list" where
  "graph_remove_edge nodeKey st successorKey =
     (let (g, danglings) = st;
          entry = removeAll nodeKey (gset (g_preds g) successorKey)
      in if entry = []
         then (g\<lparr>g_preds := (g_preds g)(successorKey := None)\<rparr>,
               (case gm_get (g_nodes g) successorKey of
                  None \<Rightarrow> danglings
                | Some d \<Rightarrow> danglings @ [d]))
         else (g\<lparr>g_preds := (g_preds g)(successorKey \<mapsto> entry)\<rparr>, danglings))"

definition graph_Remove :: "graph \<Rightarrow> order \<Rightarrow> descriptor \<Rightarrow> descriptor list \<times> graph" where
  "graph_Remove g ord node =
     (let nodeKey = FromOCI node;
          (g, danglings) = foldl (graph_remove_edge nodeKey) (g, [])
             (range_list ord (gset (g_succs g) nodeKey))
      in (danglings, g\<lparr>g_succs := (g_succs g)(nodeKey := None), g_nodes := gm_del nodeKey (g_nodes g)\<rparr>))"

definition graph_DigestSet :: "graph \<Rightarrow> string goset" where
  "graph_DigestSet g = foldl (\<lambda>s (k, _). List.insert (key_digest k) s) [] (g_nodes g)"

definition graph_Exists :: "graph \<Rightarrow> descriptor \<Rightarrow> bool" where
  "graph_Exists g node \<longleftrightarrow> gm_get (g_nodes g) (FromOCI node) \<noteq> None"

section \<open>The invariant\<close>

definition g_ok :: "graph \<Rightarrow> bool" where
  "g_ok g \<longleftrightarrow> gm_ok (g_nodes g)
     \<and> (\<forall>k d. gm_get (g_nodes g) k = Some d \<longrightarrow> FromOCI d = k)
     \<and> (\<forall>k. g_succs g k \<noteq> None \<longleftrightarrow> gm_get (g_nodes g) k \<noteq> None)
     \<and> (\<forall>k. g_preds g k \<noteq> Some [])
     \<and> (\<forall>k. distinct (gset (g_preds g) k) \<and> distinct (gset (g_succs g) k))
     \<and> (\<forall>n s. s \<in> set (gset (g_succs g) n) \<longleftrightarrow> n \<in> set (gset (g_preds g) s))"

text \<open>The abstract graph.\<close>

record agraph =
  ag_nodes :: "key \<rightharpoonup> descriptor"
  ag_edges :: "(key \<times> key) set"

definition abs_graph :: "graph \<Rightarrow> agraph" where
  "abs_graph g = \<lparr>ag_nodes = gm_get (g_nodes g), ag_edges = {(n, s). s \<in> set (gset (g_succs g) n)}\<rparr>"

definition ag_add :: "agraph \<Rightarrow> descriptor \<Rightarrow> key set \<Rightarrow> agraph" where
  "ag_add a node ss =
     \<lparr>ag_nodes = (ag_nodes a)(FromOCI node \<mapsto> node),
      ag_edges = {(n, s) \<in> ag_edges a. n \<noteq> FromOCI node} \<union> {FromOCI node} \<times> ss\<rparr>"

definition ag_remove :: "agraph \<Rightarrow> descriptor \<Rightarrow> agraph" where
  "ag_remove a node =
     \<lparr>ag_nodes = (ag_nodes a)(FromOCI node := None),
      ag_edges = {(n, s) \<in> ag_edges a. n \<noteq> FromOCI node}\<rparr>"

text \<open>The nodes that only the removed node points to.\<close>

definition ag_danglings :: "agraph \<Rightarrow> descriptor \<Rightarrow> descriptor set" where
  "ag_danglings a node = {d. \<exists>k. ag_nodes a k = Some d \<and> (FromOCI node, k) \<in> ag_edges a
     \<and> (\<forall>n. (n, k) \<in> ag_edges a \<longrightarrow> n = FromOCI node)}"

section \<open>Indexing\<close>

lemma gset_in: "s \<in> set (gset m n) \<Longrightarrow> m n \<noteq> None"
  by (cases "m n") (simp_all add: gset_def)

lemma gset_upd [simp]: "gset (m(k \<mapsto> s)) k' = (if k' = k then s else gset m k')"
  "gset (m(k := None)) k' = (if k' = k then [] else gset m k')"
  by (simp_all add: gset_def)

lemma graph_add_edge_sel:
  "g_nodes (graph_add_edge nk g s) = g_nodes g"
  "g_succs (graph_add_edge nk g s) = (g_succs g)(nk \<mapsto> List.insert (FromOCI s) (gset (g_succs g) nk))"
  "g_preds (graph_add_edge nk g s) =
     (g_preds g)(FromOCI s \<mapsto> List.insert nk (gset (g_preds g) (FromOCI s)))"
  by (simp_all add: graph_add_edge_def Let_def)

lemma add_edges_nodes: "g_nodes (foldl (graph_add_edge nk) g ss) = g_nodes g"
  by (induction ss arbitrary: g) (simp_all add: graph_add_edge_sel)

lemma add_edges_succs:
  "set (gset (g_succs (foldl (graph_add_edge nk) g ss)) k) =
     set (gset (g_succs g) k) \<union> (if k = nk then FromOCI ` set ss else {})"
  by (induction ss arbitrary: g) (simp_all add: graph_add_edge_sel)

lemma add_edges_preds:
  "set (gset (g_preds (foldl (graph_add_edge nk) g ss)) k) =
     set (gset (g_preds g) k) \<union> (if k \<in> FromOCI ` set ss then {nk} else {})"
  by (induction ss arbitrary: g) (auto simp: graph_add_edge_sel split: if_splits)

lemma add_edges_succs_distinct:
  "distinct (gset (g_succs g) k) \<Longrightarrow> distinct (gset (g_succs (foldl (graph_add_edge nk) g ss)) k)"
proof (induction ss arbitrary: g)
  case (Cons s ss)
  from Cons.prems have "distinct (gset (g_succs (graph_add_edge nk g s)) k)"
    by (auto simp: graph_add_edge_sel)
  from Cons.IH [OF this] show ?case by simp
qed simp

lemma add_edges_preds_distinct:
  "distinct (gset (g_preds g) k) \<Longrightarrow> distinct (gset (g_preds (foldl (graph_add_edge nk) g ss)) k)"
proof (induction ss arbitrary: g)
  case (Cons s ss)
  from Cons.prems have "distinct (gset (g_preds (graph_add_edge nk g s)) k)"
    by (auto simp: graph_add_edge_sel)
  from Cons.IH [OF this] show ?case by simp
qed simp

lemma add_edges_preds_nonempty:
  "g_preds g k \<noteq> Some [] \<Longrightarrow> g_preds (foldl (graph_add_edge nk) g ss) k \<noteq> Some []"
proof (induction ss arbitrary: g)
  case (Cons s ss)
  have "List.insert nk xs \<noteq> []" for xs by (simp add: List.insert_def) auto
  with Cons.prems have "g_preds (graph_add_edge nk g s) k \<noteq> Some []"
    by (simp add: graph_add_edge_sel)
  from Cons.IH [OF this] show ?case by simp
qed simp

lemma add_edges_succs_dom:
  "g_succs g nk \<noteq> None \<Longrightarrow>
   g_succs (foldl (graph_add_edge nk) g ss) k \<noteq> None \<longleftrightarrow> g_succs g k \<noteq> None"
  by (induction ss arbitrary: g) (simp_all add: graph_add_edge_sel)

lemmas graph_add_edges = add_edges_nodes add_edges_succs add_edges_preds add_edges_succs_distinct
  add_edges_preds_distinct add_edges_preds_nonempty add_edges_succs_dom

lemma graph_add_sel:
  "g_nodes (graph_add g node ss) = gm_put (FromOCI node) node (g_nodes g)"
  "set (gset (g_succs (graph_add g node ss)) k) =
     (if k = FromOCI node then FromOCI ` set ss else set (gset (g_succs g) k))"
  "set (gset (g_preds (graph_add g node ss)) k) =
     set (gset (g_preds g) k) \<union> (if k \<in> FromOCI ` set ss then {FromOCI node} else {})"
  by (simp_all add: graph_add_def Let_def graph_add_edges)

lemma abs_graph_add:
  "abs_graph (graph_add g node ss) = ag_add (abs_graph g) node (FromOCI ` set ss)"
  by (auto simp: abs_graph_def ag_add_def graph_add_sel split: if_splits)

lemma g_ok_empty [simp]: "g_ok graph_NewMemory"
  by (simp add: g_ok_def graph_NewMemory_def gset_def)

lemma g_ok_add:
  assumes "g_ok g" "set (gset (g_succs g) (FromOCI node)) \<subseteq> FromOCI ` set ss"
  shows "g_ok (graph_add g node ss)"
  unfolding g_ok_def
proof (intro conjI allI)
  let ?nk = "FromOCI node"
  let ?g1 = "g\<lparr>g_nodes := gm_put ?nk node (g_nodes g), g_succs := (g_succs g)(?nk \<mapsto> [])\<rparr>"
  have g': "graph_add g node ss = foldl (graph_add_edge ?nk) ?g1 ss"
    by (simp add: graph_add_def Let_def)
  note ok = assms(1) [unfolded g_ok_def]
  show "gm_ok (g_nodes (graph_add g node ss))" using ok by (simp add: graph_add_sel)
  fix k
  show "gm_get (g_nodes (graph_add g node ss)) k = Some d \<longrightarrow> FromOCI d = k" for d
    using ok by (simp add: graph_add_sel)
  show "(g_succs (graph_add g node ss) k \<noteq> None) = (gm_get (g_nodes (graph_add g node ss)) k \<noteq> None)"
    using ok graph_add_edges(7) [of ?g1 ?nk ss k] by (auto simp: g' graph_add_edges(1))
  show "g_preds (graph_add g node ss) k \<noteq> Some []"
    unfolding g' by (rule graph_add_edges(6)) (use ok in simp)
  show "distinct (gset (g_preds (graph_add g node ss)) k)"
    unfolding g' by (rule graph_add_edges(5)) (use ok in simp)
  show "distinct (gset (g_succs (graph_add g node ss)) k)"
    unfolding g' by (rule graph_add_edges(4)) (use ok in simp)
  show "(s \<in> set (gset (g_succs (graph_add g node ss)) k)) = (k \<in> set (gset (g_preds (graph_add g node ss)) s))"
    for s
    using ok assms(2) unfolding graph_add_sel by (auto split: if_splits)
qed

section \<open>Removing\<close>

text \<open>What the loop of \<^verbatim>\<open>Remove\<close> does to the predecessors, in any order of the successors.\<close>

definition preds_without :: "key \<Rightarrow> key set \<Rightarrow> graph \<Rightarrow> key \<rightharpoonup> key goset" where
  "preds_without nk ks g k =
     (if k \<in> ks then let e = removeAll nk (gset (g_preds g) k) in if e = [] then None else Some e
      else g_preds g k)"

definition left_dangling :: "key \<Rightarrow> graph \<Rightarrow> key \<Rightarrow> descriptor list" where
  "left_dangling nk g k =
     (if removeAll nk (gset (g_preds g) k) = [] then opt_list (gm_get (g_nodes g) k) else [])"

lemma remove_edges:
  "distinct xs \<Longrightarrow> foldl (graph_remove_edge nk) (g, ds) xs =
     (g\<lparr>g_preds := preds_without nk (set xs) g\<rparr>, ds @ concat (map (left_dangling nk g) xs))"
proof (induction xs arbitrary: g ds)
  case Nil
  have "preds_without nk {} g = g_preds g" by (simp add: preds_without_def fun_eq_iff)
  then show ?case by simp
next
  case (Cons x xs)
  define g1 where "g1 = g\<lparr>g_preds := preds_without nk {x} g\<rparr>"
  have step: "graph_remove_edge nk (g, ds) x = (g1, ds @ left_dangling nk g x)"
    by (auto simp: graph_remove_edge_def g1_def preds_without_def left_dangling_def opt_list_def Let_def
        fun_eq_iff split: option.splits)
  have other: "gset (g_preds g1) k = gset (g_preds g) k" if "k \<in> set xs" for k
    using that Cons.prems by (auto simp: g1_def gset_def preds_without_def)
  then have "left_dangling nk g1 k = left_dangling nk g k" if "k \<in> set xs" for k
    using that by (simp add: left_dangling_def g1_def)
  then have "concat (map (left_dangling nk g1) xs) = concat (map (left_dangling nk g) xs)"
    by (metis (mono_tags, lifting) map_eq_conv)
  moreover have "preds_without nk (set xs) g1 = preds_without nk (set (x # xs)) g"
    using other Cons.prems by (auto simp: preds_without_def fun_eq_iff g1_def)
  moreover have "g1\<lparr>g_preds := p\<rparr> = g\<lparr>g_preds := p\<rparr>" for p by (simp add: g1_def)
  moreover have "distinct xs" using Cons.prems by simp
  ultimately show ?case
    unfolding foldl_Cons step Cons.IH [OF \<open>distinct xs\<close>] by simp
qed

lemma graph_Remove_eq:
  assumes "g_ok g" "valid_order ord"
  shows "graph_Remove g ord node =
    (concat (map (left_dangling (FromOCI node) g) (range_list ord (gset (g_succs g) (FromOCI node)))),
     \<lparr>g_nodes = gm_del (FromOCI node) (g_nodes g),
      g_preds = preds_without (FromOCI node) (set (gset (g_succs g) (FromOCI node))) g,
      g_succs = (g_succs g)(FromOCI node := None)\<rparr>)"
proof -
  have "distinct (range_list ord (gset (g_succs g) (FromOCI node)))"
    using assms by (simp add: g_ok_def)
  from remove_edges [OF this] show ?thesis
    using assms(2) by (simp add: graph_Remove_def Let_def)
qed

lemma gset_preds_without:
  "gset (preds_without nk ks g) k =
     (if k \<in> ks then removeAll nk (gset (g_preds g) k) else gset (g_preds g) k)"
  by (simp add: gset_def preds_without_def Let_def split: option.splits)

lemma abs_graph_Remove:
  "\<lbrakk>g_ok g; valid_order ord\<rbrakk> \<Longrightarrow>
   abs_graph (snd (graph_Remove g ord node)) = ag_remove (abs_graph g) node"
  by (auto simp: graph_Remove_eq abs_graph_def ag_remove_def split: if_splits)

lemma g_ok_Remove:
  assumes "g_ok g" "valid_order ord"
  shows "g_ok (snd (graph_Remove g ord node))"
proof -
  note ok = assms(1) [unfolded g_ok_def]
  have "preds_without nk ks g k \<noteq> Some []" for nk ks k
    using ok by (auto simp: preds_without_def Let_def)
  with ok show ?thesis
    by (auto simp: graph_Remove_eq [OF assms] g_ok_def gset_preds_without distinct_removeAll)
qed

lemma graph_Remove_danglings:
  assumes "g_ok g" "valid_order ord"
  shows "set (fst (graph_Remove g ord node)) = ag_danglings (abs_graph g) node"
    and "distinct (map FromOCI (fst (graph_Remove g ord node)))"
proof -
  note ok = assms(1) [unfolded g_ok_def]
  let ?nk = "FromOCI node"
  have ld: "removeAll ?nk (gset (g_preds g) k) = [] \<longleftrightarrow> (\<forall>n. k \<in> set (gset (g_succs g) n) \<longrightarrow> n = ?nk)" for k
    using ok by (auto simp: removeAll_filter_not_eq filter_empty_conv)
  show "set (fst (graph_Remove g ord node)) = ag_danglings (abs_graph g) node"
    using assms(2)
    by (auto simp: graph_Remove_eq [OF assms] ag_danglings_def abs_graph_def left_dangling_def ld
        split: if_splits)
  have keys: "map FromOCI (left_dangling ?nk g k) = [] \<or> map FromOCI (left_dangling ?nk g k) = [k]" for k
    using ok by (auto simp: left_dangling_def opt_list_def split: option.splits)
  have "distinct (map FromOCI (concat (map (left_dangling ?nk g) xs)))
      \<and> set (map FromOCI (concat (map (left_dangling ?nk g) xs))) \<subseteq> set xs" if "distinct xs" for xs
    using that
  proof (induction xs)
    case (Cons x xs)
    with keys [of x] show ?case by (auto simp del: set_concat)
  qed simp
  moreover have "distinct (range_list ord (gset (g_succs g) ?nk))" using ok assms(2) by simp
  ultimately show "distinct (map FromOCI (fst (graph_Remove g ord node)))"
    by (simp add: graph_Remove_eq [OF assms])
qed

section \<open>The interface of a predecessor index\<close>

lemma graph_Predecessors_set:
  assumes "g_ok g" "valid_order ord"
  shows "set (graph_Predecessors g ord node) =
      {d. \<exists>k. gm_get (g_nodes g) k = Some d \<and> FromOCI node \<in> set (gset (g_succs g) k)}"
    and "distinct (map FromOCI (graph_Predecessors g ord node))"
proof -
  note ok = assms(1) [unfolded g_ok_def]
  let ?S = "gset (g_preds g) (FromOCI node)"
  have preds: "graph_Predecessors g ord node = map (graph_node g) (range_list ord ?S)"
    using assms(2) by (auto simp: graph_Predecessors_def gset_def split: option.splits)
  have nodes: "\<exists>d. gm_get (g_nodes g) k = Some d \<and> graph_node g k = d \<and> FromOCI d = k" if "k \<in> set ?S" for k
  proof -
    from that ok have "FromOCI node \<in> set (gset (g_succs g) k)" by blast
    then have "g_succs g k \<noteq> None" by (rule gset_in)
    with ok obtain d where "gm_get (g_nodes g) k = Some d" by auto
    with ok show ?thesis by (auto simp: graph_node_def)
  qed
  show "set (graph_Predecessors g ord node) =
      {d. \<exists>k. gm_get (g_nodes g) k = Some d \<and> FromOCI node \<in> set (gset (g_succs g) k)}"
  proof -
    have "set (graph_Predecessors g ord node) = graph_node g ` set ?S"
      using assms(2) by (simp add: preds)
    also have "\<dots> = {d. \<exists>k\<in>set ?S. gm_get (g_nodes g) k = Some d}"
      using nodes by (auto simp: image_iff)
    also have "\<dots> = {d. \<exists>k. gm_get (g_nodes g) k = Some d \<and> FromOCI node \<in> set (gset (g_succs g) k)}"
      using ok by blast
    finally show ?thesis .
  qed
  have "map FromOCI (graph_Predecessors g ord node) = range_list ord ?S"
    unfolding preds map_map using nodes assms(2) by (intro map_idI) fastforce
  then show "distinct (map FromOCI (graph_Predecessors g ord node))"
    using ok assms(2) by simp
qed

locale pred_index =
  fixes ok :: "'s \<Rightarrow> bool"
    and nodes :: "'s \<Rightarrow> key \<rightharpoonup> descriptor"
    and edges :: "'s \<Rightarrow> (key \<times> key) set"
    and add :: "'s \<Rightarrow> descriptor \<Rightarrow> descriptor list \<Rightarrow> 's"
    and preds :: "'s \<Rightarrow> order \<Rightarrow> descriptor \<Rightarrow> descriptor list"
    and remove :: "'s \<Rightarrow> order \<Rightarrow> descriptor \<Rightarrow> descriptor list \<times> 's"
  assumes nodes_key: "\<lbrakk>ok s; nodes s k = Some d\<rbrakk> \<Longrightarrow> FromOCI d = k"
    and nodes_add: "nodes (add s n ss) = (nodes s)(FromOCI n \<mapsto> n)"
    and edges_add: "edges (add s n ss) = {(a, b) \<in> edges s. a \<noteq> FromOCI n} \<union> {FromOCI n} \<times> FromOCI ` set ss"
    and ok_add: "\<lbrakk>ok s; edges s `` {FromOCI n} \<subseteq> FromOCI ` set ss\<rbrakk> \<Longrightarrow> ok (add s n ss)"
    and set_preds: "\<lbrakk>ok s; valid_order ord\<rbrakk> \<Longrightarrow>
          set (preds s ord d) = {x. \<exists>k. nodes s k = Some x \<and> (k, FromOCI d) \<in> edges s}"
    and nodes_remove: "\<lbrakk>ok s; valid_order ord\<rbrakk> \<Longrightarrow> nodes (snd (remove s ord n)) = (nodes s)(FromOCI n := None)"
    and edges_remove: "\<lbrakk>ok s; valid_order ord\<rbrakk> \<Longrightarrow> edges (snd (remove s ord n)) = {(a, b) \<in> edges s. a \<noteq> FromOCI n}"
    and ok_remove: "\<lbrakk>ok s; valid_order ord\<rbrakk> \<Longrightarrow> ok (snd (remove s ord n))"
    and danglings: "\<lbrakk>ok s; valid_order ord\<rbrakk> \<Longrightarrow> set (fst (remove s ord n)) =
          {d. \<exists>k. nodes s k = Some d \<and> (FromOCI n, k) \<in> edges s \<and> (\<forall>m. (m, k) \<in> edges s \<longrightarrow> m = FromOCI n)}"
begin

text \<open>Adding a node changes the predecessors of a descriptor by that node only.\<close>

lemma preds_after_add:
  assumes "ok s" "edges s `` {FromOCI n} \<subseteq> FromOCI ` set ss" "valid_order ord"
  shows "set (preds (add s n ss) ord d) =
     {x \<in> set (preds s ord d). FromOCI x \<noteq> FromOCI n} \<union> (if FromOCI d \<in> FromOCI ` set ss then {n} else {})"
  using nodes_key [OF assms(1)]
  by (auto simp: set_preds [OF ok_add [OF assms(1,2)] assms(3)] set_preds [OF assms(1,3)]
      nodes_add edges_add split: if_splits)

text \<open>Removing a node removes it from all predecessors, and nothing else.\<close>

lemma preds_after_remove:
  assumes "ok s" "valid_order ord" "valid_order ord'"
  shows "set (preds (snd (remove s ord n)) ord' d) = {x \<in> set (preds s ord' d). FromOCI x \<noteq> FromOCI n}"
  using nodes_key [OF assms(1)]
  by (auto simp: set_preds [OF ok_remove [OF assms(1,2)] assms(3)] set_preds [OF assms(1,3)]
      nodes_remove [OF assms(1,2)] edges_remove [OF assms(1,2)] split: if_splits)

text \<open>The reported dangling nodes are those that lose their last predecessor.\<close>

lemma dangling_iff:
  assumes "ok s" "valid_order ord" "valid_order ord'" "\<And>a b. (a, b) \<in> edges s \<Longrightarrow> nodes s a \<noteq> None"
  shows "d \<in> set (fst (remove s ord n)) \<longleftrightarrow>
    nodes s (FromOCI d) = Some d \<and> preds s ord' d \<noteq> [] \<and> preds (snd (remove s ord n)) ord' d = []"
proof -
  have "set (preds s ord' d) \<noteq> {} \<longleftrightarrow> (\<exists>k. (k, FromOCI d) \<in> edges s)"
    unfolding set_preds [OF assms(1,3)] using assms(4) by blast
  then have P: "preds s ord' d \<noteq> [] \<longleftrightarrow> (\<exists>k. (k, FromOCI d) \<in> edges s)"
    by (simp only: set_empty)
  have "((nodes s)(FromOCI n := None)) k = nodes s k" if "k \<noteq> FromOCI n" for k
    using that by simp
  then have "set (preds (snd (remove s ord n)) ord' d) = {} \<longleftrightarrow>
      (\<forall>k. (k, FromOCI d) \<in> edges s \<longrightarrow> k = FromOCI n)"
    unfolding set_preds [OF ok_remove [OF assms(1,2)] assms(3)] nodes_remove [OF assms(1,2)]
      edges_remove [OF assms(1,2)] using assms(4) by auto
  then have Q: "preds (snd (remove s ord n)) ord' d = [] \<longleftrightarrow>
      (\<forall>k. (k, FromOCI d) \<in> edges s \<longrightarrow> k = FromOCI n)"
    by (simp only: set_empty)
  show ?thesis
    unfolding P Q danglings [OF assms(1,2)] using nodes_key [OF assms(1)] by blast
qed

end

lemma g_edges_nodes: "\<lbrakk>g_ok g; s \<in> set (gset (g_succs g) n)\<rbrakk> \<Longrightarrow> gm_get (g_nodes g) n \<noteq> None"
  using gset_in [of s "g_succs g" n] by (simp add: g_ok_def)

interpretation gmem: pred_index g_ok "\<lambda>g. ag_nodes (abs_graph g)" "\<lambda>g. ag_edges (abs_graph g)"
  graph_add graph_Predecessors graph_Remove
proof (unfold_locales, goal_cases)
  case 1 then show ?case by (simp add: g_ok_def abs_graph_def)
next
  case 2 then show ?case by (simp add: abs_graph_add ag_add_def)
next
  case 3 then show ?case by (simp add: abs_graph_add ag_add_def)
next
  case 4 then show ?case by (intro g_ok_add) (auto simp: abs_graph_def)
next
  case 5 then show ?case by (simp add: graph_Predecessors_set abs_graph_def)
next
  case 6 then show ?case by (simp add: abs_graph_Remove ag_remove_def)
next
  case 7 then show ?case by (simp add: abs_graph_Remove ag_remove_def)
next
  case 8 then show ?case by (rule g_ok_Remove)
next
  case 9 then show ?case by (simp add: graph_Remove_danglings ag_danglings_def)
qed

section \<open>Agreement of the index with the stored content\<close>

text \<open>
  What the storage returns for a descriptor depends on the key of the descriptor only, as in
  every content-addressable storage.
\<close>

definition key_based :: "ext \<Rightarrow> (descriptor \<Rightarrow> reader res) \<Rightarrow> bool" where
  "key_based P fetch \<longleftrightarrow>
     (\<forall>d d'. FromOCI d = FromOCI d' \<longrightarrow> Successors P fetch d = Successors P fetch d')"

lemma key_basedD: "\<lbrakk>key_based P fetch; FromOCI d = FromOCI d'\<rbrakk> \<Longrightarrow> Successors P fetch d = Successors P fetch d'"
  unfolding key_based_def by blast

definition g_agrees :: "ext \<Rightarrow> (descriptor \<Rightarrow> reader res) \<Rightarrow> graph \<Rightarrow> bool" where
  "g_agrees P fetch g \<longleftrightarrow> (\<forall>k d. gm_get (g_nodes g) k = Some d \<longrightarrow>
     (\<exists>ss. Successors P fetch d = Inr ss \<and> set (gset (g_succs g) k) = FromOCI ` set ss))"

definition graph_inv :: "ext \<Rightarrow> (descriptor \<Rightarrow> reader res) \<Rightarrow> graph \<Rightarrow> bool" where
  "graph_inv P fetch g \<longleftrightarrow> g_ok g \<and> g_agrees P fetch g"

lemma graph_inv_empty [simp]: "graph_inv P fetch graph_NewMemory"
  by (simp add: graph_inv_def g_agrees_def) (simp add: graph_NewMemory_def)

lemma graph_inv_node:
  assumes "graph_inv P fetch g" "gm_get (g_nodes g) k = Some d"
  obtains ss where "k = FromOCI d" "Successors P fetch d = Inr ss"
    "set (gset (g_succs g) k) = FromOCI ` set ss"
proof -
  from assms have "k = FromOCI d" by (simp add: graph_inv_def g_ok_def)
  moreover from assms obtain ss where "Successors P fetch d = Inr ss"
    "set (gset (g_succs g) k) = FromOCI ` set ss"
    unfolding graph_inv_def g_agrees_def by blast
  ultimately show thesis by (rule that)
qed

lemma graph_inv_add:
  assumes "key_based P fetch" "graph_inv P fetch g" "Successors P fetch node = Inr ss"
  shows "graph_inv P fetch (graph_add g node ss)"
proof -
  have ok: "g_ok g" and ag: "g_agrees P fetch g" using assms(2) by (auto simp: graph_inv_def)
  have sub: "set (gset (g_succs g) (FromOCI node)) \<subseteq> FromOCI ` set ss"
  proof (cases "gm_get (g_nodes g) (FromOCI node)")
    case None
    with g_edges_nodes [OF ok] show ?thesis by blast
  next
    case (Some d)
    with ok have "FromOCI d = FromOCI node" by (simp add: g_ok_def)
    with assms(1,3) have "Successors P fetch d = Inr ss" unfolding key_based_def by metis
    with Some ag show ?thesis by (fastforce simp: g_agrees_def)
  qed
  have "g_agrees P fetch (graph_add g node ss)"
    using ag assms(3) by (simp add: g_agrees_def graph_add_sel)
  with g_ok_add [OF ok sub] show ?thesis by (simp add: graph_inv_def)
qed

lemma graph_inv_index:
  assumes "key_based P fetch" "graph_inv P fetch g"
  shows "graph_inv P fetch (snd (graph_index P fetch g node))"
  using assms graph_inv_add [OF assms] by (simp add: graph_index_def split: sum.splits)

lemma graph_inv_Remove:
  assumes "graph_inv P fetch g" "valid_order ord"
  shows "graph_inv P fetch (snd (graph_Remove g ord node))"
  using assms g_ok_Remove [of g ord node]
  by (auto simp: graph_inv_def g_agrees_def graph_Remove_eq)

text \<open>A storage that still returns the same manifests keeps the agreement.\<close>

lemma graph_inv_cong:
  assumes "graph_inv P fetch g"
    and "\<And>k d. gm_get (g_nodes g) k = Some d \<Longrightarrow> Successors P fetch' d = Successors P fetch d"
  shows "graph_inv P fetch' g"
  using assms by (auto simp: graph_inv_def g_agrees_def)

section \<open>Indexing a whole graph\<close>

record ia_state =
  ia_pending :: "descriptor list"
  ia_committed :: "key set"
  ia_graph :: graph
  ia_err :: "error option"

definition ia_init :: "graph \<Rightarrow> descriptor \<Rightarrow> ia_state" where
  "ia_init g node = \<lparr>ia_pending = [node], ia_committed = {}, ia_graph = g, ia_err = None\<rparr>"

text \<open>
  The goroutine of a pending descriptor runs: it finds the descriptor committed, or commits
  and indexes it and starts a goroutine for each successor, or skips content that does not
  exist, or fails. After a failure the context is cancelled and goroutines may give up.
\<close>

inductive ia_step :: "ext \<Rightarrow> (descriptor \<Rightarrow> reader res) \<Rightarrow> ia_state \<Rightarrow> ia_state \<Rightarrow> bool"
  for P fetch where
  skip: "\<lbrakk>ia_pending st = xs @ d # ys; FromOCI d \<in> ia_committed st\<rbrakk> \<Longrightarrow>
     ia_step P fetch st (st\<lparr>ia_pending := xs @ ys\<rparr>)"
| index: "\<lbrakk>ia_pending st = xs @ d # ys; FromOCI d \<notin> ia_committed st;
      graph_index P fetch (ia_graph st) d = (Inr ss, g')\<rbrakk> \<Longrightarrow>
     ia_step P fetch st (st\<lparr>ia_pending := xs @ ys @ ss,
       ia_committed := insert (FromOCI d) (ia_committed st), ia_graph := g'\<rparr>)"
| missing: "\<lbrakk>ia_pending st = xs @ d # ys; FromOCI d \<notin> ia_committed st;
      graph_index P fetch (ia_graph st) d = (Inl ErrNotFound, g')\<rbrakk> \<Longrightarrow>
     ia_step P fetch st (st\<lparr>ia_pending := xs @ ys,
       ia_committed := insert (FromOCI d) (ia_committed st), ia_graph := g'\<rparr>)"
| fail: "\<lbrakk>ia_pending st = xs @ d # ys; FromOCI d \<notin> ia_committed st;
      graph_index P fetch (ia_graph st) d = (Inl e, g'); e \<noteq> ErrNotFound\<rbrakk> \<Longrightarrow>
     ia_step P fetch st (st\<lparr>ia_pending := xs @ ys,
       ia_committed := insert (FromOCI d) (ia_committed st), ia_graph := g',
       ia_err := (if ia_err st = None then Some e else ia_err st)\<rparr>)"
| cancel: "\<lbrakk>ia_pending st = xs @ d # ys; ia_err st \<noteq> None\<rbrakk> \<Longrightarrow>
     ia_step P fetch st (st\<lparr>ia_pending := xs @ ys\<rparr>)"

text \<open>\<^verbatim>\<open>IndexAll\<close> has returned when no goroutine is left; its result is the first error.\<close>

definition IndexAll :: "ext \<Rightarrow> (descriptor \<Rightarrow> reader res) \<Rightarrow> graph \<Rightarrow> descriptor \<Rightarrow> error option \<Rightarrow> graph \<Rightarrow> bool" where
  "IndexAll P fetch g node r g' \<longleftrightarrow>
     (\<exists>st. (ia_step P fetch)\<^sup>*\<^sup>* (ia_init g node) st \<and> ia_pending st = [] \<and> ia_err st = r \<and> ia_graph st = g')"

definition succ_rel :: "ext \<Rightarrow> (descriptor \<Rightarrow> reader res) \<Rightarrow> (descriptor \<times> descriptor) set" where
  "succ_rel P fetch = {(d, s). \<exists>ss. Successors P fetch d = Inr ss \<and> s \<in> set ss}"

definition ia_cover :: "ia_state \<Rightarrow> key set" where
  "ia_cover st = ia_committed st \<union> FromOCI ` set (ia_pending st)"

text \<open>A committed key is missing content, or indexed with all its successors committed or pending.\<close>

definition ia_settled :: "ext \<Rightarrow> (descriptor \<Rightarrow> reader res) \<Rightarrow> ia_state \<Rightarrow> key \<Rightarrow> bool" where
  "ia_settled P fetch st k \<longleftrightarrow> (\<exists>d. FromOCI d = k \<and>
     (Successors P fetch d = Inl ErrNotFound \<or>
      (\<exists>ss. Successors P fetch d = Inr ss \<and> gm_get (g_nodes (ia_graph st)) k \<noteq> None
         \<and> FromOCI ` set ss \<subseteq> ia_cover st)))"

definition ia_inv :: "ext \<Rightarrow> (descriptor \<Rightarrow> reader res) \<Rightarrow> descriptor \<Rightarrow> ia_state \<Rightarrow> bool" where
  "ia_inv P fetch node st \<longleftrightarrow> graph_inv P fetch (ia_graph st) \<and>
     (ia_err st = None \<longrightarrow> FromOCI node \<in> ia_cover st \<and> (\<forall>k\<in>ia_committed st. ia_settled P fetch st k))"

lemma ia_settledE:
  assumes "key_based P fetch" "ia_settled P fetch st (FromOCI d)"
  obtains (missing) "Successors P fetch d = Inl ErrNotFound"
  | (indexed) ss where "Successors P fetch d = Inr ss"
      "gm_get (g_nodes (ia_graph st)) (FromOCI d) \<noteq> None" "FromOCI ` set ss \<subseteq> ia_cover st"
proof -
  from assms(2) obtain d' where d': "FromOCI d' = FromOCI d" and
    c: "Successors P fetch d' = Inl ErrNotFound \<or>
      (\<exists>ss. Successors P fetch d' = Inr ss \<and> gm_get (g_nodes (ia_graph st)) (FromOCI d) \<noteq> None
         \<and> FromOCI ` set ss \<subseteq> ia_cover st)"
    unfolding ia_settled_def by (elim exE conjE) (rule that)
  note same = key_basedD [OF assms(1) d']
  from c show thesis
    unfolding same by (elim disjE exE conjE) (erule missing, rule indexed)
qed

lemma ia_step_mono:
  assumes "ia_step P fetch st st'" "ia_err st' = None"
  shows "ia_err st = None \<and> ia_cover st \<subseteq> ia_cover st'
    \<and> (\<forall>k. gm_get (g_nodes (ia_graph st)) k \<noteq> None \<longrightarrow> gm_get (g_nodes (ia_graph st')) k \<noteq> None)"
  using assms
  by (cases rule: ia_step.cases)
    (auto simp: ia_cover_def graph_index_def graph_add_sel split: sum.splits if_splits)

lemma ia_settled_mono:
  assumes "ia_settled P fetch st k" "ia_cover st \<subseteq> ia_cover st'"
    and "\<forall>k. gm_get (g_nodes (ia_graph st)) k \<noteq> None \<longrightarrow> gm_get (g_nodes (ia_graph st')) k \<noteq> None"
  shows "ia_settled P fetch st' k"
proof -
  from assms(1) obtain d where d: "FromOCI d = k" "Successors P fetch d = Inl ErrNotFound \<or>
      (\<exists>ss. Successors P fetch d = Inr ss \<and> gm_get (g_nodes (ia_graph st)) k \<noteq> None
         \<and> FromOCI ` set ss \<subseteq> ia_cover st)"
    unfolding ia_settled_def by (elim exE conjE) (rule that)
  from d(2) assms(2,3) have "Successors P fetch d = Inl ErrNotFound \<or>
      (\<exists>ss. Successors P fetch d = Inr ss \<and> gm_get (g_nodes (ia_graph st')) k \<noteq> None
         \<and> FromOCI ` set ss \<subseteq> ia_cover st')"
    by (meson order_trans)
  with d(1) show ?thesis unfolding ia_settled_def by blast
qed

lemma ia_step_settles:
  assumes "ia_step P fetch st st'" "ia_err st' = None" "k \<in> ia_committed st'" "k \<notin> ia_committed st"
  shows "ia_settled P fetch st' k"
  using assms(1)
proof cases
  case (index xs d ys ss g')
  then have "Successors P fetch d = Inr ss" "g' = graph_add (ia_graph st) d ss" "k = FromOCI d"
    using assms(3,4) by (auto simp: graph_index_def split: sum.splits)
  then show ?thesis
    unfolding ia_settled_def
    by (intro exI [of _ d]) (use index(1) in \<open>auto simp: ia_cover_def graph_add_sel\<close>)
qed (use assms(2-) in \<open>auto simp: ia_settled_def graph_index_def split: sum.splits if_splits\<close>)

lemma ia_step_graph:
  assumes "ia_step P fetch st st'" "key_based P fetch" "graph_inv P fetch (ia_graph st)"
  shows "graph_inv P fetch (ia_graph st')"
  using assms(1)
proof cases
  case (index xs d ys ss g')
  with graph_inv_index [OF assms(2,3), of d] show ?thesis by simp
qed (use assms(3) in \<open>auto simp: graph_index_def split: sum.splits\<close>)

lemma ia_step_inv:
  assumes "key_based P fetch" "ia_inv P fetch node st" "ia_step P fetch st st'"
  shows "ia_inv P fetch node st'"
  unfolding ia_inv_def
proof (intro conjI impI ballI)
  show "graph_inv P fetch (ia_graph st')"
    using ia_step_graph [OF assms(3,1)] assms(2) by (simp add: ia_inv_def)
  assume e: "ia_err st' = None"
  note mono = ia_step_mono [OF assms(3) e]
  show "FromOCI node \<in> ia_cover st'" using mono assms(2) by (auto simp: ia_inv_def)
  fix k assume k: "k \<in> ia_committed st'"
  show "ia_settled P fetch st' k"
  proof (cases "k \<in> ia_committed st")
    case True
    with mono assms(2) show ?thesis by (auto simp: ia_inv_def intro: ia_settled_mono [of P fetch st])
  next
    case False
    with ia_step_settles [OF assms(3) e k] show ?thesis by simp
  qed
qed

lemma ia_steps_inv:
  assumes "(ia_step P fetch)\<^sup>*\<^sup>* st st'" "key_based P fetch" "ia_inv P fetch node st"
  shows "ia_inv P fetch node st'"
  using assms by (induction rule: rtranclp_induct) (auto intro: ia_step_inv)

lemma ia_inv_init: "graph_inv P fetch g \<Longrightarrow> ia_inv P fetch node (ia_init g node)"
  by (simp add: ia_inv_def ia_init_def ia_cover_def)

text \<open>When nothing is pending, every reachable descriptor is committed.\<close>

lemma ia_final_reach:
  assumes "key_based P fetch" "ia_inv P fetch node st" "ia_pending st = []" "ia_err st = None"
    and "(node, d) \<in> (succ_rel P fetch)\<^sup>*"
  shows "FromOCI d \<in> ia_committed st"
  using assms(5)
proof (induction rule: rtrancl_induct)
  case base
  with assms show ?case by (simp add: ia_inv_def ia_cover_def)
next
  case (step d s)
  from step.hyps(2) obtain ss where ss: "Successors P fetch d = Inr ss" "s \<in> set ss"
    by (auto simp: succ_rel_def)
  from step.IH assms(2,4) have "ia_settled P fetch st (FromOCI d)" by (simp add: ia_inv_def)
  with assms(1) have "FromOCI s \<in> ia_cover st"
    by (cases rule: ia_settledE) (use ss in auto)
  with assms(3) show ?case by (simp add: ia_cover_def)
qed

lemma ia_final_indexed:
  assumes "key_based P fetch" "ia_inv P fetch node st" "ia_err st = None" "FromOCI d \<in> ia_committed st"
  shows "Successors P fetch d = Inl ErrNotFound \<or>
    (\<exists>ss. Successors P fetch d = Inr ss \<and> graph_Exists (ia_graph st) d
       \<and> set (gset (g_succs (ia_graph st)) (FromOCI d)) = FromOCI ` set ss)"
proof -
  from assms(2-4) have "ia_settled P fetch st (FromOCI d)" and inv: "graph_inv P fetch (ia_graph st)"
    by (auto simp: ia_inv_def)
  from assms(1) this(1) show ?thesis
  proof (cases rule: ia_settledE)
    case missing
    then show ?thesis by simp
  next
    case (indexed ss)
    then obtain x where x: "gm_get (g_nodes (ia_graph st)) (FromOCI d) = Some x" by blast
    with inv have "FromOCI x = FromOCI d" by (simp add: graph_inv_def g_ok_def)
    from key_basedD [OF assms(1) this] have "Successors P fetch x = Successors P fetch d" .
    moreover from inv x obtain ss' where "Successors P fetch x = Inr ss'"
      "set (gset (g_succs (ia_graph st)) (FromOCI d)) = FromOCI ` set ss'"
      unfolding graph_inv_def g_agrees_def by blast
    ultimately show ?thesis using x indexed(1) by (simp add: graph_Exists_def)
  qed
qed

text \<open>Every step commits a key or ends a goroutine, so with finitely many keys the steps end.\<close>

definition succ_closed :: "ext \<Rightarrow> (descriptor \<Rightarrow> reader res) \<Rightarrow> key set \<Rightarrow> bool" where
  "succ_closed P fetch U \<longleftrightarrow>
     (\<forall>d ss. FromOCI d \<in> U \<and> Successors P fetch d = Inr ss \<longrightarrow> FromOCI ` set ss \<subseteq> U)"

definition ia_measure :: "key set \<Rightarrow> ((ia_state \<times> ia_state) set)" where
  "ia_measure U = inv_image (less_than <*lex*> less_than)
     (\<lambda>st. (card (U - ia_committed st), length (ia_pending st)))"

lemma ia_step_decreases:
  assumes "ia_step P fetch st st'" "finite U" "FromOCI ` set (ia_pending st) \<subseteq> U"
  shows "(st', st) \<in> ia_measure U"
proof -
  have less: "card (U - insert k C) < card (U - C)" if "k \<in> U" "k \<notin> C" for k and C :: "key set"
    using that assms(2) by (intro psubset_card_mono) auto
  from assms(1) show ?thesis
    by cases (use assms(3) in \<open>auto simp: ia_measure_def less simp del: card_Diff_insert\<close>)
qed

lemma ia_step_closed:
  assumes "ia_step P fetch st st'" "succ_closed P fetch U" "FromOCI ` set (ia_pending st) \<subseteq> U"
  shows "FromOCI ` set (ia_pending st') \<subseteq> U"
  using assms(1)
proof cases
  case (index xs d ys ss g')
  then have "Successors P fetch d = Inr ss" by (auto simp: graph_index_def split: sum.splits)
  with assms(2,3) index(2) have "FromOCI ` set ss \<subseteq> U" unfolding succ_closed_def by auto
  with index(1,2) assms(3) show ?thesis by auto
qed (use assms(3) in auto)

lemma ia_no_infinite_run:
  assumes "finite U" "succ_closed P fetch U" "FromOCI ` set (ia_pending (f 0)) \<subseteq> U"
  shows "\<not> (\<forall>i. ia_step P fetch (f i) (f (Suc i)))"
proof
  assume run: "\<forall>i. ia_step P fetch (f i) (f (Suc i))"
  have "FromOCI ` set (ia_pending (f i)) \<subseteq> U" for i
  proof (induction i)
    case (Suc i)
    then show ?case by (rule ia_step_closed [OF run [rule_format] assms(2)])
  qed (rule assms(3))
  with run assms(1) have "\<forall>i. (f (Suc i), f i) \<in> ia_measure U" by (blast intro: ia_step_decreases)
  moreover have "wf (ia_measure U)" by (simp add: ia_measure_def wf_inv_image wf_lex_prod)
  ultimately show False unfolding wf_iff_no_infinite_down_chain by blast
qed

lemma ia_progress: "ia_pending st \<noteq> [] \<Longrightarrow> \<exists>st'. ia_step P fetch st st'"
proof -
  assume "ia_pending st \<noteq> []"
  then obtain d ys where p: "ia_pending st = [] @ d # ys" by (cases "ia_pending st") auto
  obtain x g' where r: "graph_index P fetch (ia_graph st) d = (x, g')"
    by (cases "graph_index P fetch (ia_graph st) d")
  show ?thesis
  proof (cases "FromOCI d \<in> ia_committed st")
    case True
    with p show ?thesis by (blast intro: ia_step.skip)
  next
    case False
    with p r show ?thesis
      by (cases x; cases "x = Inl ErrNotFound") (blast intro: ia_step.index ia_step.missing ia_step.fail)+
  qed
qed

text \<open>Only reachable descriptors that can be read are indexed.\<close>

definition ia_sound :: "ext \<Rightarrow> (descriptor \<Rightarrow> reader res) \<Rightarrow> descriptor \<Rightarrow> graph \<Rightarrow> ia_state \<Rightarrow> bool" where
  "ia_sound P fetch node g st \<longleftrightarrow>
     (\<forall>d\<in>set (ia_pending st). (node, d) \<in> (succ_rel P fetch)\<^sup>*) \<and>
     (\<forall>k. gm_get (g_nodes (ia_graph st)) k \<noteq> None \<longrightarrow> gm_get (g_nodes g) k \<noteq> None \<or>
        (\<exists>d ss. k = FromOCI d \<and> (node, d) \<in> (succ_rel P fetch)\<^sup>* \<and> Successors P fetch d = Inr ss)) \<and>
     (\<forall>k. gm_get (g_nodes g) k \<noteq> None \<longrightarrow> gm_get (g_nodes (ia_graph st)) k \<noteq> None)"

lemma ia_sound_init: "ia_sound P fetch node g (ia_init g node)"
  by (simp add: ia_sound_def ia_init_def)

lemma ia_step_sound:
  assumes "ia_step P fetch st st'" "ia_sound P fetch node g st"
  shows "ia_sound P fetch node g st'"
  using assms(1)
proof cases
  case (index xs d ys ss g')
  then have d: "Successors P fetch d = Inr ss" "g' = graph_add (ia_graph st) d ss"
    by (auto simp: graph_index_def split: sum.splits)
  from assms(2) index(2) have r: "(node, d) \<in> (succ_rel P fetch)\<^sup>*" by (simp add: ia_sound_def)
  have "(node, s) \<in> (succ_rel P fetch)\<^sup>*" if "s \<in> set ss" for s
    using r d(1) that by (auto simp: succ_rel_def intro: rtrancl_into_rtrancl)
  with assms(2) index(2) have "\<forall>d\<in>set (xs @ ys @ ss). (node, d) \<in> (succ_rel P fetch)\<^sup>*"
    by (auto simp: ia_sound_def)
  moreover have "gm_get (g_nodes g) k \<noteq> None \<or>
      (\<exists>d ss. k = FromOCI d \<and> (node, d) \<in> (succ_rel P fetch)\<^sup>* \<and> Successors P fetch d = Inr ss)"
    if "gm_get (g_nodes g') k \<noteq> None" for k
  proof (cases "k = FromOCI d")
    case True
    with r d(1) show ?thesis by blast
  next
    case False
    with that d(2) have "gm_get (g_nodes (ia_graph st)) k \<noteq> None" by (simp add: graph_add_sel)
    with assms(2) show ?thesis by (simp add: ia_sound_def)
  qed
  moreover have "gm_get (g_nodes g') k \<noteq> None" if "gm_get (g_nodes g) k \<noteq> None" for k
    using that assms(2) d(2) by (simp add: ia_sound_def graph_add_sel)
  ultimately show ?thesis using index(1) by (simp add: ia_sound_def)
qed (use assms(2) in \<open>auto simp: ia_sound_def graph_index_def split: sum.splits\<close>)

lemma ia_steps_sound:
  assumes "(ia_step P fetch)\<^sup>*\<^sup>* st st'" "ia_sound P fetch node g st"
  shows "ia_sound P fetch node g st'"
  using assms by (induction rule: rtranclp_induct) (auto intro: ia_step_sound)

section \<open>One schedule of \<^verbatim>\<open>IndexAll\<close>\<close>

text \<open>
  The goroutines run one after the other, in the order in which they were started. The
  callers of \<^verbatim>\<open>IndexAll\<close> are modelled with this schedule; by \<open>IndexAll_nodes\<close> below the set of
  indexed nodes does not depend on it.
\<close>

partial_function (option) index_all_loop :: "ext \<Rightarrow> (descriptor \<Rightarrow> reader res) \<Rightarrow> descriptor list \<Rightarrow>
    key set \<Rightarrow> graph \<Rightarrow> (error option \<times> graph) option" where
  "index_all_loop P fetch pending committed g = (case pending of
     [] \<Rightarrow> Some (None, g)
   | d # ys \<Rightarrow>
       if FromOCI d \<in> committed then index_all_loop P fetch ys committed g
       else (case graph_index P fetch g d of
         (Inr ss, g') \<Rightarrow> index_all_loop P fetch (ys @ ss) (insert (FromOCI d) committed) g'
       | (Inl e, g') \<Rightarrow>
           if e = ErrNotFound then index_all_loop P fetch ys (insert (FromOCI d) committed) g'
           else Some (Some e, g')))"

definition graph_IndexAll :: "ext \<Rightarrow> (descriptor \<Rightarrow> reader res) \<Rightarrow> graph \<Rightarrow> descriptor \<Rightarrow>
    (error option \<times> graph) option" where
  "graph_IndexAll P fetch g node = index_all_loop P fetch [node] {} g"

lemma ia_drain:
  "ia_err st \<noteq> None \<Longrightarrow> (ia_step P fetch)\<^sup>*\<^sup>* st (st\<lparr>ia_pending := []\<rparr>)"
proof (induction "length (ia_pending st)" arbitrary: st)
  case 0
  then have "st\<lparr>ia_pending := []\<rparr> = st" by (cases st) simp
  then show ?case by simp
next
  case (Suc n)
  then obtain d ys where p: "ia_pending st = [] @ d # ys" by (cases "ia_pending st") auto
  have "ia_step P fetch st (st\<lparr>ia_pending := [] @ ys\<rparr>)"
    by (rule ia_step.cancel [OF p Suc.prems])
  moreover have "(ia_step P fetch)\<^sup>*\<^sup>* (st\<lparr>ia_pending := [] @ ys\<rparr>) (st\<lparr>ia_pending := []\<rparr>)"
    using Suc.hyps(1) [of "st\<lparr>ia_pending := [] @ ys\<rparr>"] Suc.hyps(2) Suc.prems p by simp
  ultimately show ?case by (rule converse_rtranclp_into_rtranclp)
qed

definition ia_returns :: "ext \<Rightarrow> (descriptor \<Rightarrow> reader res) \<Rightarrow> descriptor list \<Rightarrow> key set \<Rightarrow> graph \<Rightarrow>
    error option \<times> graph \<Rightarrow> bool" where
  "ia_returns P fetch pending committed g y \<longleftrightarrow> (\<exists>st. (ia_step P fetch)\<^sup>*\<^sup>*
      \<lparr>ia_pending = pending, ia_committed = committed, ia_graph = g, ia_err = None\<rparr> st
    \<and> ia_pending st = [] \<and> ia_err st = fst y \<and> ia_graph st = snd y)"

lemma ia_returns_step:
  assumes "ia_step P fetch \<lparr>ia_pending = pending, ia_committed = committed, ia_graph = g, ia_err = None\<rparr>
      \<lparr>ia_pending = pending', ia_committed = committed', ia_graph = g', ia_err = None\<rparr>"
    and "ia_returns P fetch pending' committed' g' y"
  shows "ia_returns P fetch pending committed g y"
  using assms unfolding ia_returns_def by (blast intro: converse_rtranclp_into_rtranclp)

lemma index_all_loop_body:
  assumes IH: "\<And>ys c g y. loop P fetch ys c g = Some y \<Longrightarrow> ia_returns P fetch ys c g y"
    and body: "(case pending of
     [] \<Rightarrow> Some (None, g)
   | d # ys \<Rightarrow>
       if FromOCI d \<in> committed then loop P fetch ys committed g
       else (case graph_index P fetch g d of
         (Inr ss, g') \<Rightarrow> loop P fetch (ys @ ss) (insert (FromOCI d) committed) g'
       | (Inl e, g') \<Rightarrow>
           if e = ErrNotFound then loop P fetch ys (insert (FromOCI d) committed) g'
           else Some (Some e, g'))) = Some y"
  shows "ia_returns P fetch pending committed g y"
proof (cases pending)
  case Nil
  with body show ?thesis unfolding ia_returns_def by auto
next
  case (Cons d ys)
  let ?st = "\<lparr>ia_pending = pending, ia_committed = committed, ia_graph = g, ia_err = None\<rparr>"
  obtain x g1 where gi: "graph_index P fetch g d = (x, g1)" by (cases "graph_index P fetch g d")
  have p: "ia_pending ?st = [] @ d # ys" using Cons by simp
  show ?thesis
  proof (cases "FromOCI d \<in> committed")
    case True
    with IH [of ys committed g y] body Cons ia_step.skip [OF p, of P fetch] show ?thesis
      by (intro ia_returns_step [of P fetch pending committed g ys committed g]) simp_all
  next
    case False
    consider (ok) ss where "x = Inr ss" | (missing) "x = Inl ErrNotFound"
      | (fail) e where "x = Inl e" "e \<noteq> ErrNotFound" by (cases x) auto
    then show ?thesis
    proof cases
      case (ok ss)
      with IH [of "ys @ ss" "insert (FromOCI d) committed" g1 y] body Cons False gi
        ia_step.index [OF p, of P fetch ss g1] show ?thesis
        by (intro ia_returns_step [of P fetch pending committed g "ys @ ss" "insert (FromOCI d) committed" g1])
          simp_all
    next
      case missing
      with IH [of ys "insert (FromOCI d) committed" g1 y] body Cons False gi
        ia_step.missing [OF p, of P fetch g1] show ?thesis
        by (intro ia_returns_step [of P fetch pending committed g ys "insert (FromOCI d) committed" g1])
          simp_all
    next
      case (fail e)
      define st1 where "st1 = ?st\<lparr>ia_pending := ys,
        ia_committed := insert (FromOCI d) committed, ia_graph := g1, ia_err := Some e\<rparr>"
      have "ia_step P fetch ?st st1"
        using ia_step.fail [OF p, of P fetch e g1] gi fail False by (simp add: st1_def)
      moreover have "(ia_step P fetch)\<^sup>*\<^sup>* st1 (st1\<lparr>ia_pending := []\<rparr>)"
        by (rule ia_drain) (simp add: st1_def)
      ultimately have "(ia_step P fetch)\<^sup>*\<^sup>* ?st (st1\<lparr>ia_pending := []\<rparr>)"
        by (rule converse_rtranclp_into_rtranclp)
      moreover have "y = (Some e, g1)" using body Cons False gi fail by simp
      ultimately show ?thesis
        unfolding ia_returns_def by (intro exI [of _ "st1\<lparr>ia_pending := []\<rparr>"]) (simp add: st1_def)
    qed
  qed
qed

lemma index_all_loop_steps:
  "index_all_loop P fetch pending committed g = Some y \<Longrightarrow> ia_returns P fetch pending committed g y"
proof -
  assume loop: "index_all_loop P fetch pending committed g = Some y"
  have "case ((((P, fetch), pending), committed), g) of ((((P, f), p), c), g) \<Rightarrow> ia_returns P f p c g y"
    by (rule index_all_loop.raw_induct [OF _ loop]) (unfold prod.case, rule index_all_loop_body)
  then show ?thesis by simp
qed

lemma index_all_loop_terminates:
  assumes "finite U" "succ_closed P fetch U"
  shows "FromOCI ` set pending \<subseteq> U \<Longrightarrow> \<exists>y. index_all_loop P fetch pending committed g = Some y"
proof (induction "(card (U - committed), length pending)" arbitrary: pending committed g
    rule: wf_induct_rule [OF wf_lex_prod [OF wf_less_than wf_less_than]])
  case 1
  note IH = "1.hyps"
  show ?case
  proof (cases pending)
    case Nil
    then show ?thesis by (simp add: index_all_loop.simps [of P fetch "[]"])
  next
    case (Cons d ys)
    then have d: "FromOCI d \<in> U" "FromOCI ` set ys \<subseteq> U" using "1.prems" by auto
    show ?thesis
    proof (cases "FromOCI d \<in> committed")
      case True
      with IH [of committed ys g] d Cons show ?thesis
        by (simp add: index_all_loop.simps [of P fetch "d # ys"])
    next
      case False
      have less: "card (U - insert (FromOCI d) committed) < card (U - committed)"
        using d(1) False assms(1) by (intro psubset_card_mono) auto
      show ?thesis
      proof (cases "Successors P fetch d")
        case (Inl e)
        with IH [of "insert (FromOCI d) committed" ys g] d Cons False less show ?thesis
          by (simp add: index_all_loop.simps [of P fetch "d # ys"] graph_index_def)
      next
        case (Inr ss)
        with assms(2) d(1) have "FromOCI ` set ss \<subseteq> U" unfolding succ_closed_def by blast
        with IH [of "insert (FromOCI d) committed" "ys @ ss" "graph_add g d ss"] d Cons False less Inr
        show ?thesis
          by (simp add: index_all_loop.simps [of P fetch "d # ys"] graph_index_def image_Un)
      qed
    qed
  qed
qed

lemma graph_IndexAll_sound:
  "graph_IndexAll P fetch g node = Some (r, g') \<Longrightarrow> IndexAll P fetch g node r g'"
  using index_all_loop_steps [of P fetch "[node]" "{}" g "(r, g')"]
  by (simp add: graph_IndexAll_def IndexAll_def ia_init_def ia_returns_def)

section \<open>The result of \<^verbatim>\<open>IndexAll\<close>\<close>

lemma IndexAll_reachable:
  assumes "key_based P fetch" "graph_inv P fetch g" "IndexAll P fetch g node None g'"
  shows "graph_inv P fetch g' \<and> (\<forall>d. (node, d) \<in> (succ_rel P fetch)\<^sup>* \<longrightarrow>
    Successors P fetch d = Inl ErrNotFound \<or>
    (\<exists>ss. Successors P fetch d = Inr ss \<and> graph_Exists g' d
       \<and> set (gset (g_succs g') (FromOCI d)) = FromOCI ` set ss))"
proof -
  from assms(3) obtain st where st: "(ia_step P fetch)\<^sup>*\<^sup>* (ia_init g node) st"
    "ia_pending st = []" "ia_err st = None" "ia_graph st = g'"
    by (auto simp: IndexAll_def)
  note inv = ia_steps_inv [OF st(1) assms(1) ia_inv_init [OF assms(2)]]
  show ?thesis
    using inv ia_final_indexed [OF assms(1) inv st(3) ia_final_reach [OF assms(1) inv st(2,3)]] st(4)
    by (simp add: ia_inv_def)
qed

lemma IndexAll_inv:
  assumes "key_based P fetch" "graph_inv P fetch g" "IndexAll P fetch g node r g'"
  shows "graph_inv P fetch g'"
proof -
  from assms(3) obtain st where st: "(ia_step P fetch)\<^sup>*\<^sup>* (ia_init g node) st" "ia_graph st = g'"
    by (auto simp: IndexAll_def)
  from ia_steps_inv [OF st(1) assms(1) ia_inv_init [OF assms(2)]] st(2) show ?thesis
    by (simp add: ia_inv_def)
qed

lemma IndexAll_nodes:
  assumes "key_based P fetch" "graph_inv P fetch g" "IndexAll P fetch g node None g'"
  shows "{k. gm_get (g_nodes g') k \<noteq> None} = {k. gm_get (g_nodes g) k \<noteq> None} \<union>
     {FromOCI d | d ss. (node, d) \<in> (succ_rel P fetch)\<^sup>* \<and> Successors P fetch d = Inr ss}"
proof -
  from assms(3) obtain st where st: "(ia_step P fetch)\<^sup>*\<^sup>* (ia_init g node) st" "ia_graph st = g'"
    by (auto simp: IndexAll_def)
  from ia_steps_sound [OF st(1) ia_sound_init] have sound: "ia_sound P fetch node g st" .
  have "gm_get (g_nodes g') (FromOCI d) \<noteq> None"
    if "(node, d) \<in> (succ_rel P fetch)\<^sup>*" "Successors P fetch d = Inr ss" for d ss
    using IndexAll_reachable [OF assms] that by (auto simp: graph_Exists_def)
  with sound st(2) show ?thesis by (auto simp: ia_sound_def)
qed

text \<open>
  What indexing a node keeps, \<^verbatim>\<open>IndexAll\<close> keeps; \<open>R\<close> holds of every descriptor it gets to.
\<close>

lemma ia_step_preserves:
  assumes "ia_step P fetch st st'" "Q (ia_graph st)" "\<forall>d\<in>set (ia_pending st). R d"
    and step: "\<And>g d ss. \<lbrakk>Q g; R d; Successors P fetch d = Inr ss\<rbrakk> \<Longrightarrow> Q (graph_add g d ss) \<and> (\<forall>s\<in>set ss. R s)"
  shows "Q (ia_graph st') \<and> (\<forall>d\<in>set (ia_pending st'). R d)"
  using assms(1-3)
  by (cases rule: ia_step.cases)
    (auto simp: graph_index_def split: sum.splits dest!: step [of "ia_graph st"])

lemma IndexAll_preserves:
  assumes "IndexAll P fetch g node r g'" "Q g" "R node"
    and step: "\<And>g d ss. \<lbrakk>Q g; R d; Successors P fetch d = Inr ss\<rbrakk> \<Longrightarrow> Q (graph_add g d ss) \<and> (\<forall>s\<in>set ss. R s)"
  shows "Q g'"
proof -
  have "Q (ia_graph st) \<and> (\<forall>d\<in>set (ia_pending st). R d)" if "(ia_step P fetch)\<^sup>*\<^sup>* (ia_init g node) st" for st
    using that
  proof (induction rule: rtranclp_induct)
    case base
    with assms(2,3) show ?case by (simp add: ia_init_def)
  next
    case (step y z)
    then show ?case using ia_step_preserves [of P fetch y z Q R] assms(4) by blast
  qed
  with assms(1) show ?thesis by (auto simp: IndexAll_def)
qed

section \<open>What the predecessor index promises\<close>

text \<open>
  C29. Indexing a node implements adding a node with all its outgoing edges to a directed
  graph, and keeps the invariant of the index: the maps of predecessors and successors are
  inverse to each other and agree with the stored manifests. When the node cannot be read
  the index does not change.
\<close>

theorem graph_index_refines:
  assumes "key_based P fetch" "graph_inv P fetch g" "graph_index P fetch g node = (x, g')"
  shows "graph_inv P fetch g' \<and>
    (case x of
       Inl e \<Rightarrow> Successors P fetch node = Inl e \<and> g' = g
     | Inr ss \<Rightarrow> Successors P fetch node = Inr ss
         \<and> abs_graph g' = ag_add (abs_graph g) node (FromOCI ` set ss))"
  using graph_inv_index [OF assms(1,2), of node] assms(3)
  by (auto simp: graph_index_def abs_graph_add split: sum.splits)

lemma demo_key_based: "key_based demo_graph_ext demo_fetch"
  unfolding key_based_def
  by (auto simp: FromOCI_eq_iff Equal_def demo_fetch_def FetchAll_def ReadAll_def ReadAllS_def
      NewVerifyReader_def intro!: Successors_cong)

definition demo_graph :: graph where
  "demo_graph = graph_add graph_NewMemory demo_manifest [demo_config, demo_layer]"

lemma demo_graph_index:
  "graph_index demo_graph_ext demo_fetch graph_NewMemory demo_manifest =
     (Inr [demo_config, demo_layer], demo_graph)"
  by (simp add: graph_index_def demo_graph_def)

lemma demo_graph_inv: "graph_inv demo_graph_ext demo_fetch demo_graph"
  using graph_inv_index [OF demo_key_based graph_inv_empty, of demo_manifest] demo_graph_index by simp

theorem graph_index_refines_witness:
  "abs_graph demo_graph = ag_add (abs_graph graph_NewMemory) demo_manifest
     (FromOCI ` set [demo_config, demo_layer])"
  using graph_index_refines [OF demo_key_based graph_inv_empty demo_graph_index] by simp

text \<open>
  C30. \<^verbatim>\<open>Predecessors\<close> returns exactly the indexed nodes whose manifest points to the given
  descriptor, each once, in whatever order Go iterates over the set.
\<close>

theorem graph_Predecessors_exact:
  assumes "graph_inv P fetch g" "valid_order ord"
  shows "set (graph_Predecessors g ord node) =
      {d. \<exists>k ss. gm_get (g_nodes g) k = Some d \<and> Successors P fetch d = Inr ss
            \<and> FromOCI node \<in> FromOCI ` set ss}
    \<and> distinct (map FromOCI (graph_Predecessors g ord node))"
proof -
  have ok: "g_ok g" and ag: "g_agrees P fetch g" using assms(1) by (auto simp: graph_inv_def)
  have "FromOCI node \<in> set (gset (g_succs g) k) \<longleftrightarrow>
      (\<exists>ss. Successors P fetch d = Inr ss \<and> FromOCI node \<in> FromOCI ` set ss)"
    if "gm_get (g_nodes g) k = Some d" for k d
  proof -
    from ag that obtain ss where "Successors P fetch d = Inr ss" "set (gset (g_succs g) k) = FromOCI ` set ss"
      unfolding g_agrees_def by blast
    then show ?thesis by simp
  qed
  with graph_Predecessors_set [OF ok assms(2), of node] show ?thesis by auto
qed

theorem graph_Predecessors_exact_witness:
  "demo_manifest \<in> set (graph_Predecessors demo_graph rev_order demo_layer)"
proof -
  have "gm_get (g_nodes demo_graph) (FromOCI demo_manifest) = Some demo_manifest"
    by (simp add: demo_graph_def graph_add_sel)
  with graph_Predecessors_exact [OF demo_graph_inv valid_rev_order, of demo_layer] show ?thesis
    using demo_Successors(1) by force
qed

text \<open>
  C15. \<^verbatim>\<open>Remove\<close> removes the node and its outgoing edges and nothing else, for every
  iteration order, and reports exactly the indexed nodes that the removal leaves without any
  predecessor, each once.
\<close>

theorem graph_Remove_exact:
  assumes "graph_inv P fetch g" "valid_order ord" "valid_order ord'"
    and "graph_Remove g ord node = (danglings, g')"
  shows "graph_inv P fetch g' \<and> abs_graph g' = ag_remove (abs_graph g) node
    \<and> distinct (map FromOCI danglings)
    \<and> (\<forall>d. d \<in> set danglings \<longleftrightarrow> gm_get (g_nodes g) (FromOCI d) = Some d
         \<and> graph_Predecessors g ord' d \<noteq> [] \<and> graph_Predecessors g' ord' d = [])"
proof -
  have ok: "g_ok g" using assms(1) by (simp add: graph_inv_def)
  have edges: "ag_nodes (abs_graph g) a \<noteq> None" if "(a, b) \<in> ag_edges (abs_graph g)" for a b
    using that g_edges_nodes [OF ok, of b a] by (simp add: abs_graph_def)
  have dang: "d \<in> set (fst (graph_Remove g ord node)) \<longleftrightarrow> ag_nodes (abs_graph g) (FromOCI d) = Some d
      \<and> graph_Predecessors g ord' d \<noteq> [] \<and> graph_Predecessors (snd (graph_Remove g ord node)) ord' d = []" for d
    by (rule gmem.dangling_iff [OF ok assms(2,3) edges])
  show ?thesis
    using graph_inv_Remove [OF assms(1,2), of node] abs_graph_Remove [OF ok assms(2), of node]
      graph_Remove_danglings(2) [OF ok assms(2), of node]
      dang assms(4)
    by (simp add: abs_graph_def)
qed

theorem graph_Remove_exact_witness:
  "\<exists>g'. graph_Remove demo_graph rev_order demo_manifest = ([], g') \<and>
     abs_graph g' = ag_remove (abs_graph demo_graph) demo_manifest"
proof -
  have "graph_Remove demo_graph rev_order demo_manifest
      = ([], snd (graph_Remove demo_graph rev_order demo_manifest))"
    by (simp add: graph_Remove_def graph_remove_edge_def demo_graph_def graph_add_def graph_add_edge_def
        graph_NewMemory_def gset_def range_list_def rev_order_def List.insert_def demo_nodes FromOCI_def
        media_type_defs Let_def)
  from graph_Remove_exact [OF demo_graph_inv valid_rev_order valid_id_order this] this
  show ?thesis by blast
qed

text \<open>
  C16. If \<^verbatim>\<open>IndexAll\<close> returns without error, whatever the schedule of its goroutines, every
  descriptor reachable from the given one has been indexed with exactly its successors,
  unless its content does not exist.
\<close>

theorem IndexAll_complete:
  assumes "key_based P fetch" "graph_inv P fetch g" "IndexAll P fetch g node None g'"
  shows "graph_inv P fetch g' \<and> (\<forall>d. (node, d) \<in> (succ_rel P fetch)\<^sup>* \<longrightarrow>
    Successors P fetch d = Inl ErrNotFound \<or>
    (\<exists>ss. Successors P fetch d = Inr ss \<and> graph_Exists g' d
       \<and> set (gset (g_succs g') (FromOCI d)) = FromOCI ` set ss))
    \<and> {k. gm_get (g_nodes g') k \<noteq> None} = {k. gm_get (g_nodes g) k \<noteq> None} \<union>
       {FromOCI d | d ss. (node, d) \<in> (succ_rel P fetch)\<^sup>* \<and> Successors P fetch d = Inr ss}"
  using IndexAll_reachable [OF assms] IndexAll_nodes [OF assms] by blast

lemma demo_leaves [simp]:
  "Successors demo_graph_ext demo_fetch demo_config = Inr []"
  "Successors demo_graph_ext demo_fetch demo_layer = Inr []"
  by (simp_all add: Successors_def demo_nodes media_type_defs)

definition demo_graph_all :: graph where
  "demo_graph_all = graph_add (graph_add demo_graph demo_layer []) demo_config []"

lemma demo_IndexAll:
  "IndexAll demo_graph_ext demo_fetch graph_NewMemory demo_manifest None demo_graph_all"
proof -
  let ?step = "ia_step demo_graph_ext demo_fetch"
  define s0 where "s0 = ia_init graph_NewMemory demo_manifest"
  define s1 where "s1 = s0\<lparr>ia_pending := [demo_config, demo_layer],
    ia_committed := {FromOCI demo_manifest}, ia_graph := demo_graph\<rparr>"
  define s2 where "s2 = s1\<lparr>ia_pending := [demo_config],
    ia_committed := {FromOCI demo_layer, FromOCI demo_manifest}, ia_graph := graph_add demo_graph demo_layer []\<rparr>"
  define s3 where "s3 = s2\<lparr>ia_pending := [],
    ia_committed := {FromOCI demo_config, FromOCI demo_layer, FromOCI demo_manifest},
    ia_graph := demo_graph_all\<rparr>"
  have "?step s0 s1"
    using ia_step.index [of s0 "[]" demo_manifest "[]" demo_graph_ext demo_fetch]
    by (simp add: s1_def s0_def ia_init_def demo_graph_index)
  moreover have "?step s1 s2"
    using ia_step.index [of s1 "[demo_config]" demo_layer "[]" demo_graph_ext demo_fetch]
    by (simp add: s2_def s1_def graph_index_def)
      (simp add: demo_nodes FromOCI_def media_type_defs)
  moreover have "?step s2 s3"
    using ia_step.index [of s2 "[]" demo_config "[]" demo_graph_ext demo_fetch]
    by (simp add: s3_def s2_def demo_graph_all_def graph_index_def)
      (simp add: demo_nodes FromOCI_def media_type_defs)
  ultimately have "?step\<^sup>*\<^sup>* s0 s3"
    by (intro converse_rtranclp_into_rtranclp [of ?step s0 s1] converse_rtranclp_into_rtranclp [of ?step s1 s2]
        r_into_rtranclp)
  then show ?thesis
    unfolding IndexAll_def s0_def by (intro exI [of _ s3]) (simp add: s3_def s2_def s1_def s0_def ia_init_def)
qed

theorem IndexAll_complete_witness:
  "graph_Exists demo_graph_all demo_layer"
proof -
  have "(demo_manifest, demo_layer) \<in> (succ_rel demo_graph_ext demo_fetch)\<^sup>*"
    by (auto simp: succ_rel_def)
  with IndexAll_complete [OF demo_key_based graph_inv_empty demo_IndexAll] show ?thesis
    by (metis demo_leaves(2) Inl_Inr_False)
qed

text \<open>
  C17. \<^verbatim>\<open>IndexAll\<close> terminates: when finitely many keys can be reached there is no infinite
  schedule, and as long as a goroutine is left some step can be taken.
\<close>

theorem IndexAll_terminates:
  assumes "finite U" "succ_closed P fetch U" "FromOCI node \<in> U"
  shows "\<not> (\<exists>f. f 0 = ia_init g node \<and> (\<forall>i. ia_step P fetch (f i) (f (Suc i))))
    \<and> (\<forall>st. ia_pending st \<noteq> [] \<longrightarrow> (\<exists>st'. ia_step P fetch st st'))"
  using ia_no_infinite_run [OF assms(1,2)] assms(3) ia_progress by (auto simp: ia_init_def)

theorem IndexAll_terminates_witness:
  "\<not> (\<exists>f. f 0 = ia_init graph_NewMemory demo_layer
     \<and> (\<forall>i. ia_step demo_graph_ext demo_fetch (f i) (f (Suc i))))"
proof -
  have "ss = []" if "FromOCI d = FromOCI demo_layer" "Successors demo_graph_ext demo_fetch d = Inr ss" for d ss
    using key_basedD [OF demo_key_based that(1)] that(2) by simp
  then have "succ_closed demo_graph_ext demo_fetch {FromOCI demo_layer}"
    unfolding succ_closed_def by fastforce
  with IndexAll_terminates [of "{FromOCI demo_layer}"] show ?thesis by blast
qed

end
