(* ===== verification/Resolver_Memory.thy ===== *)
theory Resolver_Memory
  imports Descriptors
begin

text \<open>
  \<^verbatim>\<open>internal/resolver/memory.go\<close>: the map from references to descriptors, with the
  references of each digest. The interfaces of \<^verbatim>\<open>content/resolver.go\<close> are the locale
  \<open>tag_resolver\<close>.
\<close>

record resolver =
  r_index :: "(string, descriptor) gomap"
  r_tags :: "string \<rightharpoonup> string goset"

definition resolver_NewMemory :: resolver where
  "resolver_NewMemory = \<lparr>r_index = [], r_tags = Map.empty\<rparr>"

definition resolver_Resolve :: "resolver \<Rightarrow> string \<Rightarrow> descriptor res" where
  "resolver_Resolve m reference = (case gm_get (r_index m) reference of
     None \<Rightarrow> Inl ErrNotFound
   | Some desc \<Rightarrow> Inr desc)"

definition resolver_Tag :: "resolver \<Rightarrow> descriptor \<Rightarrow> string \<Rightarrow> resolver" where
  "resolver_Tag m desc reference =
     (let m = m\<lparr>r_index := gm_put reference desc (r_index m)\<rparr>;
          tagSet = (case r_tags m (Digest desc) of None \<Rightarrow> [] | Some s \<Rightarrow> s)
      in m\<lparr>r_tags := (r_tags m)(Digest desc \<mapsto> List.insert reference tagSet)\<rparr>)"

definition resolver_Untag :: "resolver \<Rightarrow> string \<Rightarrow> resolver" where
  "resolver_Untag m reference = (case gm_get (r_index m) reference of
     None \<Rightarrow> m
   | Some desc \<Rightarrow>
       (let m = m\<lparr>r_index := gm_del reference (r_index m)\<rparr>;
            tagSet = removeAll reference (case r_tags m (Digest desc) of None \<Rightarrow> [] | Some s \<Rightarrow> s)
        in if tagSet = [] then m\<lparr>r_tags := (r_tags m)(Digest desc := None)\<rparr>
           else m\<lparr>r_tags := (r_tags m)(Digest desc \<mapsto> tagSet)\<rparr>))"

definition resolver_Map :: "resolver \<Rightarrow> (string, descriptor) gomap" where
  "resolver_Map m = r_index m"

definition resolver_TagSet :: "resolver \<Rightarrow> descriptor \<Rightarrow> string goset" where
  "resolver_TagSet m desc = (case r_tags m (Digest desc) of None \<Rightarrow> [] | Some s \<Rightarrow> s)"

section \<open>The contract of a resolver\<close>

locale tag_resolver =
  fixes resolve :: "'s \<Rightarrow> string \<Rightarrow> descriptor res"
    and tag :: "'s \<Rightarrow> descriptor \<Rightarrow> string \<Rightarrow> 's"
    and untag :: "'s \<Rightarrow> string \<Rightarrow> 's"
  assumes resolve_tag: "resolve (tag s d r) r' = (if r' = r then Inr d else resolve s r')"
    and resolve_untag: "resolve (untag s r) r' = (if r' = r then Inl ErrNotFound else resolve s r')"
begin

lemma last_tag_wins: "resolve (tag (tag s d r) d' r) = resolve (tag s d' r)"
  by (auto simp: resolve_tag)

lemma tag_commute: "r \<noteq> r' \<Longrightarrow> resolve (tag (tag s d r) d' r') = resolve (tag (tag s d' r') d r)"
  by (auto simp: resolve_tag)

lemma untag_tag: "resolve s r = Inl ErrNotFound \<Longrightarrow> resolve (untag (tag s d r) r) = resolve s"
  by (auto simp: resolve_tag resolve_untag)

end

lemma resolver_index_Tag [simp]: "r_index (resolver_Tag m d r) = gm_put r d (r_index m)"
  by (simp add: resolver_Tag_def Let_def)

lemma resolver_index_Untag [simp]: "gm_get (r_index (resolver_Untag m r)) = (gm_get (r_index m))(r := None)"
  by (auto simp: resolver_Untag_def Let_def fun_eq_iff split: option.splits)

interpretation rmem: tag_resolver resolver_Resolve resolver_Tag resolver_Untag
  by unfold_locales (auto simp: resolver_Resolve_def)

section \<open>The references of a digest\<close>

text \<open>Every reference is among the references of the digest it resolves to.\<close>

definition r_ok :: "resolver \<Rightarrow> bool" where
  "r_ok m \<longleftrightarrow> gm_ok (r_index m)
     \<and> (\<forall>r d. gm_get (r_index m) r = Some d \<longrightarrow> r \<in> set (resolver_TagSet m d))
     \<and> (\<forall>dg. r_tags m dg \<noteq> Some []) \<and> (\<forall>d. distinct (resolver_TagSet m d))"

lemma TagSet_Tag:
  "resolver_TagSet (resolver_Tag m d r) d' =
     (if Digest d' = Digest d then List.insert r (resolver_TagSet m d') else resolver_TagSet m d')"
  by (simp add: resolver_TagSet_def resolver_Tag_def Let_def)

lemma TagSet_Untag:
  "resolver_TagSet (resolver_Untag m r) d' =
     (case gm_get (r_index m) r of
        None \<Rightarrow> resolver_TagSet m d'
      | Some d \<Rightarrow> if Digest d' = Digest d then removeAll r (resolver_TagSet m d') else resolver_TagSet m d')"
  by (simp add: resolver_TagSet_def resolver_Untag_def Let_def split: option.splits)

lemma r_ok_empty [simp]: "r_ok resolver_NewMemory"
  by (simp add: r_ok_def resolver_NewMemory_def resolver_TagSet_def)

lemma r_ok_Tag: "r_ok m \<Longrightarrow> r_ok (resolver_Tag m d r)"
proof -
  assume ok: "r_ok m"
  have "List.insert r xs \<noteq> []" for xs
    by (simp add: List.insert_def) auto
  then have "r_tags (resolver_Tag m d r) dg \<noteq> Some []" for dg
    using ok by (simp add: r_ok_def resolver_Tag_def Let_def)
  with ok show ?thesis by (auto simp: r_ok_def TagSet_Tag)
qed

lemma r_ok_Untag: "r_ok m \<Longrightarrow> r_ok (resolver_Untag m r)"
proof -
  assume ok: "r_ok m"
  have 1: "r_tags (resolver_Untag m r) dg \<noteq> Some []" for dg
    using ok by (auto simp: r_ok_def resolver_Untag_def Let_def split: option.splits)
  have 2: "gm_ok (r_index (resolver_Untag m r))"
    using ok by (auto simp: r_ok_def resolver_Untag_def Let_def split: option.splits)
  show ?thesis
    using ok 1 2 by (auto simp: r_ok_def TagSet_Untag distinct_removeAll split: option.splits)
qed

lemma r_ok_TagSet:
  "\<lbrakk>r_ok m; resolver_Resolve m r = Inr d\<rbrakk> \<Longrightarrow> r \<in> set (resolver_TagSet m d)"
  by (auto simp: r_ok_def resolver_Resolve_def split: option.splits)

text \<open>
  Tagging and untagging a reference change what that reference resolves to and nothing
  else, and keep every reference in the tag set of the digest it resolves to.
\<close>

lemma resolver_tag_untag:
  assumes "r_ok m"
  shows "resolver_Resolve (resolver_Tag m d r) r' = (if r' = r then Inr d else resolver_Resolve m r')
    \<and> resolver_Resolve (resolver_Untag m r) r' = (if r' = r then Inl ErrNotFound else resolver_Resolve m r')
    \<and> r_ok (resolver_Tag m d r) \<and> r_ok (resolver_Untag m r)"
  using r_ok_Tag [OF assms] r_ok_Untag [OF assms] by (simp add: rmem.resolve_tag rmem.resolve_untag)

text \<open>
  The tag set of a digest may keep a reference that no longer resolves to it: moving a
  reference from one digest to another leaves it in the tag set of the first, and untagging
  it afterwards does not remove it there either.
\<close>

lemma resolver_stale_tag:
  assumes "Digest a \<noteq> Digest b"
  shows "r \<in> set (resolver_TagSet (resolver_Tag (resolver_Tag m a r) b r) a)
    \<and> resolver_Resolve (resolver_Tag (resolver_Tag m a r) b r) r = Inr b
    \<and> r \<in> set (resolver_TagSet (resolver_Untag (resolver_Tag (resolver_Tag m a r) b r) r) a)"
  using assms by (simp add: TagSet_Tag TagSet_Untag rmem.resolve_tag)

lemma resolver_stale_tag_witness:
  "''v1'' \<in> set (resolver_TagSet (resolver_Tag (resolver_Tag resolver_NewMemory
     (plain_desc [] ''sha256:a'' 1) ''v1'') (plain_desc [] ''sha256:b'' 1) ''v1'') (plain_desc [] ''sha256:a'' 1))"
  using resolver_stale_tag [of "plain_desc [] ''sha256:a'' 1" "plain_desc [] ''sha256:b'' 1"] by simp

end
