(* ===== verification/Oci_Index.thy ===== *)
theory Oci_Index
  imports Graph_Memory Resolver_Memory "HOL-Library.List_Lexorder" "HOL-Library.Char_ord"
begin

text \<open>
  The \<^verbatim>\<open>index.json\<close> of an OCI layout and the tags of a store: \<^verbatim>\<open>saveIndex\<close> of
  \<^verbatim>\<open>content/oci/oci.go\<close>, and \<^verbatim>\<open>loadIndex\<close>, \<^verbatim>\<open>listTags\<close> and \<^verbatim>\<open>deleteAnnotationRefName\<close> of
  \<^verbatim>\<open>content/oci/readonlyoci.go\<close>.

  The file is modelled by the list of manifests it decodes to. Encoding and decoding change a
  descriptor in one way: an empty map of annotations is omitted and comes back as nil
  (\<open>json_desc\<close>). The resolver is saved by two loops over the copy of its map; each loop
  has its own iteration order. Go compares strings byte by byte, which is the lexicographic
  order on lists of characters.
\<close>

section \<open>Operations\<close>

definition deleteAnnotationRefName :: "descriptor \<Rightarrow> descriptor" where
  "deleteAnnotationRefName desc = (case Annotations desc of
     None \<Rightarrow> desc
   | Some m \<Rightarrow>
       if gm_get m oci_AnnotationRefName = None then desc
       else if length m - 1 = 0 then desc\<lparr>Annotations := None\<rparr>
       else desc\<lparr>Annotations := Some (filter (\<lambda>(k, v). k \<noteq> oci_AnnotationRefName) m)\<rparr>)"

definition with_ref_name :: "descriptor \<Rightarrow> string \<Rightarrow> descriptor" where
  "with_ref_name desc ref =
     desc\<lparr>Annotations := Some (gm_put oci_AnnotationRefName ref
       (case Annotations desc of None \<Rightarrow> [] | Some m \<Rightarrow> m))\<rparr>"

text \<open>The manifests that \<^verbatim>\<open>saveIndex\<close> computes from the map of the resolver.\<close>

definition save_tagged :: "descriptor list \<times> string goset \<Rightarrow> string \<times> descriptor \<Rightarrow> descriptor list \<times> string goset" where
  "save_tagged st e = (case (st, e) of ((manifests, tagged), (ref, desc)) \<Rightarrow>
     if ref \<noteq> Digest desc then (manifests @ [with_ref_name desc ref], List.insert (Digest desc) tagged)
     else (manifests, tagged))"

definition save_untagged :: "string goset \<Rightarrow> descriptor list \<Rightarrow> string \<times> descriptor \<Rightarrow> descriptor list" where
  "save_untagged tagged manifests e = (case e of (ref, desc) \<Rightarrow>
     if ref = Digest desc \<and> Digest desc \<notin> set tagged then manifests @ [deleteAnnotationRefName desc]
     else manifests)"

definition index_manifests :: "order \<Rightarrow> order \<Rightarrow> (string, descriptor) gomap \<Rightarrow> descriptor list" where
  "index_manifests o1 o2 refMap =
     (let (manifests, tagged) = foldl save_tagged ([], []) (range_list o1 refMap)
      in foldl (save_untagged tagged) manifests (range_list o2 refMap))"

definition json_desc :: "descriptor \<Rightarrow> descriptor" where
  "json_desc d = (if Annotations d = Some [] then d\<lparr>Annotations := None\<rparr> else d)"

text \<open>\<open>None\<close> means that indexing does not end; otherwise the error, if any, and the new state.\<close>

fun loadIndex :: "ext \<Rightarrow> (descriptor \<Rightarrow> reader res) \<Rightarrow> descriptor list \<Rightarrow> resolver \<Rightarrow> graph \<Rightarrow>
    (error option \<times> resolver \<times> graph) option" where
  "loadIndex P fetcher [] tagger graph = Some (None, tagger, graph)"
| "loadIndex P fetcher (desc # rest) tagger graph =
     (let tagger = resolver_Tag tagger (deleteAnnotationRefName desc) (Digest desc);
          ref = annotation desc oci_AnnotationRefName;
          tagger = (if ref \<noteq> [] then resolver_Tag tagger desc ref else tagger)
      in case graph_IndexAll P fetcher graph (Plain desc) of
           None \<Rightarrow> None
         | Some (Some e, graph) \<Rightarrow> Some (Some e, tagger, graph)
         | Some (None, graph) \<Rightarrow> loadIndex P fetcher rest tagger graph)"

text \<open>The argument that \<^verbatim>\<open>listTags\<close> hands to its callback.\<close>

definition listTags :: "order \<Rightarrow> resolver \<Rightarrow> string \<Rightarrow> string list" where
  "listTags ord tagResolver last' =
     sort (map fst (filter (\<lambda>(tag, desc). \<not> (tag = Digest desc) \<and> \<not> (last' \<noteq> [] \<and> tag \<le> last'))
       (range_list ord (resolver_Map tagResolver))))"

section \<open>Annotations\<close>

lemma FromOCI_deleteAnnotationRefName [simp]: "FromOCI (deleteAnnotationRefName d) = FromOCI d"
  by (simp add: deleteAnnotationRefName_def split: option.splits)

lemma FromOCI_with_ref_name [simp]: "FromOCI (with_ref_name d ref) = FromOCI d"
  by (simp add: with_ref_name_def)

lemma FromOCI_json_desc [simp]: "FromOCI (json_desc d) = FromOCI d"
  by (simp add: json_desc_def)

lemma Digest_cong: "FromOCI a = FromOCI b \<Longrightarrow> Digest a = Digest b"
  by (metis FromOCI_sel(2))

lemma Digest_index_desc [simp]:
  "Digest (deleteAnnotationRefName d) = Digest d" "Digest (with_ref_name d ref) = Digest d"
  "Digest (json_desc d) = Digest d"
  by (rule Digest_cong; simp)+

lemma annotation_with_ref_name [simp]:
  "annotation (json_desc (with_ref_name d ref)) oci_AnnotationRefName = ref"
  by (simp add: json_desc_def annotation_def with_ref_name_def)

lemma annotation_deleted [simp]:
  "annotation (json_desc (deleteAnnotationRefName d)) oci_AnnotationRefName = []"
proof -
  have "map_of (filter (\<lambda>(k, v). k \<noteq> r) m) r = None" for m :: "(string \<times> string) list" and r
    by (auto simp: map_of_eq_None_iff)
  then show ?thesis
    by (auto simp: json_desc_def annotation_def deleteAnnotationRefName_def split: option.splits)
qed

section \<open>Saving and loading the index\<close>

text \<open>What one manifest of the index adds to the resolver, in this order.\<close>

definition index_puts :: "descriptor \<Rightarrow> (string \<times> descriptor) list" where
  "index_puts desc = (Digest desc, deleteAnnotationRefName desc) #
     (let ref = annotation desc oci_AnnotationRefName in if ref \<noteq> [] then [(ref, desc)] else [])"

lemma fold_puts_get:
  "gm_get (foldl (\<lambda>m (k, v). gm_put k v m) m ps) k =
     (case gm_get (rev ps) k of None \<Rightarrow> gm_get m k | Some v \<Rightarrow> Some v)"
  by (induction ps arbitrary: m) (auto simp: map_add_def split: option.splits)

lemma loadIndex_resolver:
  "loadIndex P fetcher ms r g = Some (None, r', g') \<Longrightarrow>
   r_index r' = foldl (\<lambda>m (k, v). gm_put k v m) (r_index r) (concat (map index_puts ms))"
proof (induction ms arbitrary: r g)
  case (Cons d ms)
  let ?r = "let r = resolver_Tag r (deleteAnnotationRefName d) (Digest d);
      ref = annotation d oci_AnnotationRefName in if ref \<noteq> [] then resolver_Tag r d ref else r"
  from Cons.prems obtain g1 where "loadIndex P fetcher ms ?r g1 = Some (None, r', g')"
    by (auto simp: Let_def split: option.splits)
  from Cons.IH [OF this] show ?case by (simp add: index_puts_def Let_def)
qed simp

lemma loadIndex_r_ok:
  "\<lbrakk>loadIndex P fetcher ms r g = Some (e, r', g'); r_ok r\<rbrakk> \<Longrightarrow> r_ok r'"
  by (induction ms arbitrary: r g) (auto simp: Let_def r_ok_Tag split: option.splits if_splits)

lemma save_tagged_fold:
  "foldl save_tagged (ms, tg) es =
     (ms @ map (\<lambda>(ref, d). with_ref_name d ref) (filter (\<lambda>(ref, d). ref \<noteq> Digest d) es),
      foldl (\<lambda>s (ref, d). List.insert (Digest d) s) tg (filter (\<lambda>(ref, d). ref \<noteq> Digest d) es))"
  by (induction es arbitrary: ms tg) (auto simp: save_tagged_def)

lemma save_untagged_fold:
  "foldl (save_untagged tg) ms es =
     ms @ map (\<lambda>(ref, d). deleteAnnotationRefName d) (filter (\<lambda>(ref, d). ref = Digest d \<and> Digest d \<notin> set tg) es)"
  by (induction es arbitrary: ms) (auto simp: save_untagged_def split: if_splits)

lemma set_fold_insert:
  "set (foldl (\<lambda>s (ref, d). List.insert (Digest d) s) tg es) = set tg \<union> (\<lambda>(ref, d). Digest d) ` set es"
  by (induction es arbitrary: tg) auto

lemma image_pairs:
  "(\<lambda>(a, b). f b a) ` {x \<in> S. case x of (a, b) \<Rightarrow> a \<noteq> g b} = {f b a | a b. (a, b) \<in> S \<and> a \<noteq> g b}"
  "(\<lambda>(a, b). h b) ` {x \<in> S. case x of (a, b) \<Rightarrow> a = g b \<and> g b \<notin> T} = {h b | b. (g b, b) \<in> S \<and> g b \<notin> T}"
  "c \<in> (\<lambda>(a, b). g b) ` {x \<in> S. case x of (a, b) \<Rightarrow> a \<noteq> g b} \<longleftrightarrow> (\<exists>a b. (a, b) \<in> S \<and> a \<noteq> g b \<and> g b = c)"
  by force+

lemma set_index_manifests:
  assumes "valid_order o1" "valid_order o2"
  shows "set (index_manifests o1 o2 m) =
      {with_ref_name d ref | ref d. (ref, d) \<in> set m \<and> ref \<noteq> Digest d}
    \<union> {deleteAnnotationRefName d | d. (Digest d, d) \<in> set m
        \<and> \<not> (\<exists>ref d'. (ref, d') \<in> set m \<and> ref \<noteq> Digest d' \<and> Digest d' = Digest d)}"
proof -
  let ?T = "{x \<in> set m. case x of (ref, d) \<Rightarrow> ref \<noteq> Digest d}"
  have "set (index_manifests o1 o2 m) = (\<lambda>(ref, d). with_ref_name d ref) ` ?T \<union>
      (\<lambda>(ref, d). deleteAnnotationRefName d) `
        {x \<in> set m. case x of (ref, d) \<Rightarrow> ref = Digest d \<and> Digest d \<notin> (\<lambda>(ref, d). Digest d) ` ?T}"
    using assms by (simp add: index_manifests_def save_tagged_fold save_untagged_fold set_fold_insert)
  then show ?thesis unfolding image_pairs(2) unfolding image_pairs(3) unfolding image_pairs(1) .
qed

text \<open>
  The tags are saved faithfully when no tag is the digest of another descriptor, a digest
  determines its descriptor up to annotations and the digest of every tagged descriptor is a
  reference too, which \<^verbatim>\<open>tag\<close> makes so.
\<close>

definition index_ok :: "(string, descriptor) gomap \<Rightarrow> bool" where
  "index_ok m \<longleftrightarrow> gm_ok m
     \<and> (\<forall>ref d. (ref, d) \<in> set m \<longrightarrow> ref \<noteq> [] \<and> gm_get m (Digest d) \<noteq> None)
     \<and> (\<forall>ref d ref' d'. (ref, d) \<in> set m \<and> (ref', d') \<in> set m \<longrightarrow>
          (ref = Digest d' \<longrightarrow> ref = Digest d) \<and> (Digest d = Digest d' \<longrightarrow> FromOCI d = FromOCI d'))"

lemma index_okD:
  assumes "index_ok m"
  shows "gm_ok m" "(ref, d) \<in> set m \<Longrightarrow> ref \<noteq> []" "(ref, d) \<in> set m \<Longrightarrow> gm_get m (Digest d) \<noteq> None"
    "\<lbrakk>(ref, d) \<in> set m; (ref', d') \<in> set m; ref = Digest d'\<rbrakk> \<Longrightarrow> ref = Digest d"
    "\<lbrakk>(ref, d) \<in> set m; (ref', d') \<in> set m; Digest d = Digest d'\<rbrakk> \<Longrightarrow> FromOCI d = FromOCI d'"
  using assms unfolding index_ok_def by blast+

lemma index_puts_saved:
  "ref \<noteq> [] \<Longrightarrow> index_puts (json_desc (with_ref_name d ref)) =
     [(Digest d, deleteAnnotationRefName (json_desc (with_ref_name d ref))), (ref, json_desc (with_ref_name d ref))]"
  "index_puts (json_desc (deleteAnnotationRefName d)) =
     [(Digest d, deleteAnnotationRefName (json_desc (deleteAnnotationRefName d)))]"
  by (simp_all add: index_puts_def)

text \<open>Everything that loading a saved index puts is an entry of the saved map, up to annotations.\<close>

lemma saved_puts_sound:
  assumes "index_ok m" "valid_order o1" "valid_order o2"
    and "(k, v) \<in> set (concat (map index_puts (map json_desc (index_manifests o1 o2 m))))"
  shows "\<exists>d. gm_get m k = Some d \<and> FromOCI d = FromOCI v"
proof -
  have get: "gm_get m r = Some d \<longleftrightarrow> (r, d) \<in> set m" for r d
    by (rule gm_get_in_set [OF index_okD(1) [OF assms(1)]])
  have dig: "\<exists>d'. gm_get m (Digest d) = Some d' \<and> FromOCI d' = FromOCI d" if "(r, d) \<in> set m" for r d
  proof -
    from index_okD(3) [OF assms(1) that] obtain d' where d': "gm_get m (Digest d) = Some d'" by blast
    then have in_m: "(Digest d, d') \<in> set m" by (simp add: get)
    have "Digest d' = Digest d" using index_okD(4) [OF assms(1) in_m that] by simp
    from index_okD(5) [OF assms(1) in_m that this] d' show ?thesis by blast
  qed
  from assms(4) obtain x where x: "x \<in> set (index_manifests o1 o2 m)" "(k, v) \<in> set (index_puts (json_desc x))"
    by auto
  from x(1) consider (tag) ref d where "x = with_ref_name d ref" "(ref, d) \<in> set m" "ref \<noteq> Digest d"
    | (dig) d where "x = deleteAnnotationRefName d" "(Digest d, d) \<in> set m"
    unfolding set_index_manifests [OF assms(2,3)] by blast
  then show ?thesis
  proof cases
    case tag
    with index_okD(2) [OF assms(1)] have "ref \<noteq> []" by blast
    with x(2) tag dig [OF tag(2)] get show ?thesis by (auto simp: index_puts_saved)
  next
    case dig
    with x(2) get show ?thesis by (auto simp: index_puts_saved)
  qed
qed

lemma saved_puts_complete:
  assumes "index_ok m" "valid_order o1" "valid_order o2" "gm_get m k = Some d"
  shows "\<exists>v. (k, v) \<in> set (concat (map index_puts (map json_desc (index_manifests o1 o2 m))))"
proof -
  have kd: "(k, d) \<in> set m" "k \<noteq> []"
    using assms(4) index_okD(2) [OF assms(1)] by (auto simp: gm_get_in_set [OF index_okD(1) [OF assms(1)]])
  consider (tag) "k \<noteq> Digest d"
    | (tagged) ref d' where "(ref, d') \<in> set m" "ref \<noteq> Digest d'" "Digest d' = Digest d" "k = Digest d"
    | (untagged) "k = Digest d" "\<not> (\<exists>ref d'. (ref, d') \<in> set m \<and> ref \<noteq> Digest d' \<and> Digest d' = Digest d)"
    by blast
  then show ?thesis
  proof cases
    case tag
    with kd have "with_ref_name d k \<in> set (index_manifests o1 o2 m)"
      unfolding set_index_manifests [OF assms(2,3)] by blast
    with kd(2) show ?thesis by (force simp: index_puts_saved(1))
  next
    case tagged
    then have "with_ref_name d' ref \<in> set (index_manifests o1 o2 m)"
      unfolding set_index_manifests [OF assms(2,3)] by blast
    moreover have "ref \<noteq> []" using index_okD(2) [OF assms(1) tagged(1)] .
    ultimately show ?thesis using tagged by (force simp: index_puts_saved(1))
  next
    case untagged
    with kd have "deleteAnnotationRefName d \<in> set (index_manifests o1 o2 m)"
      unfolding set_index_manifests [OF assms(2,3)] by blast
    with untagged(1) show ?thesis by (force simp: index_puts_saved(2))
  qed
qed

definition index_refs :: "descriptor list \<Rightarrow> (string, descriptor) gomap" where
  "index_refs ms = rev (concat (map index_puts ms))"

lemma loadIndex_get:
  "loadIndex P fetcher ms resolver_NewMemory g = Some (None, r', g') \<Longrightarrow>
   gm_get (r_index r') ref = gm_get (index_refs ms) ref"
  by (simp add: loadIndex_resolver index_refs_def fold_puts_get resolver_NewMemory_def split: option.splits)

text \<open>The manifests of an index have the references \<open>m\<close>.\<close>

definition index_saves :: "descriptor list \<Rightarrow> (string \<rightharpoonup> key) \<Rightarrow> bool" where
  "index_saves ms m \<longleftrightarrow> (\<forall>k v. (k, v) \<in> set (index_refs ms) \<longrightarrow> m k = Some (FromOCI v))
     \<and> (\<forall>k. m k \<noteq> None \<longrightarrow> k \<in> fst ` set (index_refs ms))"

lemma index_saves_get:
  assumes "index_saves ms m"
  shows "map_option FromOCI (gm_get (index_refs ms) k) = m k"
proof (cases "gm_get (index_refs ms) k")
  case None
  then have "k \<notin> fst ` set (index_refs ms)" by (simp add: gm_in_keys)
  with assms have "m k = None" unfolding index_saves_def by blast
  with None show ?thesis by simp
next
  case (Some v)
  then have "(k, v) \<in> set (index_refs ms)" by (rule map_of_SomeD)
  with assms have "m k = Some (FromOCI v)" unfolding index_saves_def by blast
  with Some show ?thesis by simp
qed

lemma index_saves_manifests:
  assumes "index_ok m" "valid_order o1" "valid_order o2"
  shows "index_saves (map json_desc (index_manifests o1 o2 m)) (\<lambda>ref. map_option FromOCI (gm_get m ref))"
proof -
  have "map_option FromOCI (gm_get m k) = Some (FromOCI v)"
    if "(k, v) \<in> set (index_refs (map json_desc (index_manifests o1 o2 m)))" for k v
    using saved_puts_sound [OF assms, of k v] that by (auto simp: index_refs_def)
  moreover have "k \<in> fst ` set (index_refs (map json_desc (index_manifests o1 o2 m)))"
    if "gm_get m k = Some d" for k d
    using saved_puts_complete [OF assms that] unfolding index_refs_def set_rev by force
  ultimately show ?thesis unfolding index_saves_def by blast
qed

lemma index_roundtrip_get:
  assumes "index_ok m" "valid_order o1" "valid_order o2"
    and "loadIndex P fetcher (map json_desc (index_manifests o1 o2 m)) resolver_NewMemory g = Some (None, r', g')"
  shows "map_option FromOCI (gm_get (r_index r') ref) = map_option FromOCI (gm_get m ref)"
  by (simp only: loadIndex_get [OF assms(4)] index_saves_get [OF index_saves_manifests [OF assms(1-3)]])

section \<open>Listing tags\<close>

lemma listTags_set:
  assumes "gm_ok (r_index r)" "valid_order ord"
  shows "sorted (listTags ord r last') \<and> distinct (listTags ord r last') \<and>
    set (listTags ord r last') =
      {t. \<exists>d. gm_get (r_index r) t = Some d \<and> t \<noteq> Digest d \<and> (last' = [] \<or> last' < t)}"
proof -
  let ?es = "range_list ord (r_index r)"
  have "distinct (map fst ?es)"
    using assms by (simp add: gm_ok_def) (metis distinct_range_list mset_eq_imp_distinct_iff mset_map mset_range_list)
  then have "distinct (map fst (filter Q ?es))" for Q by (rule distinct_map_filter)
  moreover have "set (map fst (filter (\<lambda>(tag, desc). \<not> (tag = Digest desc) \<and> \<not> (last' \<noteq> [] \<and> tag \<le> last')) ?es))
      = {t. \<exists>d. gm_get (r_index r) t = Some d \<and> t \<noteq> Digest d \<and> (last' = [] \<or> last' < t)}"
    using assms by (auto simp: gm_get_in_set image_iff not_le)
  ultimately show ?thesis by (simp add: listTags_def resolver_Map_def)
qed

text \<open>
  C31. \<^verbatim>\<open>Tags\<close> returns exactly the references that are not digests and come after \<open>last\<close>, in
  strictly ascending order, whatever the iteration order of the map; and paging is exact:
  asking again with the last tag of a page returns the rest of the list.
\<close>

theorem listTags_paging:
  assumes "gm_ok (r_index r)" "valid_order ord" "valid_order ord'"
  shows "sorted (listTags ord r last') \<and> distinct (listTags ord r last') \<and>
    set (listTags ord r last') =
      {t. \<exists>d. gm_get (r_index r) t = Some d \<and> t \<noteq> Digest d \<and> (last' = [] \<or> last' < t)}
    \<and> (\<forall>xs t ys. listTags ord r last' = xs @ t # ys \<and> t \<noteq> [] \<longrightarrow> listTags ord' r t = ys)"
proof (intro conjI allI impI)
  note L = listTags_set [OF assms(1,2), of last']
  from L show "sorted (listTags ord r last')" "distinct (listTags ord r last')"
    "set (listTags ord r last') =
      {t. \<exists>d. gm_get (r_index r) t = Some d \<and> t \<noteq> Digest d \<and> (last' = [] \<or> last' < t)}" by blast+
  fix xs t ys assume a: "listTags ord r last' = xs @ t # ys \<and> t \<noteq> []"
  then have eq: "listTags ord r last' = xs @ t # ys" by blast
  from L have s: "sorted (xs @ t # ys)" "distinct (xs @ t # ys)" unfolding eq by blast+
  then have ord: "\<forall>x\<in>set xs. x < t" "\<forall>y\<in>set ys. t < y"
    by (auto simp: sorted_append order.strict_iff_order)
  have S0: "set (xs @ t # ys) = {t. \<exists>d. gm_get (r_index r) t = Some d \<and> t \<noteq> Digest d \<and> (last' = [] \<or> last' < t)}"
    using L unfolding eq by blast
  have S: "set (listTags ord' r t) = {x. \<exists>d. gm_get (r_index r) x = Some d \<and> x \<noteq> Digest d \<and> t < x}"
    using listTags_set [OF assms(1,3), of t] a by simp
  have "t \<in> set (xs @ t # ys)" by simp
  then have "last' = [] \<or> last' < t" unfolding S0 by blast
  then have "set (listTags ord' r t) = {x \<in> set (xs @ t # ys). t < x}"
    unfolding S S0 using less_trans by blast
  also have "\<dots> = set ys" using ord by auto
  finally show "listTags ord' r t = ys"
    using listTags_set [OF assms(1,3), of t] s by (intro sorted_distinct_set_unique) (auto simp: sorted_append)
qed

theorem listTags_paging_witness:
  "listTags id_order (resolver_Tag (resolver_Tag resolver_NewMemory empty_descriptor ''v2'')
     empty_descriptor ''v1'') ''v1'' = [''v2'']"
proof -
  let ?r = "resolver_Tag (resolver_Tag resolver_NewMemory empty_descriptor ''v2'') empty_descriptor ''v1''"
  have ok: "gm_ok (r_index ?r)" using r_ok_Tag [OF r_ok_Tag [OF r_ok_empty]] by (simp add: r_ok_def)
  have "listTags id_order ?r [] = [] @ ''v1'' # [''v2'']"
    by (simp add: listTags_def resolver_Map_def resolver_NewMemory_def empty_descriptor_def less_eq_char_def)
  with listTags_paging [OF ok valid_id_order valid_id_order, of "[]"] show ?thesis by blast
qed


lemma index_all_leaf:
  assumes "Successors P fetch d = Inr []"
  shows "graph_IndexAll P fetch g d = Some (None, graph_add g d [])"
  using assms
  by (simp add: graph_IndexAll_def index_all_loop.simps [of P fetch "[d]"] index_all_loop.simps [of P fetch "[]"]
      graph_index_def)


end
