(* ===== verification/Oci_Store.thy ===== *)
theory Oci_Store
  imports Oci_Storage Oci_Index
begin

text \<open>
  \<^verbatim>\<open>content/oci/oci.go\<close> and the store of \<^verbatim>\<open>content/oci/readonlyoci.go\<close>: the OCI layout store,
  with the storage of \<open>Oci_Storage\<close>, the memory resolver and the memory graph. Garbage
  collection is in \<open>Oci_GC\<close>.

  The state has the blob files, the two other files of the layout as they decode, the index
  in memory, the resolver, the graph and the two options. Operations that range over maps
  take a family of iteration orders, one for each \<^verbatim>\<open>range\<close> statement they run.
  The locks make \<^verbatim>\<open>Delete\<close> exclusive and the saving of the index atomic.
\<close>

record ocistore =
  os_fs :: files
  os_layout :: "string res option"
  os_file :: "descriptor list res option"
  os_index :: "descriptor list"
  os_resolver :: resolver
  os_graph :: graph
  os_AutoSaveIndex :: bool
  os_AutoGC :: bool

section \<open>Opening a store\<close>

definition ImageLayoutVersion :: string where
  "ImageLayoutVersion = ''1.0.0''"

definition validateOCILayout :: "string \<Rightarrow> unit res" where
  "validateOCILayout version =
     (if version \<noteq> ImageLayoutVersion then Inl ErrUnsupportedVersion else Inr ())"

definition ensureOCILayoutFile :: "ocistore \<Rightarrow> unit res \<times> ocistore" where
  "ensureOCILayoutFile s = (case os_layout s of
     None \<Rightarrow> (Inr (), s\<lparr>os_layout := Some (Inr ImageLayoutVersion)\<rparr>)
   | Some (Inl e) \<Rightarrow> (Inl e, s)
   | Some (Inr version) \<Rightarrow> (validateOCILayout version, s))"

definition writeIndexFile :: "ocistore \<Rightarrow> ocistore" where
  "writeIndexFile s = s\<lparr>os_file := Some (Inr (map json_desc (os_index s)))\<rparr>"

definition loadIndexFile :: "ext \<Rightarrow> ocistore \<Rightarrow> (unit res \<times> ocistore) option" where
  "loadIndexFile P s = (case os_file s of
     None \<Rightarrow> Some (Inr (), writeIndexFile (s\<lparr>os_index := []\<rparr>))
   | Some (Inl e) \<Rightarrow> Some (Inl e, s)
   | Some (Inr manifests) \<Rightarrow>
       (case loadIndex P (oci_Fetch P (os_fs s)) manifests (os_resolver s) (os_graph s) of
          None \<Rightarrow> None
        | Some (e, r, g) \<Rightarrow>
            Some (case e of None \<Rightarrow> Inr () | Some e \<Rightarrow> Inl e,
                  s\<lparr>os_index := manifests, os_resolver := r, os_graph := g\<rparr>)))"

definition os_NewWithContext :: "ext \<Rightarrow> files \<Rightarrow> string res option \<Rightarrow> descriptor list res option \<Rightarrow>
    (unit res \<times> ocistore) option" where
  "os_NewWithContext P fs layout file =
     (let store = \<lparr>os_fs = fs, os_layout = layout, os_file = file, os_index = [],
         os_resolver = resolver_NewMemory, os_graph = graph_NewMemory,
         os_AutoSaveIndex = True, os_AutoGC = True\<rparr>
      in case ensureOCILayoutFile store of
           (Inl e, store) \<Rightarrow> Some (Inl e, store)
         | (Inr _, store) \<Rightarrow> loadIndexFile P store)"

text \<open>The read-only store requires both files.\<close>

definition os_NewFromFS :: "ext \<Rightarrow> files \<Rightarrow> string res option \<Rightarrow> descriptor list res option \<Rightarrow>
    (resolver \<times> graph) res option" where
  "os_NewFromFS P fs layout file = (case layout of
     None \<Rightarrow> Some (Inl ErrNotFound)
   | Some (Inl e) \<Rightarrow> Some (Inl e)
   | Some (Inr version) \<Rightarrow> (case validateOCILayout version of
       Inl e \<Rightarrow> Some (Inl e)
     | Inr _ \<Rightarrow> (case file of
         None \<Rightarrow> Some (Inl ErrNotFound)
       | Some (Inl e) \<Rightarrow> Some (Inl e)
       | Some (Inr manifests) \<Rightarrow>
           (case loadIndex P (oci_Fetch P fs) manifests resolver_NewMemory graph_NewMemory of
              None \<Rightarrow> None
            | Some (Some e, _) \<Rightarrow> Some (Inl e)
            | Some (None, r, g) \<Rightarrow> Some (Inr (r, g))))))"

section \<open>Operations\<close>

definition os_saveIndex :: "(nat \<Rightarrow> order) \<Rightarrow> ocistore \<Rightarrow> ocistore" where
  "os_saveIndex ords s =
     writeIndexFile (s\<lparr>os_index := index_manifests (ords 0) (ords 1) (resolver_Map (os_resolver s))\<rparr>)"

definition os_tag :: "(nat \<Rightarrow> order) \<Rightarrow> ocistore \<Rightarrow> descriptor \<Rightarrow> string \<Rightarrow> ocistore" where
  "os_tag ords s desc reference =
     (let dgst = Digest desc;
          s = (if reference \<noteq> dgst then s\<lparr>os_resolver := resolver_Tag (os_resolver s) desc dgst\<rparr> else s);
          s = s\<lparr>os_resolver := resolver_Tag (os_resolver s) desc reference\<rparr>
      in if os_AutoSaveIndex s then os_saveIndex ords s else s)"

definition os_Fetch :: "ext \<Rightarrow> ocistore \<Rightarrow> descriptor \<Rightarrow> reader res" where
  "os_Fetch P s target = oci_Fetch P (os_fs s) target"

definition os_Exists :: "ext \<Rightarrow> ocistore \<Rightarrow> descriptor \<Rightarrow> bool res" where
  "os_Exists P s target = oci_Exists P (os_fs s) target"

definition os_Push :: "ext \<Rightarrow> (nat \<Rightarrow> order) \<Rightarrow> ocistore \<Rightarrow> descriptor \<Rightarrow> reader \<Rightarrow> unit res \<times> ocistore" where
  "os_Push P ords s expected reader = (case oci_Push P (os_fs s) expected reader of
     (Inl e, fs) \<Rightarrow> (Inl e, s\<lparr>os_fs := fs\<rparr>)
   | (Inr _, fs) \<Rightarrow>
       (case graph_Index P (oci_Fetch P fs) (os_graph s) expected of
          (Inl e, g) \<Rightarrow> (Inl e, s\<lparr>os_fs := fs, os_graph := g\<rparr>)
        | (Inr _, g) \<Rightarrow>
            (let s = s\<lparr>os_fs := fs, os_graph := g\<rparr>
             in if IsManifest expected then (Inr (), os_tag ords s expected (Digest expected))
                else (Inr (), s))))"

definition validateReference :: "string \<Rightarrow> unit res" where
  "validateReference ref = (if ref = [] then Inl ErrMissingReference else Inr ())"

definition os_Tag :: "ext \<Rightarrow> (nat \<Rightarrow> order) \<Rightarrow> ocistore \<Rightarrow> descriptor \<Rightarrow> string \<Rightarrow> unit res \<times> ocistore" where
  "os_Tag P ords s desc reference = (case validateReference reference of
     Inl e \<Rightarrow> (Inl e, s)
   | Inr _ \<Rightarrow> (case oci_Exists P (os_fs s) desc of
       Inl e \<Rightarrow> (Inl e, s)
     | Inr exists \<Rightarrow>
         if \<not> exists then (Inl ErrNotFound, s)
         else (Inr (), os_tag ords s desc reference)))"

definition resolveBlob :: "ext \<Rightarrow> files \<Rightarrow> string \<Rightarrow> descriptor res" where
  "resolveBlob P fs dgst = (case blobPath P dgst of
     Inl e \<Rightarrow> if e = ErrInvalidDigest then Inl ErrNotFound else Inl e
   | Inr path \<Rightarrow> (case gm_get fs path of
       None \<Rightarrow> Inl ErrNotFound
     | Some b \<Rightarrow> Inr (plain_desc DefaultMediaType dgst (int (length b)))))"

text \<open>\<^verbatim>\<open>Resolve\<close> of the store and of the read-only store.\<close>

definition oci_Resolve :: "ext \<Rightarrow> files \<Rightarrow> resolver \<Rightarrow> string \<Rightarrow> descriptor res" where
  "oci_Resolve P fs tagResolver reference =
     (if reference = [] then Inl ErrMissingReference
      else case resolver_Resolve tagResolver reference of
        Inl e \<Rightarrow> if e = ErrNotFound then resolveBlob P fs reference else Inl e
      | Inr desc \<Rightarrow> if reference = Digest desc then Inr (Plain desc) else Inr desc)"

definition os_Resolve :: "ext \<Rightarrow> ocistore \<Rightarrow> string \<Rightarrow> descriptor res" where
  "os_Resolve P s reference = oci_Resolve P (os_fs s) (os_resolver s) reference"

definition os_Untag :: "(nat \<Rightarrow> order) \<Rightarrow> ocistore \<Rightarrow> string \<Rightarrow> unit res \<times> ocistore" where
  "os_Untag ords s reference =
     (if reference = [] then (Inl ErrMissingReference, s)
      else case resolver_Resolve (os_resolver s) reference of
        Inl e \<Rightarrow> (Inl e, s)
      | Inr desc \<Rightarrow>
          if reference = Digest desc then (Inl ErrInvalidReference, s)
          else (let s = s\<lparr>os_resolver := resolver_Untag (os_resolver s) reference\<rparr>
                in (Inr (), if os_AutoSaveIndex s then os_saveIndex ords s else s)))"

definition os_Predecessors :: "ocistore \<Rightarrow> order \<Rightarrow> descriptor \<Rightarrow> descriptor list res" where
  "os_Predecessors s ord node = Inr (graph_Predecessors (os_graph s) ord node)"

definition os_Tags :: "order \<Rightarrow> ocistore \<Rightarrow> string \<Rightarrow> string list" where
  "os_Tags ord s last' = listTags ord (os_resolver s) last'"

definition os_isTagged :: "ocistore \<Rightarrow> descriptor \<Rightarrow> bool" where
  "os_isTagged s desc =
     (let tagSet = resolver_TagSet (os_resolver s) desc
      in if Digest desc \<in> set tagSet then length tagSet > 1 else length tagSet > 0)"

section \<open>Deleting\<close>

lemma os_saveIndex_sel [simp]:
  "os_fs (os_saveIndex ords s) = os_fs s" "os_resolver (os_saveIndex ords s) = os_resolver s"
  "os_graph (os_saveIndex ords s) = os_graph s" "os_AutoGC (os_saveIndex ords s) = os_AutoGC s"
  "os_AutoSaveIndex (os_saveIndex ords s) = os_AutoSaveIndex s"
  "os_layout (os_saveIndex ords s) = os_layout s"
  "os_file (os_saveIndex ords s) =
     Some (Inr (map json_desc (index_manifests (ords 0) (ords 1) (r_index (os_resolver s)))))"
  by (simp_all add: os_saveIndex_def writeIndexFile_def resolver_Map_def)

text \<open>
  Deletion of one node: the references to it are removed and it is taken out of the graph
  (\<open>os_unindex\<close>), and then its blob is removed. The orders are for the map of references, the
  graph and the index.
\<close>

definition os_unindex :: "(nat \<Rightarrow> order) \<Rightarrow> ocistore \<Rightarrow> descriptor \<Rightarrow> descriptor list \<times> ocistore" where
  "os_unindex ords s target =
     (let refs = map fst (filter (\<lambda>(reference, desc). Equal desc target)
            (range_list (ords 0) (resolver_Map (os_resolver s))));
          s = s\<lparr>os_resolver := foldl resolver_Untag (os_resolver s) refs\<rparr>;
          (danglings, g) = graph_Remove (os_graph s) (ords 1) target;
          s = s\<lparr>os_graph := g\<rparr>
      in (danglings,
          if refs \<noteq> [] \<and> os_AutoSaveIndex s then os_saveIndex (\<lambda>i. ords (i + 2)) s else s))"

definition os_delete :: "ext \<Rightarrow> (nat \<Rightarrow> order) \<Rightarrow> ocistore \<Rightarrow> descriptor \<Rightarrow> descriptor list res \<times> ocistore" where
  "os_delete P ords s target =
     (let (danglings, s) = os_unindex ords s target
      in case oci_Delete P (os_fs s) target of
           (Inl e, _) \<Rightarrow> (Inl e, s)
         | (Inr _, fs) \<Rightarrow> (Inr danglings, s\<lparr>os_fs := fs\<rparr>))"

lemma os_unindex_sel [simp]:
  "os_fs (snd (os_unindex ords s d)) = os_fs s" "os_AutoGC (snd (os_unindex ords s d)) = os_AutoGC s"
  "os_AutoSaveIndex (snd (os_unindex ords s d)) = os_AutoSaveIndex s"
  "os_graph (snd (os_unindex ords s d)) = snd (graph_Remove (os_graph s) (ords 1) d)"
  "fst (os_unindex ords s d) = fst (graph_Remove (os_graph s) (ords 1) d)"
  "os_resolver (snd (os_unindex ords s d)) = foldl resolver_Untag (os_resolver s)
     (map fst (filter (\<lambda>(reference, desc). Equal desc d) (range_list (ords 0) (r_index (os_resolver s)))))"
  by (simp_all add: os_unindex_def Let_def resolver_Map_def split: prod.split)

lemma os_delete_eq:
  "os_delete P ords s d = (case oci_Delete P (os_fs s) d of
     (Inl e, _) \<Rightarrow> (Inl e, snd (os_unindex ords s d))
   | (Inr _, fs) \<Rightarrow> (Inr (fst (os_unindex ords s d)), (snd (os_unindex ords s d))\<lparr>os_fs := fs\<rparr>))"
  by (simp add: os_delete_def split_beta split: sum.splits)

lemma oci_Delete_length: "oci_Delete P fs d = (Inr x, fs') \<Longrightarrow> length fs' < length fs"
proof -
  assume "oci_Delete P fs d = (Inr x, fs')"
  then obtain p b where "gm_get fs p = Some b" "fs' = gm_del p fs"
    by (auto simp: oci_Delete_def split: sum.splits option.splits)
  then have "p \<in> set (map fst fs)" by (simp add: gm_in_keys)
  then have "length (map fst (gm_del p fs)) < length (map fst fs)"
    unfolding delete_keys by (rule length_removeAll_less)
  with \<open>fs' = _\<close> show ?thesis by simp
qed

lemma os_delete_length: "os_delete P ords s d = (Inr x, s') \<Longrightarrow> length (os_fs s') < length (os_fs s)"
  using oci_Delete_length [of P "os_fs s" d]
  by (auto simp: os_delete_eq split: prod.splits sum.splits)

text \<open>
  The loop of \<^verbatim>\<open>Delete\<close>. It ends because every round removes a blob file. In round \<open>n\<close> the
  order \<open>ords n 0\<close> is for the predecessors and the others are for \<open>os_delete\<close>.
\<close>

function os_Delete_loop :: "ext \<Rightarrow> (nat \<Rightarrow> nat \<Rightarrow> order) \<Rightarrow> nat \<Rightarrow> ocistore \<Rightarrow> descriptor list \<Rightarrow>
    unit res \<times> ocistore" where
  "os_Delete_loop P ords n s [] = (Inr (), s)"
| "os_Delete_loop P ords n s (head # queue) =
     (case (if os_AutoGC s \<and> IsManifest head
            then Referrers P None (os_Fetch P s) (os_Predecessors s (ords n 0)) head []
            else Inr []) of
        Inl e \<Rightarrow> (Inl e, s)
      | Inr referrers \<Rightarrow>
          (case os_delete P (\<lambda>i. ords n (i + 1)) s head of
             (Inl e, s') \<Rightarrow> (Inl e, s')
           | (Inr danglings, s') \<Rightarrow>
               os_Delete_loop P ords (n + 1) s'
                 (queue @ referrers @
                  (if os_AutoGC s' then filter (\<lambda>d. \<not> os_isTagged s' d) danglings else []))))"
  by pat_completeness auto
termination
  by (relation "measure (\<lambda>(P, ords, n, s, q). length (os_fs s))") (auto dest!: sym [of _ "os_delete _ _ _ _"] dest: os_delete_length)

definition os_Delete :: "ext \<Rightarrow> (nat \<Rightarrow> nat \<Rightarrow> order) \<Rightarrow> ocistore \<Rightarrow> descriptor \<Rightarrow> unit res \<times> ocistore" where
  "os_Delete P ords s target = os_Delete_loop P ords 0 s [target]"

section \<open>References after a deletion\<close>

lemma foldl_Untag_get:
  "gm_get (r_index (foldl resolver_Untag r refs)) ref = (if ref \<in> set refs then None else gm_get (r_index r) ref)"
  by (induction refs arbitrary: r) auto

lemma foldl_Untag_ok: "r_ok r \<Longrightarrow> r_ok (foldl resolver_Untag r refs)"
  by (induction refs arbitrary: r) (auto intro: r_ok_Untag)

lemma r_ok_gm: "r_ok r \<Longrightarrow> gm_ok (r_index r)"
  by (simp add: r_ok_def)

text \<open>Exactly the references to the deleted node are removed.\<close>

lemma os_unindex_get:
  assumes "r_ok (os_resolver s)" "valid_order (ords 0)"
  shows "gm_get (r_index (os_resolver (snd (os_unindex ords s d)))) ref =
    (case gm_get (r_index (os_resolver s)) ref of
       None \<Rightarrow> None | Some x \<Rightarrow> if FromOCI x = FromOCI d then None else Some x)"
proof -
  let ?m = "r_index (os_resolver s)"
  have "ref \<in> set (map fst (filter (\<lambda>(reference, desc). Equal desc d) (range_list (ords 0) ?m))) \<longleftrightarrow>
      (\<exists>x. gm_get ?m ref = Some x \<and> Equal x d)"
    unfolding gm_get_in_set [OF r_ok_gm [OF assms(1)]] using assms(2) by force
  then show ?thesis
    unfolding os_unindex_sel foldl_Untag_get by (auto simp: FromOCI_eq_iff split: option.splits)
qed

lemma os_unindex_r_ok: "r_ok (os_resolver s) \<Longrightarrow> r_ok (os_resolver (snd (os_unindex ords s d)))"
  by (simp add: foldl_Untag_ok)

section \<open>The invariant\<close>

text \<open>The successors of an indexed manifest are those of a content with its digest.\<close>

definition node_faithful :: "ext \<Rightarrow> descriptor \<Rightarrow> key set \<Rightarrow> bool" where
  "node_faithful P d ks \<longleftrightarrow>
     (if IsManifest d
      then \<exists>b ss. dg_verify P (Digest d) b \<and> decode_successors P d b = Inr ss \<and> ks = FromOCI ` set ss
      else ks = {})"

definition g_faithful :: "ext \<Rightarrow> graph \<Rightarrow> bool" where
  "g_faithful P g \<longleftrightarrow>
     (\<forall>k d. gm_get (g_nodes g) k = Some d \<longrightarrow> node_faithful P d (set (gset (g_succs g) k)))"

definition os_inv :: "ext \<Rightarrow> ocistore \<Rightarrow> bool" where
  "os_inv P s \<longleftrightarrow> oci_inv P (os_fs s) \<and> r_ok (os_resolver s) \<and> g_ok (os_graph s) \<and> g_faithful P (os_graph s)"

lemma os_invD:
  assumes "os_inv P s"
  shows "oci_inv P (os_fs s)" "r_ok (os_resolver s)" "g_ok (os_graph s)" "g_faithful P (os_graph s)"
  using assms by (auto simp: os_inv_def)

lemma node_faithful_unique:
  assumes "collision_free P" "node_faithful P d ks" "node_faithful P d' ks'" "FromOCI d = FromOCI d'"
  shows "ks = ks'"
proof -
  from assms(4) have mt: "MediaType d = MediaType d'" "Digest d = Digest d'" by (simp_all add: FromOCI_def)
  from assms(1) have "b = b'" if "dg_verify P (Digest d) b" "dg_verify P (Digest d) b'" for b b'
    using that unfolding collision_free_def by blast
  with assms(2,3) mt IsManifest_cong [OF mt(1)] decode_successors_cong [OF mt(1), of P] show ?thesis
    unfolding node_faithful_def by (metis Inr_inject)
qed

lemma oci_Successors_faithful:
  assumes "Successors P (oci_Fetch P fs) d = Inr ss"
  shows "node_faithful P d (FromOCI ` set ss)"
proof (cases "IsManifest d")
  case True
  with assms obtain b where "FetchAll P (oci_Fetch P fs) d = Inr b" "decode_successors P d b = Inr ss"
    by (auto simp: Successors_eq split: sum.splits)
  with ocist.FetchAll_verified [of P fs d b] True show ?thesis
    by (auto simp: oci_storage_def node_faithful_def)
next
  case False
  with assms show ?thesis by (simp add: Successors_eq node_faithful_def)
qed

lemma graph_add_faithful:
  assumes "collision_free P" "g_ok g" "g_faithful P g" "node_faithful P d (FromOCI ` set ss)"
  shows "g_ok (graph_add g d ss) \<and> g_faithful P (graph_add g d ss)"
proof
  have "set (gset (g_succs g) (FromOCI d)) \<subseteq> FromOCI ` set ss"
  proof (cases "gm_get (g_nodes g) (FromOCI d)")
    case None
    with g_edges_nodes [OF assms(2)] show ?thesis by blast
  next
    case (Some d')
    with assms(2) have "FromOCI d' = FromOCI d" by (simp add: g_ok_def)
    from node_faithful_unique [OF assms(1) _ assms(4) this] assms(3) Some show ?thesis
      unfolding g_faithful_def by blast
  qed
  with assms(2) show "g_ok (graph_add g d ss)" by (rule g_ok_add)
  show "g_faithful P (graph_add g d ss)"
    using assms(3,4) unfolding g_faithful_def by (simp add: graph_add_sel)
qed

lemma graph_Index_ok:
  assumes "collision_free P" "g_ok g" "g_faithful P g"
  shows "g_ok (snd (graph_Index P (oci_Fetch P fs) g d))" "g_faithful P (snd (graph_Index P (oci_Fetch P fs) g d))"
  using graph_add_faithful [OF assms oci_Successors_faithful, of fs d] assms
  by (simp_all add: graph_Index_def graph_index_def split: sum.splits prod.splits)

lemma g_faithful_Remove:
  "\<lbrakk>g_ok g; valid_order ord; g_faithful P g\<rbrakk> \<Longrightarrow> g_faithful P (snd (graph_Remove g ord d))"
  by (simp add: graph_Remove_eq g_faithful_def)

lemma os_tag_sel [simp]:
  "os_fs (os_tag ords s d r) = os_fs s" "os_graph (os_tag ords s d r) = os_graph s"
  "os_AutoGC (os_tag ords s d r) = os_AutoGC s" "os_AutoSaveIndex (os_tag ords s d r) = os_AutoSaveIndex s"
  "os_resolver (os_tag ords s d r) =
     resolver_Tag (if r \<noteq> Digest d then resolver_Tag (os_resolver s) d (Digest d) else os_resolver s) d r"
  by (simp_all add: os_tag_def Let_def)

lemma os_tag_inv: "os_inv P s \<Longrightarrow> os_inv P (os_tag ords s d r)"
  by (simp add: os_inv_def r_ok_Tag)

lemma os_Push_inv:
  assumes "collision_free P" "os_inv P s"
  shows "os_inv P (snd (os_Push P ords s d r))"
proof (cases "oci_Push P (os_fs s) d r")
  case (Pair x fs)
  have fs: "oci_inv P fs"
    using oci_PushAt_inv [OF os_invD(1) [OF assms(2)], of "os_fs s" d r] Pair by (simp add: oci_Push_def)
  obtain y g where gi: "graph_Index P (oci_Fetch P fs) (os_graph s) d = (y, g)"
    by (cases "graph_Index P (oci_Fetch P fs) (os_graph s) d")
  have "g_ok g" "g_faithful P g"
    using graph_Index_ok [OF assms(1) os_invD(3,4) [OF assms(2)], of fs d] gi by simp_all
  with fs assms(2) have "os_inv P (s\<lparr>os_fs := fs\<rparr>)" "os_inv P (s\<lparr>os_fs := fs, os_graph := g\<rparr>)"
    by (simp_all add: os_inv_def)
  with os_tag_inv show ?thesis
    by (simp add: os_Push_def Pair gi Let_def split: sum.splits)
qed

lemma os_Tag_inv: "os_inv P s \<Longrightarrow> os_inv P (snd (os_Tag P ords s d r))"
  by (simp add: os_Tag_def os_tag_inv split: sum.splits)

lemma os_Untag_inv: "os_inv P s \<Longrightarrow> os_inv P (snd (os_Untag ords s r))"
  by (simp add: os_Untag_def os_inv_def Let_def r_ok_Untag split: sum.splits)

lemma os_delete_inv:
  assumes "os_inv P s" "\<And>i. valid_order (ords i)"
  shows "os_inv P (snd (os_delete P ords s d))"
proof -
  have "os_inv P (snd (os_unindex ords s d))"
    using assms
    by (simp add: os_inv_def foldl_Untag_ok g_ok_Remove g_faithful_Remove)
  moreover have "oci_inv P (snd (oci_Delete P (os_fs s) d))"
    by (rule oci_Delete_inv [OF os_invD(1) [OF assms(1)]])
  ultimately show ?thesis
    by (cases "oci_Delete P (os_fs s) d") (simp add: os_delete_eq os_inv_def split: sum.splits)
qed

lemma os_Delete_loop_inv:
  "\<lbrakk>os_inv P s; \<And>n i. valid_order (ords n i)\<rbrakk> \<Longrightarrow> os_inv P (snd (os_Delete_loop P ords n s q))"
proof (induction P ords n s q rule: os_Delete_loop.induct)
  case (2 P ords n s head queue)
  have inv: "os_inv P (snd (os_delete P (\<lambda>i. ords n (i + 1)) s head))"
    by (rule os_delete_inv [OF "2.prems"])
  obtain y s' where del: "os_delete P (\<lambda>i. ords n (i + 1)) s head = (y, s')"
    by (cases "os_delete P (\<lambda>i. ords n (i + 1)) s head")
  show ?case
  proof (cases "if os_AutoGC s \<and> IsManifest head
      then Referrers P None (os_Fetch P s) (os_Predecessors s (ords n 0)) head [] else Inr []")
    case (Inl e)
    with "2.prems"(1) show ?thesis by simp
  next
    case (Inr refs)
    with inv del "2.IH" [OF Inr del [symmetric] _ _ "2.prems"(2)] show ?thesis
      by (cases y) simp_all
  qed
qed simp

section \<open>The OCI store as a target\<close>

definition os_target :: "ext \<Rightarrow> (nat \<Rightarrow> order) \<Rightarrow> ocistore storage" where
  "os_target P ords = \<lparr>st_Fetch = os_Fetch P, st_Exists = os_Exists P, st_Push = os_Push P ords\<rparr>"

definition os_content :: "ext \<Rightarrow> ocistore \<Rightarrow> descriptor \<Rightarrow> bytes option" where
  "os_content P s = oci_content P (os_fs s)"

lemma os_tag_fs [simp]: "os_fs (os_tag ords s d r) = os_fs s"
  by (simp add: os_tag_def Let_def)

lemma os_Push_fs: "os_fs (snd (os_Push P ords s d r)) = snd (oci_Push P (os_fs s) d r)"
  by (simp add: os_Push_def Let_def split: prod.splits sum.splits)

lemma os_Push_fst:
  "fst (os_Push P ords s d r) = Inr () \<Longrightarrow> fst (oci_Push P (os_fs s) d r) = Inr ()"
  "\<lbrakk>fst (os_Push P ords s d r) = Inl e; fst (oci_Push P (os_fs s) d r) \<noteq> Inl e\<rbrakk> \<Longrightarrow>
     fst (oci_Push P (os_fs s) d r) = Inr ()"
  by (auto simp: os_Push_def Let_def split: prod.splits sum.splits if_splits)

lemma os_tag_get:
  "gm_get (r_index (os_resolver (os_tag ords s d ref))) r =
     (if r = ref \<or> r = Digest d then Some d else gm_get (r_index (os_resolver s)) r)"
  by (simp add: os_tag_def Let_def)

lemma os_Push_resolver:
  "gm_get (r_index (os_resolver (snd (os_Push P ords s d rd)))) r = gm_get (r_index (os_resolver s)) r
   \<or> r = Digest d \<and> gm_get (r_index (os_resolver (snd (os_Push P ords s d rd)))) r = Some d"
  by (auto simp: os_Push_def Let_def os_tag_get split: prod.splits sum.splits)

lemma resolveBlob_push:
  assumes "oci_inv P fs" "resolveBlob P fs r = Inr x"
  shows "resolveBlob P (snd (oci_Push P fs d rd)) r = Inr x"
proof -
  obtain p b where p: "blobPath P r = Inr p" "gm_get fs p = Some b" "x = plain_desc DefaultMediaType r (int (length b))"
    using assms(2) by (auto simp: resolveBlob_def split: sum.splits if_splits option.splits)
  have "gm_get (snd (oci_Push P fs d rd)) p = Some b"
    using p(2) by (auto simp: oci_Push_def oci_PushAt_def split: sum.splits)
  with p show ?thesis by (simp add: resolveBlob_def)
qed

lemma os_Resolve_cases:
  "r \<noteq> [] \<Longrightarrow> os_Resolve P s r = (case gm_get (r_index (os_resolver s)) r of
     None \<Rightarrow> resolveBlob P (os_fs s) r
   | Some y \<Rightarrow> Inr (if r = Digest y then Plain y else y))"
  by (simp add: os_Resolve_def oci_Resolve_def resolver_Resolve_def split: option.splits)

lemma os_Push_Resolve:
  assumes "oci_inv P (os_fs s)" "os_Resolve P s r = Inr x"
  shows "\<exists>x'. os_Resolve P (snd (os_Push P ords s d rd)) r = Inr x' \<and> (Equal x' x \<or> r = Digest d \<and> Equal x' d)"
proof -
  have r: "r \<noteq> []" using assms(2) by (auto simp: os_Resolve_def oci_Resolve_def)
  let ?s = "snd (os_Push P ords s d rd)"
  consider (same) "gm_get (r_index (os_resolver ?s)) r = gm_get (r_index (os_resolver s)) r"
    | (new) "r = Digest d" "gm_get (r_index (os_resolver ?s)) r = Some d"
    using os_Push_resolver by metis
  then show ?thesis
  proof cases
    case same
    then have "os_Resolve P ?s r = Inr x"
      using assms(2) resolveBlob_push [OF assms(1), of r x d rd]
      unfolding os_Resolve_cases [OF r] os_Push_fs by (cases "gm_get (r_index (os_resolver s)) r") simp_all
    then show ?thesis by auto
  next
    case new
    then have "os_Resolve P ?s r = Inr (Plain d)" unfolding os_Resolve_cases [OF r] by simp
    then show ?thesis using new(1) by (auto simp: Equal_def Plain_def)
  qed
qed

lemma os_Tag_Inr:
  assumes "os_Tag P ords s d r = (Inr (), s')"
  shows "\<exists>x. os_Resolve P s' r = Inr x \<and> Equal x d"
proof -
  from assms have r: "r \<noteq> []" and s': "s' = os_tag ords s d r"
    by (simp_all add: os_Tag_def validateReference_def split: if_splits sum.splits)
  have "os_Resolve P s' r = Inr (if r = Digest d then Plain d else d)"
    unfolding os_Resolve_cases [OF r] s' os_tag_get by simp
  then show ?thesis by (auto simp: Equal_def Plain_def)
qed

lemma os_Tag_fs [simp]: "os_fs (snd (os_Tag P ords s d r)) = os_fs s"
  by (simp add: os_Tag_def validateReference_def split: sum.splits)

lemma os_Tag_Inl:
  "os_Tag P ords s d r = (Inl e, s') \<Longrightarrow> s' = s \<and> e \<notin> {SkipNode, ErrOther ''skip source''}"
  by (auto simp: os_Tag_def validateReference_def oci_Exists_def split: sum.splits if_splits)

interpretation ost: tag_store P "os_target P ords" "\<lambda>s. oci_inv P (os_fs s)" "os_content P" "os_Resolve P" "os_Tag P ords"
  for P ords
proof (unfold_locales, goal_cases)
  case 1 then show ?case unfolding os_content_def by (rule ocist.content_key)
next
  case (2 s d x)
  then show ?case using ocist.exists_iff [OF 2(1), of d x] by (simp add: os_target_def os_Exists_def oci_storage_def os_content_def)
next
  case (3 s d b) then show ?case using ocist.content_verified [OF 3(1), of d b] by (simp add: os_content_def)
next
  case (4 s d r)
  then show ?case using ocist.ps.store_adds [OF 4, of d r]
    by (simp add: adds_def os_target_def os_content_def oci_storage_def os_Push_fs)
next
  case (5 s d r s')
  then have "oci_Push P (os_fs s) d r = (Inr (), os_fs s')"
    using os_Push_fst(1) [of P ords s d r] os_Push_fs [of P ords s d r] by (simp add: os_target_def prod_eq_iff)
  then show ?case using ocist.ps.store_ok [OF 5(1)] by (simp add: oci_storage_def os_content_def)
next
  case (6 s d r s')
  then have "oci_Push P (os_fs s) d r = (Inl ErrAlreadyExists, os_fs s') \<or> oci_Push P (os_fs s) d r = (Inr (), os_fs s')"
    using os_Push_fst(2) [of P ords s d r] os_Push_fs [of P ords s d r] by (auto simp: os_target_def prod_eq_iff)
  then show ?case using ocist.ps.store_ok [OF 6(1)] ocist.ps.store_already [OF 6(1) _ 6(3)]
    by (auto simp: oci_storage_def os_content_def)
next
  case (7 s d r) then show ?case using ocist.ps.store_inv [OF 7, of d r]
    by (simp add: os_target_def oci_storage_def os_Push_fs)
next
  case 8 then show ?case by (intro os_Tag_Inr)
next
  case 9 then show ?case by simp
next
  case 10 then show ?case by (simp add: os_content_def)
next
  case 11 then show ?case by (intro os_Tag_Inl)
next
  case 12 then show ?case by (simp add: os_target_def os_Push_Resolve)
qed

end
