(* ===== verification/Oci_Histories.thy ===== *)
theory Oci_Histories
  imports Oci_Store
begin

text \<open>
  Histories of an OCI store: the states that are reached from a new store by pushing, tagging,
  untagging, deleting, saving the index and opening the layout again, with what holds in all
  of them and what a deletion does.
\<close>

section \<open>References\<close>

definition ref_ok :: "(string \<Rightarrow> key) \<Rightarrow> string \<Rightarrow> key \<Rightarrow> bool" where
  "ref_ok ty ref k \<longleftrightarrow> k = ty (key_digest k) \<and> CHR '':'' \<in> set (key_digest k)
     \<and> (ref = key_digest k \<or> ref \<noteq> [] \<and> CHR '':'' \<notin> set ref)"

text \<open>\<open>m\<close> is the map of references up to annotations.\<close>

definition refs_ok :: "(string \<Rightarrow> key) \<Rightarrow> (string \<rightharpoonup> key) \<Rightarrow> bool" where
  "refs_ok ty m \<longleftrightarrow> (\<forall>ref k. m ref = Some k \<longrightarrow> ref_ok ty ref k \<and> m (key_digest k) = Some k)"

definition refs_of :: "ocistore \<Rightarrow> string \<rightharpoonup> key" where
  "refs_of s ref = map_option FromOCI (gm_get (r_index (os_resolver s)) ref)"

text \<open>The file \<^verbatim>\<open>index.json\<close> has the references of the store.\<close>

definition os_saved :: "ocistore \<Rightarrow> bool" where
  "os_saved s \<longleftrightarrow> os_layout s = Some (Inr ImageLayoutVersion) \<and>
     (\<exists>ms. os_file s = Some (Inr ms) \<and> index_saves ms (refs_of s))"

definition oci_stored :: "ext \<Rightarrow> files \<Rightarrow> string \<Rightarrow> bool" where
  "oci_stored P fs dgst \<longleftrightarrow> (\<exists>p. blobPath P dgst = Inr p \<and> gm_get fs p \<noteq> None)"

definition os_good :: "ext \<Rightarrow> (string \<Rightarrow> key) \<Rightarrow> ocistore \<Rightarrow> bool" where
  "os_good P ty s \<longleftrightarrow> os_inv P s \<and> os_AutoSaveIndex s \<and> os_saved s \<and> refs_ok ty (refs_of s)
     \<and> (\<forall>ref k. refs_of s ref = Some k \<longrightarrow> oci_stored P (os_fs s) (key_digest k))
     \<and> (\<forall>k d. gm_get (g_nodes (os_graph s)) k = Some d \<longrightarrow> FromOCI d = ty (Digest d))"

lemma os_goodD:
  assumes "os_good P ty s"
  shows "os_inv P s" "os_AutoSaveIndex s" "os_saved s" "refs_ok ty (refs_of s)"
    "refs_of s ref = Some k \<Longrightarrow> oci_stored P (os_fs s) (key_digest k)"
    "gm_get (g_nodes (os_graph s)) k = Some d \<Longrightarrow> FromOCI d = ty (Digest d)"
  using assms unfolding os_good_def by blast+

lemma refs_okD:
  assumes "refs_ok ty m" "m ref = Some k"
  shows "k = ty (key_digest k)" "CHR '':'' \<in> set (key_digest k)" "ref = key_digest k \<or> CHR '':'' \<notin> set ref"
    "ref \<noteq> []" "m (key_digest k) = Some k"
proof -
  have "ref_ok ty ref k" "m (key_digest k) = Some k" using assms unfolding refs_ok_def by blast+
  then show "k = ty (key_digest k)" "CHR '':'' \<in> set (key_digest k)" "ref = key_digest k \<or> CHR '':'' \<notin> set ref"
    "ref \<noteq> []" "m (key_digest k) = Some k" by (auto simp: ref_ok_def)
qed

lemma key_digest_FromOCI [simp]: "key_digest (FromOCI d) = Digest d"
  by (simp add: FromOCI_def)

lemma refs_index_ok:
  assumes "gm_ok (r_index (os_resolver s))" "refs_ok ty (refs_of s)"
  shows "index_ok (r_index (os_resolver s))"
proof -
  let ?m = "r_index (os_resolver s)"
  have r: "refs_of s ref = Some (FromOCI d)" if "(ref, d) \<in> set ?m" for ref d
    using that by (simp add: refs_of_def gm_get_in_set [OF assms(1), symmetric])
  note D = refs_okD [OF assms(2) r]
  have 1: "ref \<noteq> [] \<and> gm_get ?m (Digest d) \<noteq> None" if "(ref, d) \<in> set ?m" for ref d
    using D(4,5) [OF that] by (auto simp: refs_of_def)
  have 2: "ref = Digest d" if "(ref, d) \<in> set ?m" "(ref', d') \<in> set ?m" "ref = Digest d'" for ref d ref' d'
    using D(3) [OF that(1)] D(2) [OF that(2)] that(3) by auto
  have 3: "FromOCI d = FromOCI d'" if "(ref, d) \<in> set ?m" "(ref', d') \<in> set ?m" "Digest d = Digest d'" for ref d ref' d'
    using D(1) [OF that(1)] D(1) [OF that(2)] that(3) by simp
  from assms(1) 1 2 3 show ?thesis unfolding index_ok_def by blast
qed

section \<open>Saving\<close>

lemma refs_of_save [simp]: "refs_of (os_saveIndex ords s) = refs_of s"
  by (simp add: refs_of_def fun_eq_iff)

lemma os_saveIndex_saved:
  assumes "r_ok (os_resolver s)" "refs_ok ty (refs_of s)" "os_layout s = Some (Inr ImageLayoutVersion)"
    and "valid_order (ords 0)" "valid_order (ords 1)"
  shows "os_saved (os_saveIndex ords s)"
proof -
  let ?m = "r_index (os_resolver s)"
  have "index_ok ?m" by (rule refs_index_ok [OF r_ok_gm [OF assms(1)] assms(2)])
  from index_saves_manifests [OF this assms(4,5)] have
    "index_saves (map json_desc (index_manifests (ords 0) (ords 1) ?m)) (refs_of s)"
    unfolding refs_of_def [abs_def] .
  with assms(3) show ?thesis unfolding os_saved_def refs_of_save by auto
qed

lemma os_saveIndex_good:
  assumes "os_good P ty s" "\<And>i. valid_order (ords i)"
  shows "os_good P ty (os_saveIndex ords s)"
proof -
  note G = os_goodD [OF assms(1)]
  have "os_saved (os_saveIndex ords s)"
    using G(3) assms(2) by (intro os_saveIndex_saved [OF os_invD(2) [OF G(1)] G(4)]) (auto simp: os_saved_def)
  moreover have "os_inv P (os_saveIndex ords s)" using G(1) by (simp add: os_inv_def)
  ultimately show ?thesis using assms(1) by (simp add: os_good_def)
qed

section \<open>Tagging\<close>

lemma refs_ok_put:
  assumes "refs_ok ty m" "ref_ok ty ref k"
  shows "refs_ok ty (m(key_digest k \<mapsto> k, ref \<mapsto> k))"
proof -
  let ?m = "m(key_digest k \<mapsto> k, ref \<mapsto> k)"
  have "ref_ok ty ref' k' \<and> ?m (key_digest k') = Some k'" if "?m ref' = Some k'" for ref' k'
  proof (cases "ref' = key_digest k \<or> ref' = ref")
    case True
    with that assms(2) show ?thesis by (auto simp: ref_ok_def split: if_splits)
  next
    case False
    with that have r: "m ref' = Some k'" by simp
    have "?m (key_digest k') = Some k'"
      using refs_okD [OF assms(1) r] assms(2) by (auto simp: ref_ok_def)
    moreover have "ref_ok ty ref' k'" using assms(1) r unfolding refs_ok_def by blast
    ultimately show ?thesis by blast
  qed
  then show ?thesis unfolding refs_ok_def by blast
qed

lemma refs_of_tag: "refs_of (os_tag ords s d ref) = (refs_of s)(Digest d \<mapsto> FromOCI d, ref \<mapsto> FromOCI d)"
  by (auto simp: refs_of_def fun_eq_iff)

lemma os_tag_eq:
  assumes "os_AutoSaveIndex s"
  obtains r where "os_tag ords s d ref = os_saveIndex ords (s\<lparr>os_resolver := r\<rparr>)"
  using assms that by (cases "ref = Digest d") (simp_all add: os_tag_def Let_def)

lemma os_tag_good:
  assumes "os_good P ty s" "\<And>i. valid_order (ords i)" "oci_stored P (os_fs s) (Digest d)"
    and "ref_ok ty ref (FromOCI d)"
  shows "os_good P ty (os_tag ords s d ref)"
proof -
  note G = os_goodD [OF assms(1)]
  let ?s = "os_tag ords s d ref"
  have inv: "os_inv P ?s" by (rule os_tag_inv [OF G(1)])
  have refs: "refs_ok ty (refs_of ?s)"
    using refs_ok_put [OF G(4) assms(4)] by (simp add: refs_of_tag)
  have "os_saved ?s"
  proof -
    obtain r where r: "?s = os_saveIndex ords (s\<lparr>os_resolver := r\<rparr>)"
      by (rule os_tag_eq [OF G(2)])
    have "r_ok (os_resolver (s\<lparr>os_resolver := r\<rparr>))" "refs_ok ty (refs_of (s\<lparr>os_resolver := r\<rparr>))"
      using os_invD(2) [OF inv] refs unfolding r refs_of_save os_saveIndex_sel .
    moreover have "os_layout (s\<lparr>os_resolver := r\<rparr>) = Some (Inr ImageLayoutVersion)"
      using G(3) by (simp add: os_saved_def)
    ultimately show ?thesis unfolding r by (rule os_saveIndex_saved) (rule assms(2))+
  qed
  moreover have "oci_stored P (os_fs ?s) (key_digest k)" if "refs_of ?s r = Some k" for r k
    using that G(5) assms(3) by (auto simp: refs_of_tag split: if_splits)
  ultimately show ?thesis
    using inv refs G(2,6) by (simp add: os_good_def)
qed

lemma oci_Exists_stored: "oci_Exists P fs d = Inr True \<Longrightarrow> oci_stored P fs (Digest d)"
  by (auto simp: oci_Exists_def oci_stored_def split: sum.splits)

lemma oci_stored_colon: "\<lbrakk>digest_laws P; oci_stored P fs dg\<rbrakk> \<Longrightarrow> CHR '':'' \<in> set dg"
  by (auto simp: digest_laws_def oci_stored_def dest!: blobPath_valid)

lemma ref_okI:
  assumes "FromOCI d = ty (Digest d)" "CHR '':'' \<in> set (Digest d)"
    and "ref = Digest d \<or> ref \<noteq> [] \<and> CHR '':'' \<notin> set ref"
  shows "ref_ok ty ref (FromOCI d)"
  using assms unfolding ref_ok_def key_digest_FromOCI by blast

lemma os_Tag_good:
  assumes "os_good P ty s" "\<And>i. valid_order (ords i)" "FromOCI d = ty (Digest d)"
    and "ref = Digest d \<or> CHR '':'' \<notin> set ref"
  shows "os_good P ty (snd (os_Tag P ords s d ref))"
proof (cases "ref \<noteq> [] \<and> oci_Exists P (os_fs s) d = Inr True")
  case True
  then have st: "oci_stored P (os_fs s) (Digest d)" by (simp add: oci_Exists_stored)
  have "digest_laws P" using os_invD(1) [OF os_goodD(1) [OF assms(1)]] by (simp add: oci_inv_def)
  from oci_stored_colon [OF this st] assms(4) True have "ref_ok ty ref (FromOCI d)"
    by (intro ref_okI [where ty = ty and d = d, OF assms(3)]) auto
  from os_tag_good [OF assms(1,2) st this] True show ?thesis by (simp add: os_Tag_def validateReference_def)
next
  case False
  with assms(1) show ?thesis by (auto simp: os_Tag_def validateReference_def split: sum.splits)
qed

section \<open>Pushing\<close>

lemma refs_of_upd [simp]:
  "refs_of (s\<lparr>os_fs := fs\<rparr>) = refs_of s" "refs_of (s\<lparr>os_graph := g\<rparr>) = refs_of s"
  by (simp_all add: refs_of_def fun_eq_iff)

lemma os_update_graph_id: "s\<lparr>os_fs := fs, os_graph := os_graph s\<rparr> = s\<lparr>os_fs := fs\<rparr>"
  by simp

lemma os_update_commute: "s\<lparr>os_graph := g, os_resolver := r\<rparr> = s\<lparr>os_resolver := r, os_graph := g\<rparr>"
  by (cases s) simp

lemma os_good_fs_graph:
  assumes "os_good P ty s" "os_inv P (s\<lparr>os_fs := fs, os_graph := g\<rparr>)"
    and "\<And>ref k. refs_of s ref = Some k \<Longrightarrow> oci_stored P fs (key_digest k)"
    and "\<And>k d. gm_get (g_nodes g) k = Some d \<Longrightarrow> FromOCI d = ty (Digest d)"
  shows "os_good P ty (s\<lparr>os_fs := fs, os_graph := g\<rparr>)"
proof -
  note G = os_goodD [OF assms(1)]
  from G(3) have "os_saved (s\<lparr>os_fs := fs, os_graph := g\<rparr>)" by (simp add: os_saved_def)
  with assms G(2,4) show ?thesis by (simp add: os_good_def)
qed

lemma oci_Push_stored:
  "oci_stored P fs dg \<Longrightarrow> oci_stored P (snd (oci_Push P fs d r)) dg"
  "oci_Push P fs d r = (Inr x, fs') \<Longrightarrow> oci_stored P fs' (Digest d)"
  by (auto simp: oci_Push_def oci_PushAt_def oci_stored_def split: sum.splits if_splits)

lemma graph_Index_nodes:
  "gm_get (g_nodes (snd (graph_Index P fetch g d))) k = Some x \<Longrightarrow> x = d \<or> gm_get (g_nodes g) k = Some x"
  by (auto simp: graph_Index_def graph_index_def graph_add_sel split: sum.splits if_splits prod.splits)

lemma os_Push_good:
  assumes "consistent P ty" "os_good P ty s" "\<And>i. valid_order (ords i)" "FromOCI d = ty (Digest d)"
  shows "os_good P ty (snd (os_Push P ords s d r))"
proof -
  note G = os_goodD [OF assms(2)]
  from assms(1) have cf: "collision_free P" "digest_laws P" by (simp_all add: consistent_def)
  obtain x fs where p: "oci_Push P (os_fs s) d r = (x, fs)" by (cases "oci_Push P (os_fs s) d r")
  obtain y g where gi: "graph_Index P (oci_Fetch P fs) (os_graph s) d = (y, g)"
    by (cases "graph_Index P (oci_Fetch P fs) (os_graph s) d")
  have fs: "oci_inv P fs"
    using oci_PushAt_inv [OF os_invD(1) [OF G(1)], of "os_fs s" d r] p by (simp add: oci_Push_def)
  have st: "oci_stored P fs (key_digest k)" if "refs_of s ref = Some k" for ref k
    using oci_Push_stored(1) [OF G(5) [OF that], of d r] p by simp
  have "os_inv P (s\<lparr>os_fs := fs, os_graph := os_graph s\<rparr>)" using G(1) fs by (simp add: os_inv_def)
  from os_good_fs_graph [OF assms(2) this st G(6)] have g0: "os_good P ty (s\<lparr>os_fs := fs\<rparr>)" by simp
  have "os_inv P (s\<lparr>os_fs := fs, os_graph := g\<rparr>)"
    using graph_Index_ok [OF cf(1) os_invD(3,4) [OF G(1)], of fs d] gi fs G(1) by (simp add: os_inv_def)
  moreover have "FromOCI x = ty (Digest x)" if "gm_get (g_nodes g) k = Some x" for k x
    using graph_Index_nodes [of P "oci_Fetch P fs" "os_graph s" d k x] gi that assms(4) G(6) by auto
  ultimately have g1: "os_good P ty (s\<lparr>os_fs := fs, os_graph := g\<rparr>)"
    using st by (intro os_good_fs_graph [OF assms(2)])
  show ?thesis
  proof (cases "(\<exists>e. x = Inl e) \<or> (\<exists>e. y = Inl e) \<or> \<not> IsManifest d")
    case True
    with g0 g1 p gi show ?thesis by (cases x; cases y) (auto simp: os_Push_def Let_def)
  next
    case False
    then obtain a b where "x = Inr a" "y = Inr b" "IsManifest d" by (cases x; cases y) auto
    moreover from this have "oci_stored P fs (Digest d)" using oci_Push_stored(2) p by blast
    moreover from this have "ref_ok ty (Digest d) (FromOCI d)"
      using oci_stored_colon [OF cf(2)] by (intro ref_okI [where ty = ty and d = d, OF assms(4)]) auto
    ultimately show ?thesis
      using os_tag_good [OF g1 assms(3), of d "Digest d"] p gi by (simp add: os_Push_def)
  qed
qed

section \<open>Untagging and deleting\<close>

definition refs_without :: "key \<Rightarrow> (string \<rightharpoonup> key) \<Rightarrow> string \<rightharpoonup> key" where
  "refs_without k m ref = (if m ref = Some k then None else m ref)"

lemma refs_ok_without: "refs_ok ty m \<Longrightarrow> refs_ok ty (refs_without k m)"
  unfolding refs_ok_def refs_without_def by (auto split: if_splits)

lemma refs_ok_untag:
  assumes "refs_ok ty m" "m ref = Some k" "ref \<noteq> key_digest k"
  shows "refs_ok ty (m(ref := None))"
proof -
  have "ref_ok ty ref' k' \<and> (m(ref := None)) (key_digest k') = Some k'" if "(m(ref := None)) ref' = Some k'" for ref' k'
  proof -
    from that have r: "m ref' = Some k'" by (simp split: if_splits)
    have "key_digest k' \<noteq> ref"
      using refs_okD(2) [OF assms(1) r] refs_okD(3) [OF assms(1,2)] assms(3) by auto
    with refs_okD(5) [OF assms(1) r] assms(1) r show ?thesis unfolding refs_ok_def by auto
  qed
  then show ?thesis unfolding refs_ok_def by blast
qed

lemma os_good_resolver:
  assumes "os_good P ty s" "\<And>i. valid_order (ords i)" "r_ok r"
    and "refs_ok ty (\<lambda>ref. map_option FromOCI (gm_get (r_index r) ref))"
    and "\<And>ref d. gm_get (r_index r) ref = Some d \<Longrightarrow> \<exists>ref. refs_of s ref = Some (FromOCI d)"
  shows "os_good P ty (os_saveIndex ords (s\<lparr>os_resolver := r\<rparr>))"
proof -
  note G = os_goodD [OF assms(1)]
  let ?s = "s\<lparr>os_resolver := r\<rparr>"
  have refs: "refs_of ?s = (\<lambda>ref. map_option FromOCI (gm_get (r_index r) ref))"
    by (simp add: refs_of_def fun_eq_iff)
  have "os_layout ?s = Some (Inr ImageLayoutVersion)" using G(3) by (simp add: os_saved_def)
  with assms(2-4) refs have "os_saved (os_saveIndex ords ?s)" by (intro os_saveIndex_saved) simp_all
  moreover have "os_inv P (os_saveIndex ords ?s)" using G(1) assms(3) by (simp add: os_inv_def)
  moreover have "oci_stored P (os_fs s) (key_digest k)" if r: "refs_of ?s ref = Some k" for ref k
  proof -
    from r refs obtain d where "gm_get (r_index r) ref = Some d" "k = FromOCI d" by auto
    with assms(5) G(5) show ?thesis by blast
  qed
  ultimately show ?thesis using assms(4) G(2,6) refs by (simp add: os_good_def)
qed

lemma os_Untag_good:
  assumes "os_good P ty s" "\<And>i. valid_order (ords i)"
  shows "os_good P ty (snd (os_Untag ords s ref))"
proof (cases "\<exists>d. gm_get (r_index (os_resolver s)) ref = Some d \<and> ref \<noteq> Digest d \<and> ref \<noteq> []")
  case True
  then obtain d where d: "gm_get (r_index (os_resolver s)) ref = Some d" "ref \<noteq> Digest d" "ref \<noteq> []" by blast
  note G = os_goodD [OF assms(1)]
  let ?r = "resolver_Untag (os_resolver s) ref"
  have "(\<lambda>x. map_option FromOCI (gm_get (r_index ?r) x)) = (refs_of s)(ref := None)"
    by (simp add: refs_of_def fun_eq_iff)
  moreover have "refs_ok ty ((refs_of s)(ref := None))"
    by (rule refs_ok_untag [OF G(4), of ref "FromOCI d"]) (use d in \<open>simp_all add: refs_of_def\<close>)
  moreover have "\<exists>ref. refs_of s ref = Some (FromOCI x)" if "gm_get (r_index ?r) y = Some x" for x y
    using that by (auto simp: refs_of_def split: if_splits)
  ultimately have "os_good P ty (os_saveIndex ords (s\<lparr>os_resolver := ?r\<rparr>))"
    using r_ok_Untag [OF os_invD(2) [OF G(1)]] by (intro os_good_resolver [OF assms]) simp_all
  with d G(2) show ?thesis by (simp add: os_Untag_def resolver_Resolve_def Let_def)
next
  case False
  with assms(1) show ?thesis
    by (auto simp: os_Untag_def resolver_Resolve_def split: sum.splits option.splits)
qed

lemma refs_of_unindex:
  assumes "r_ok (os_resolver s)" "valid_order (ords 0)"
  shows "refs_of (snd (os_unindex ords s d)) = refs_without (FromOCI d) (refs_of s)"
  unfolding refs_of_def refs_without_def fun_eq_iff os_unindex_get [where ords = ords, OF assms]
  by (auto split: option.splits)

lemma os_unindex_good:
  assumes "os_good P ty s" "\<And>i. valid_order (ords i)"
  shows "os_good P ty (snd (os_unindex ords s d))"
proof -
  note G = os_goodD [OF assms(1)]
  let ?u = "snd (os_unindex ords s d)"
  let ?refs = "map fst (filter (\<lambda>(reference, desc). Equal desc d) (range_list (ords 0) (r_index (os_resolver s))))"
  let ?r = "foldl resolver_Untag (os_resolver s) ?refs" and ?g = "snd (graph_Remove (os_graph s) (ords 1) d)"
  have g: "os_inv P (s\<lparr>os_graph := ?g\<rparr>)"
    using G(1) assms(2) by (simp add: os_inv_def g_ok_Remove g_faithful_Remove)
  have "FromOCI x = ty (Digest x)" if "gm_get (g_nodes ?g) k = Some x" for k x
    using that G(6) by (simp add: graph_Remove_eq [OF os_invD(3) [OF G(1)] assms(2)] split: if_splits)
  with g G(5) have s': "os_good P ty (s\<lparr>os_graph := ?g\<rparr>)"
    using os_good_fs_graph [OF assms(1), of ?g "os_fs s"] by simp
  show ?thesis
  proof (cases "?refs = []")
    case True
    then have "?u = s\<lparr>os_graph := ?g\<rparr>" by (simp add: os_unindex_def Let_def resolver_Map_def split_beta)
    with s' show ?thesis by simp
  next
    case False
    then have u: "?u = os_saveIndex (\<lambda>i. ords (i + 2)) ((s\<lparr>os_graph := ?g\<rparr>)\<lparr>os_resolver := ?r\<rparr>)"
      using G(2) by (simp add: os_unindex_def Let_def resolver_Map_def split_beta os_update_commute)
    have get: "gm_get (r_index ?r) ref = (case gm_get (r_index (os_resolver s)) ref of
       None \<Rightarrow> None | Some x \<Rightarrow> if FromOCI x = FromOCI d then None else Some x)" for ref
      using os_unindex_get [where ords = ords and d = d, OF os_invD(2) [OF G(1)] assms(2)] by simp
    have "(\<lambda>ref. map_option FromOCI (gm_get (r_index ?r) ref)) = refs_without (FromOCI d) (refs_of s)"
      by (auto simp: get refs_without_def refs_of_def fun_eq_iff split: option.splits)
    with refs_ok_without [OF G(4)] have "refs_ok ty (\<lambda>ref. map_option FromOCI (gm_get (r_index ?r) ref))" by simp
    moreover have "\<exists>ref. refs_of (s\<lparr>os_graph := ?g\<rparr>) ref = Some (FromOCI x)" if "gm_get (r_index ?r) y = Some x" for x y
      using that by (auto simp: get refs_of_def split: option.splits if_splits)
    ultimately show ?thesis unfolding u
      using foldl_Untag_ok [OF os_invD(2) [OF G(1)]] assms(2) by (intro os_good_resolver [OF s']) simp_all
  qed
qed

lemma os_delete_good:
  assumes "os_good P ty s" "\<And>i. valid_order (ords i)" "FromOCI d = ty (Digest d)"
  shows "os_good P ty (snd (os_delete P ords s d))"
proof -
  let ?u = "snd (os_unindex ords s d)"
  have u: "os_good P ty ?u" by (rule os_unindex_good [OF assms(1,2)])
  note G = os_goodD [OF assms(1)] and U = os_goodD [OF u]
  obtain x fs where del: "oci_Delete P (os_fs s) d = (x, fs)" by (cases "oci_Delete P (os_fs s) d")
  have "os_good P ty (?u\<lparr>os_fs := fs\<rparr>)"
  proof -
    have st: "oci_stored P fs (key_digest k)" if r: "refs_of ?u ref = Some k" for ref k
    proof -
      from r have k: "refs_of s ref = Some k" "k \<noteq> FromOCI d"
        unfolding refs_of_unindex [where ords = ords and d = d, OF os_invD(2) [OF G(1)] assms(2)]
        by (auto simp: refs_without_def split: if_splits)
      have "key_digest k \<noteq> Digest d" using refs_okD(1) [OF G(4) k(1)] k(2) assms(3) by metis
      with G(5) [OF k(1)] del os_invD(1) [OF G(1)] show ?thesis
        by (auto simp: oci_stored_def oci_Delete_def oci_inv_def dest: blobPath_inject
            split: sum.splits option.splits if_splits)
    qed
    have "os_inv P (?u\<lparr>os_fs := fs, os_graph := os_graph ?u\<rparr>)"
      using U(1) oci_Delete_inv [OF os_invD(1) [OF G(1)], of d] del by (simp add: os_inv_def)
    from os_good_fs_graph [OF u this] st U(6) have "os_good P ty (?u\<lparr>os_fs := fs, os_graph := os_graph ?u\<rparr>)"
      by blast
    then show ?thesis by (simp only: os_update_graph_id)
  qed
  with u del show ?thesis by (cases x) (simp_all add: os_delete_eq)
qed

lemma os_delete_danglings:
  assumes "os_inv P s" "\<And>i. valid_order (ords i)" "os_delete P ords s d = (Inr danglings, s')"
  shows "set danglings = ag_danglings (abs_graph (os_graph s)) d"
  using assms(3) graph_Remove_danglings(1) [OF os_invD(3) [OF assms(1)] assms(2)]
  by (auto simp: os_delete_eq split: prod.splits sum.splits)

lemma ag_danglings_nodes: "x \<in> ag_danglings (abs_graph g) d \<Longrightarrow> \<exists>k. gm_get (g_nodes g) k = Some x"
  by (auto simp: ag_danglings_def abs_graph_def)

text \<open>What a round of the deletion adds to the queue are nodes of the graph.\<close>

definition os_referrers :: "ext \<Rightarrow> order \<Rightarrow> ocistore \<Rightarrow> descriptor \<Rightarrow> descriptor list res" where
  "os_referrers P ord s head =
     (if os_AutoGC s \<and> IsManifest head
      then Referrers P None (os_Fetch P s) (os_Predecessors s ord) head [] else Inr [])"

lemma os_referrers_nodes:
  assumes "os_inv P s" "valid_order ord" "os_referrers P ord s head = Inr refs" "x \<in> set refs"
  shows "\<exists>k d. gm_get (g_nodes (os_graph s)) k = Some d \<and> FromOCI x = FromOCI d"
proof -
  from assms(3,4) have "FromOCI x \<in> FromOCI ` set (graph_Predecessors (os_graph s) ord head)"
    using Referrers_FromOCI [of P "os_Fetch P s" "os_Predecessors s ord" head "[]" refs
        "graph_Predecessors (os_graph s) ord head"]
    by (auto simp: os_referrers_def os_Predecessors_def split: if_splits)
  with graph_Predecessors_set [OF os_invD(3) [OF assms(1)] assms(2), of head] show ?thesis by auto
qed

lemma FromOCI_ty: "\<lbrakk>FromOCI x = FromOCI d; FromOCI d = ty (Digest d)\<rbrakk> \<Longrightarrow> FromOCI x = ty (Digest x)"
  by (metis key_digest_FromOCI)

lemma os_Delete_loop_good:
  "\<lbrakk>os_good P ty s; \<And>n i. valid_order (ords n i); \<forall>d\<in>set q. FromOCI d = ty (Digest d)\<rbrakk> \<Longrightarrow>
   os_good P ty (snd (os_Delete_loop P ords n s q))"
proof (induction P ords n s q rule: os_Delete_loop.induct)
  case (2 P ords n s head queue)
  note G = os_goodD [OF "2.prems"(1)] and step = "2.IH" [folded os_referrers_def]
  let ?ords = "\<lambda>i. ords n (i + 1)"
  obtain y s' where del: "os_delete P ?ords s head = (y, s')" by (cases "os_delete P ?ords s head")
  have good: "os_good P ty s'"
    using os_delete_good [OF "2.prems"(1), of ?ords head] "2.prems"(2,3) del by simp
  show ?case
  proof (cases "os_referrers P (ords n 0) s head")
    case (Inl e)
    with "2.prems"(1) show ?thesis by (simp add: os_referrers_def)
  next
    case (Inr refs)
    have r: "\<forall>x\<in>set refs. FromOCI x = ty (Digest x)"
      using os_referrers_nodes [OF G(1) "2.prems"(2) Inr] G(6) FromOCI_ty by metis
    show ?thesis
    proof (cases y)
      case (Inr danglings)
      have "\<forall>x\<in>set danglings. FromOCI x = ty (Digest x)"
        using os_delete_danglings [OF G(1) _ del [unfolded Inr]] "2.prems"(2) ag_danglings_nodes G(6) by metis
      with r "2.prems"(3) have
        "\<forall>x\<in>set (queue @ refs @ (if os_AutoGC s' then filter (\<lambda>d. \<not> os_isTagged s' d) danglings else [])).
           FromOCI x = ty (Digest x)" by auto
      note step [OF \<open>os_referrers _ _ _ _ = _\<close> del [symmetric] Inr good "2.prems"(2) this]
      with \<open>os_referrers _ _ _ _ = _\<close> Inr del show ?thesis by (simp add: os_referrers_def [symmetric])
    qed (use Inr good del in \<open>simp add: os_referrers_def [symmetric]\<close>)
  qed
qed simp

section \<open>Opening a layout\<close>

text \<open>The manifests that can be read from finitely many files have finitely many successors.\<close>

definition oci_universe :: "ext \<Rightarrow> files \<Rightarrow> descriptor list \<Rightarrow> key set" where
  "oci_universe P fs ms = FromOCI ` set ms \<union>
     (\<Union>b\<in>snd ` set fs. \<Union>mt\<in>{mt. IsManifest (empty_descriptor\<lparr>MediaType := mt\<rparr>)}.
        case decode_successors P (empty_descriptor\<lparr>MediaType := mt\<rparr>) b of
          Inl _ \<Rightarrow> {} | Inr ss \<Rightarrow> FromOCI ` set ss)"

lemma finite_manifest_types: "finite {mt. IsManifest (empty_descriptor\<lparr>MediaType := mt\<rparr>)}"
  by (simp add: IsManifest_def)

lemma finite_oci_universe: "finite (oci_universe P fs ms)"
  unfolding oci_universe_def
  by (intro finite_UnI finite_UN_I finite_imageI finite_manifest_types finite_set) (auto split: sum.splits)

lemma oci_universe_closed: "succ_closed P (oci_Fetch P fs) (oci_universe P fs ms)"
proof -
  have "FromOCI x \<in> oci_universe P fs ms" if "Successors P (oci_Fetch P fs) d = Inr ss" "x \<in> set ss" for d ss x
  proof (cases "IsManifest d")
    case True
    with that obtain b where b: "FetchAll P (oci_Fetch P fs) d = Inr b" "decode_successors P d b = Inr ss"
      by (auto simp: Successors_eq split: sum.splits)
    from b(1) obtain p where "gm_get fs p = Some b"
      by (auto simp: FetchAll_def oci_Fetch_def ReadAll_Inr split: sum.splits option.splits)
    then have "b \<in> snd ` set fs" by (force dest: map_of_SomeD)
    moreover from True have "IsManifest (empty_descriptor\<lparr>MediaType := MediaType d\<rparr>)" by (simp add: IsManifest_def)
    moreover have "decode_successors P (empty_descriptor\<lparr>MediaType := MediaType d\<rparr>) b = Inr ss"
      using b(2) decode_successors_cong [of d "empty_descriptor\<lparr>MediaType := MediaType d\<rparr>" P] by simp
    ultimately show ?thesis using that(2) unfolding oci_universe_def by force
  next
    case False
    with that show ?thesis by (simp add: Successors_eq)
  qed
  then show ?thesis unfolding succ_closed_def by blast
qed

lemma loadIndex_total:
  "FromOCI ` set ms \<subseteq> U \<Longrightarrow> finite U \<Longrightarrow> succ_closed P fetch U \<Longrightarrow> \<exists>y. loadIndex P fetch ms r g = Some y"
proof (induction ms arbitrary: r g)
  case (Cons d ms)
  have "FromOCI ` set [Plain d] \<subseteq> U" using Cons.prems(1) by simp
  from index_all_loop_terminates [OF Cons.prems(2,3) this] obtain e g' where
    "graph_IndexAll P fetch g (Plain d) = Some (e, g')"
    unfolding graph_IndexAll_def by fastforce
  with Cons.IH Cons.prems show ?case by (cases e) (simp_all add: Let_def)
qed simp

lemma os_New_total: "\<exists>x s. os_NewWithContext P fs layout file = Some (x, s)"
proof -
  have "\<exists>y. loadIndex P (oci_Fetch P fs) ms r g = Some y" for ms r g
    by (rule loadIndex_total [OF _ finite_oci_universe oci_universe_closed, of ms P fs ms])
      (auto simp: oci_universe_def)
  then obtain L where "\<And>ms r g. loadIndex P (oci_Fetch P fs) ms r g = Some (L ms r g)" by metis
  then show ?thesis
    by (auto simp: os_NewWithContext_def loadIndexFile_def ensureOCILayoutFile_def Let_def
        split_beta split: option.splits sum.splits)
qed

lemma oci_Successors_ty:
  assumes "consistent P ty" "Successors P (oci_Fetch P fs) d = Inr ss" "x \<in> set ss"
  shows "FromOCI x = ty (Digest x)"
proof (cases "IsManifest d")
  case True
  with assms(2) obtain b where "FetchAll P (oci_Fetch P fs) d = Inr b" "decode_successors P d b = Inr ss"
    by (auto simp: Successors_eq split: sum.splits)
  with ocist.FetchAll_verified [of P fs d b] assms(1,3) show ?thesis
    unfolding oci_storage_def consistent_def by (simp, blast)
next
  case False
  with assms show ?thesis by (simp add: Successors_eq)
qed

definition g_typed :: "ext \<Rightarrow> (string \<Rightarrow> key) \<Rightarrow> graph \<Rightarrow> bool" where
  "g_typed P ty g \<longleftrightarrow> g_ok g \<and> g_faithful P g
     \<and> (\<forall>k d. gm_get (g_nodes g) k = Some d \<longrightarrow> FromOCI d = ty (Digest d))"

lemma g_typed_empty: "g_typed P ty graph_NewMemory"
proof -
  have "g_nodes graph_NewMemory = []" by (simp add: graph_NewMemory_def)
  then show ?thesis by (simp add: g_typed_def g_faithful_def)
qed

lemma loadIndex_typed:
  assumes "consistent P ty"
  shows "\<lbrakk>loadIndex P (oci_Fetch P fs) ms r g = Some (e, r', g'); g_typed P ty g;
    \<forall>d\<in>set ms. FromOCI d = ty (Digest d)\<rbrakk> \<Longrightarrow> g_typed P ty g'"
proof (induction ms arbitrary: r g)
  case (Cons d ms)
  obtain e1 g1 where g1: "graph_IndexAll P (oci_Fetch P fs) g (Plain d) = Some (e1, g1)"
    using Cons.prems(1) by (auto simp: Let_def split: option.splits)
  have "g_typed P ty g1"
  proof (rule IndexAll_preserves [where Q = "g_typed P ty" and R = "\<lambda>d. FromOCI d = ty (Digest d)", OF graph_IndexAll_sound [OF g1] Cons.prems(2)])
    show "FromOCI (Plain d) = ty (Digest (Plain d))" using Cons.prems(3) FromOCI_ty [of "Plain d" d ty] by simp
    fix g d ss
    assume "g_typed P ty g" "FromOCI d = ty (Digest d)" "Successors P (oci_Fetch P fs) d = Inr ss"
    moreover from this graph_add_faithful [OF _ _ _ oci_Successors_faithful, of P g fs d ss] assms
    have "g_ok (graph_add g d ss) \<and> g_faithful P (graph_add g d ss)"
      by (simp add: g_typed_def consistent_def)
    ultimately show "g_typed P ty (graph_add g d ss) \<and> (\<forall>s\<in>set ss. FromOCI s = ty (Digest s))"
      using oci_Successors_ty [OF assms] by (auto simp: g_typed_def graph_add_sel split: if_splits)
  qed
  moreover have "g' = g1 \<or> (\<exists>r1. loadIndex P (oci_Fetch P fs) ms r1 g1 = Some (e, r', g'))"
    using Cons.prems(1) g1 by (auto simp: Let_def split: option.splits)
  ultimately show ?case using Cons.IH Cons.prems(3) by auto
qed simp

lemma index_saves_typed:
  assumes "index_saves ms m" "refs_ok ty m" "d \<in> set ms"
  shows "FromOCI d = ty (Digest d)"
proof -
  have "(Digest d, deleteAnnotationRefName d) \<in> set (index_refs ms)"
    using assms(3) by (force simp: index_refs_def index_puts_def)
  with assms(1) have "m (Digest d) = Some (FromOCI d)" unfolding index_saves_def by fastforce
  from refs_okD(1) [OF assms(2) this] show ?thesis by (simp only: key_digest_FromOCI)
qed

lemma os_New_saved:
  assumes "os_layout s = Some (Inr ImageLayoutVersion)" "os_file s = Some (Inr ms)"
    and "os_NewWithContext P (os_fs s) (os_layout s) (os_file s) = Some (x, s')"
  obtains e r g where "loadIndex P (oci_Fetch P (os_fs s)) ms resolver_NewMemory graph_NewMemory = Some (e, r, g)"
    "x = (case e of None \<Rightarrow> Inr () | Some e \<Rightarrow> Inl e)"
    "s' = \<lparr>os_fs = os_fs s, os_layout = os_layout s, os_file = os_file s, os_index = ms,
       os_resolver = r, os_graph = g, os_AutoSaveIndex = True, os_AutoGC = True\<rparr>"
  using assms that
  by (auto simp: os_NewWithContext_def ensureOCILayoutFile_def validateOCILayout_def loadIndexFile_def
      Let_def split: option.splits)

lemma os_reopen_good:
  assumes "consistent P ty" "os_good P ty s"
    and "os_NewWithContext P (os_fs s) (os_layout s) (os_file s) = Some (Inr (), s')"
  shows "os_good P ty s' \<and> os_fs s' = os_fs s \<and> refs_of s' = refs_of s"
proof -
  note G = os_goodD [OF assms(2)]
  from G(3) obtain ms where ms: "os_layout s = Some (Inr ImageLayoutVersion)" "os_file s = Some (Inr ms)"
    "index_saves ms (refs_of s)" by (auto simp: os_saved_def)
  obtain e r g where l: "loadIndex P (oci_Fetch P (os_fs s)) ms resolver_NewMemory graph_NewMemory = Some (e, r, g)"
    "Inr () = (case e of None \<Rightarrow> Inr () | Some e \<Rightarrow> Inl e)"
    "s' = \<lparr>os_fs = os_fs s, os_layout = os_layout s, os_file = os_file s, os_index = ms,
       os_resolver = r, os_graph = g, os_AutoSaveIndex = True, os_AutoGC = True\<rparr>"
    by (rule os_New_saved [OF ms(1,2) assms(3)])
  from l(2) have e: "e = None" by (cases e) simp_all
  have refs: "refs_of s' = refs_of s"
    unfolding refs_of_def [of s'] fun_eq_iff
    by (simp add: l(3) loadIndex_get [OF l(1) [unfolded e]] index_saves_get [OF ms(3)])
  have "g_typed P ty g"
    using index_saves_typed [OF ms(3) G(4)] by (intro loadIndex_typed [OF assms(1) l(1) g_typed_empty]) blast
  moreover have "r_ok r" by (rule loadIndex_r_ok [OF l(1)]) simp
  moreover have "oci_inv P (os_fs s)" by (rule os_invD(1) [OF G(1)])
  ultimately have "os_inv P s'" "\<forall>k d. gm_get (g_nodes (os_graph s')) k = Some d \<longrightarrow> FromOCI d = ty (Digest d)"
    by (simp_all add: l(3) os_inv_def g_typed_def)
  moreover have "os_saved s'" unfolding os_saved_def refs using ms by (simp add: l(3))
  moreover have "os_fs s' = os_fs s" "os_AutoSaveIndex s'" by (simp_all add: l(3))
  ultimately show ?thesis using G(4,5) refs unfolding os_good_def by simp
qed

section \<open>Histories\<close>

text \<open>
  One operation on a store, with its result ignored. An operation that fails may have changed
  the state as far as it got. \<open>reopen\<close> is a new process that opens the layout.
\<close>

inductive os_step :: "ext \<Rightarrow> (string \<Rightarrow> key) \<Rightarrow> ocistore \<Rightarrow> ocistore \<Rightarrow> bool" for P ty where
  push: "\<lbrakk>\<And>i. valid_order (ords i); FromOCI d = ty (Digest d)\<rbrakk> \<Longrightarrow>
     os_step P ty s (snd (os_Push P ords s d r))"
| tag: "\<lbrakk>\<And>i. valid_order (ords i); FromOCI d = ty (Digest d); ref = Digest d \<or> CHR '':'' \<notin> set ref\<rbrakk> \<Longrightarrow>
     os_step P ty s (snd (os_Tag P ords s d ref))"
| untag: "\<lbrakk>\<And>i. valid_order (ords i)\<rbrakk> \<Longrightarrow> os_step P ty s (snd (os_Untag ords s ref))"
| delete: "\<lbrakk>\<And>n i. valid_order (ords' n i); FromOCI d = ty (Digest d)\<rbrakk> \<Longrightarrow>
     os_step P ty s (snd (os_Delete P ords' s d))"
| save: "\<lbrakk>\<And>i. valid_order (ords i)\<rbrakk> \<Longrightarrow> os_step P ty s (os_saveIndex ords s)"
| autogc: "os_step P ty s (s\<lparr>os_AutoGC := b\<rparr>)"
| reopen: "os_NewWithContext P (os_fs s) (os_layout s) (os_file s) = Some (Inr (), s') \<Longrightarrow> os_step P ty s s'"

definition os_reachable :: "ext \<Rightarrow> (string \<Rightarrow> key) \<Rightarrow> ocistore \<Rightarrow> bool" where
  "os_reachable P ty s \<longleftrightarrow>
     (\<exists>s0. os_NewWithContext P [] None None = Some (Inr (), s0) \<and> (os_step P ty)\<^sup>*\<^sup>* s0 s)"

lemma os_step_good:
  assumes "os_step P ty s s'" "consistent P ty" "os_good P ty s"
  shows "os_good P ty s'"
  using assms(1)
proof (cases rule: os_step.cases)
  case (push ords d r)
  then show ?thesis using os_Push_good [OF assms(2,3), of ords d r] by blast
next
  case (tag ords d ref)
  then show ?thesis using os_Tag_good [OF assms(3), of ords d ref] by blast
next
  case (untag ords ref)
  then show ?thesis using os_Untag_good [OF assms(3), of ords ref] by blast
next
  case (delete ords d)
  then show ?thesis using os_Delete_loop_good [OF assms(3), of ords "[d]" 0] unfolding os_Delete_def by simp
next
  case (save ords)
  then show ?thesis using os_saveIndex_good [OF assms(3), of ords] by blast
next
  case (autogc b)
  have "refs_of (s\<lparr>os_AutoGC := b\<rparr>) = refs_of s" by (simp add: refs_of_def fun_eq_iff)
  with autogc assms(3) show ?thesis by (simp add: os_good_def os_saved_def os_inv_def)
next
  case reopen
  then show ?thesis using os_reopen_good [OF assms(2,3)] by blast
qed

lemma os_new_good:
  assumes "consistent P ty" "os_NewWithContext P [] None None = Some (Inr (), s)"
  shows "os_good P ty s"
proof -
  have s: "s = \<lparr>os_fs = [], os_layout = Some (Inr ImageLayoutVersion), os_file = Some (Inr []), os_index = [],
       os_resolver = resolver_NewMemory, os_graph = graph_NewMemory, os_AutoSaveIndex = True, os_AutoGC = True\<rparr>"
    using assms(2)
    by (simp add: os_NewWithContext_def ensureOCILayoutFile_def loadIndexFile_def writeIndexFile_def Let_def)
  have refs: "refs_of s = Map.empty" by (simp add: s refs_of_def resolver_NewMemory_def fun_eq_iff)
  have "os_inv P s"
    using assms(1) g_typed_empty [of P ty]
    unfolding os_inv_def oci_inv_def consistent_def g_typed_def by (simp add: s)
  moreover have "os_saved s" unfolding os_saved_def refs by (simp add: s index_saves_def index_refs_def)
  ultimately show ?thesis unfolding os_good_def refs
    using g_typed_empty [of P ty] unfolding g_typed_def by (simp add: s refs_ok_def)
qed

lemma os_reachable_good: "\<lbrakk>consistent P ty; os_reachable P ty s\<rbrakk> \<Longrightarrow> os_good P ty s"
proof -
  assume c: "consistent P ty" and "os_reachable P ty s"
  then obtain s0 where "os_NewWithContext P [] None None = Some (Inr (), s0)" "(os_step P ty)\<^sup>*\<^sup>* s0 s"
    by (auto simp: os_reachable_def)
  from this(2) os_new_good [OF c this(1)] show ?thesis
    by (induction rule: rtranclp_induct) (auto intro: os_step_good [OF _ c])
qed

section \<open>A concrete history\<close>

text \<open>
  The manifest and its referrer of the concrete graph are pushed, and the referrer is tagged.
\<close>

definition oci_empty :: ocistore where
  "oci_empty = \<lparr>os_fs = [], os_layout = Some (Inr ImageLayoutVersion), os_file = Some (Inr []), os_index = [],
     os_resolver = resolver_NewMemory, os_graph = graph_NewMemory, os_AutoSaveIndex = True, os_AutoGC = True\<rparr>"

lemma os_New_empty: "os_NewWithContext P [] None None = Some (Inr (), oci_empty)"
  by (simp add: os_NewWithContext_def ensureOCILayoutFile_def loadIndexFile_def writeIndexFile_def Let_def oci_empty_def)

lemma demo_blobPath:
  "blobPath demo_graph_ext 
    (CHR ''s'' # CHR ''h'' # CHR ''a'' # CHR ''2'' # CHR ''5'' # CHR ''6'' # CHR '':'' # xs)
   = Inr [''blobs'', ''sha256'', xs]"
  by (simp add: blobPath_def demo_graph_ext_def demo_ext_def dg_Algorithm_def dg_Encoded_def)

lemma demo_ingest:
  "oci_ingest demo_graph_ext d (bytes_reader b) = Inr b \<longleftrightarrow> Digest d = ''sha256:'' @ b \<and> int (length b) = max 0 (Size d)"
  by (auto simp: oci_ingest_iff demo_graph_ext_def demo_ext_def)

lemma demo_Successors_any:
  "fetch demo_manifest = Inr (bytes_reader ''M'') \<Longrightarrow> Successors demo_graph_ext fetch demo_manifest = Inr [demo_config, demo_layer]"
  "fetch demo_referrer = Inr (bytes_reader ''R'') \<Longrightarrow> Successors demo_graph_ext fetch demo_referrer = Inr [demo_manifest, demo_config]"
  using demo_Successors by (simp_all add: Successors_def FetchAll_def demo_fetch_def demo_nodes)

lemma demo_IsManifest [simp]: "IsManifest demo_manifest" "IsManifest demo_referrer"
  by (simp_all add: IsManifest_def demo_nodes)

text \<open>A push of a manifest that succeeds.\<close>

lemma os_Push_manifest:
  assumes "blobPath P (Digest d) = Inr p" "gm_get (os_fs s) p = None" "oci_ingest P d r = Inr b"
    and "Successors P (oci_Fetch P (gm_put p b (os_fs s))) d = Inr ss" "IsManifest d"
  shows "os_Push P ords s d r = (Inr (), os_tag ords
      (s\<lparr>os_fs := gm_put p b (os_fs s), os_graph := graph_add (os_graph s) d ss\<rparr>) d (Digest d))"
  using assms by (simp add: os_Push_def oci_Push_def oci_PushAt_def graph_Index_def graph_index_def)

lemma demo_Digest [simp]: "Digest demo_manifest = ''sha256:M''" "Digest demo_referrer = ''sha256:R''"
 "Digest demo_config = ''sha256:c''" "Digest demo_layer = ''sha256:l''"
 "Size demo_manifest = 1" "Size demo_referrer = 1" 
  by (simp_all add: demo_nodes)

definition demo_push_M :: ocistore where
  "demo_push_M = snd (os_Push demo_graph_ext (\<lambda>_. id_order) oci_empty demo_manifest (bytes_reader ''M''))"

definition demo_push_R :: ocistore where
  "demo_push_R = snd (os_Push demo_graph_ext (\<lambda>_. id_order) demo_push_M demo_referrer (bytes_reader ''R''))"

definition demo_oci :: ocistore where
  "demo_oci = snd (os_Tag demo_graph_ext (\<lambda>_. id_order) demo_push_R demo_referrer ''sig'')"

lemma demo_push_M_eq: "demo_push_M = os_tag (\<lambda>_. id_order) (oci_empty\<lparr>os_fs := [([''blobs'', ''sha256'', ''M''], ''M'')],
   os_graph := graph_add graph_NewMemory demo_manifest [demo_config, demo_layer]\<rparr>) demo_manifest ''sha256:M''"
  unfolding demo_push_M_def
  by (subst os_Push_manifest [where p = "[''blobs'', ''sha256'', ''M'']" and b = "''M''" and ss = "[demo_config, demo_layer]"])
    (simp_all add: demo_blobPath oci_empty_def demo_ingest demo_Successors_any oci_Fetch_def)

lemma demo_push_R_eq: "demo_push_R = os_tag (\<lambda>_. id_order) (demo_push_M\<lparr>os_fs := gm_put [''blobs'', ''sha256'', ''R''] ''R'' (os_fs demo_push_M),
   os_graph := graph_add (os_graph demo_push_M) demo_referrer [demo_manifest, demo_config]\<rparr>) demo_referrer ''sha256:R''"
  unfolding demo_push_R_def
  by (subst os_Push_manifest [where p = "[''blobs'', ''sha256'', ''R'']" and b = "''R''" and ss = "[demo_manifest, demo_config]"])
    (simp_all add: demo_blobPath demo_push_M_eq demo_ingest demo_Successors_any oci_Fetch_def)

lemma demo_oci_eq: "demo_oci = os_tag (\<lambda>_. id_order) demo_push_R demo_referrer ''sig''"
  unfolding demo_oci_def
  by (simp add: os_Tag_def validateReference_def oci_Exists_def demo_blobPath demo_push_R_eq)

lemma demo_oci_sel: "os_fs demo_oci = [([''blobs'', ''sha256'', ''M''], ''M''), ([''blobs'', ''sha256'', ''R''], ''R'')]"
  "os_AutoGC demo_oci" "os_AutoSaveIndex demo_oci"
   "os_graph demo_oci = graph_add (graph_add graph_NewMemory demo_manifest [demo_config, demo_layer]) demo_referrer [demo_manifest, demo_config]"
   "r_index (os_resolver demo_oci) = [(''sha256:M'', demo_manifest), (''sha256:R'', demo_referrer), (''sig'', demo_referrer)]"
  by (simp_all add: demo_oci_eq demo_push_R_eq demo_push_M_eq oci_empty_def resolver_NewMemory_def)

lemma demo_oci_reachable: "os_reachable demo_graph_ext demo_ty demo_oci"
proof -
  have "os_step demo_graph_ext demo_ty oci_empty demo_push_M" "os_step demo_graph_ext demo_ty demo_push_M demo_push_R"
    unfolding demo_push_M_def demo_push_R_def by (rule os_step.push; simp add: demo_ty_def)+
  moreover have "os_step demo_graph_ext demo_ty demo_push_R demo_oci"
    unfolding demo_oci_def by (rule os_step.tag) (simp_all add: demo_ty_def)
  ultimately show ?thesis unfolding os_reachable_def by (auto simp: os_New_empty)
qed

section \<open>Opening a layout again\<close>

lemma IndexAll_no_error:
  assumes "IndexAll P fetch g node r g'" "\<And>d e. Successors P fetch d = Inl e \<Longrightarrow> e = ErrNotFound"
  shows "r = None"
proof -
  have "ia_err st = None" if "(ia_step P fetch)\<^sup>*\<^sup>* (ia_init g node) st" for st
    using that
  proof (induction rule: rtranclp_induct)
    case (step y z)
    from step.hyps(2) step.IH assms(2) show ?case
      by (cases rule: ia_step.cases) (auto simp: graph_index_def split: sum.splits)
  qed (simp add: ia_init_def)
  with assms(1) show ?thesis by (auto simp: IndexAll_def)
qed

lemma loadIndex_no_error:
  assumes "\<And>d e. Successors P fetch d = Inl e \<Longrightarrow> e = ErrNotFound"
  shows "loadIndex P fetch ms r g = Some (e, r', g') \<Longrightarrow> e = None"
proof (induction ms arbitrary: r g)
  case (Cons d ms)
  from Cons.prems obtain e1 g1 where g1: "graph_IndexAll P fetch g (Plain d) = Some (e1, g1)"
    by (auto simp: Let_def split: option.splits)
  have "e1 = None" by (rule IndexAll_no_error [OF graph_IndexAll_sound [OF g1] assms])
  with Cons.prems g1 Cons.IH show ?case by (auto simp: Let_def)
qed simp

lemma os_Resolve_refs:
  assumes "os_fs s' = os_fs s" "refs_of s' = refs_of s"
  shows "map_sum id FromOCI (os_Resolve P s' ref) = map_sum id FromOCI (os_Resolve P s ref)"
proof -
  from fun_cong [OF assms(2), of ref] consider
      "gm_get (r_index (os_resolver s')) ref = None" "gm_get (r_index (os_resolver s)) ref = None"
    | d d' where "gm_get (r_index (os_resolver s')) ref = Some d" "gm_get (r_index (os_resolver s)) ref = Some d'"
        "FromOCI d = FromOCI d'"
    unfolding refs_of_def by (auto simp: map_option_case split: option.splits)
  then show ?thesis
    using assms(1)
    by cases (auto simp: os_Resolve_def oci_Resolve_def resolver_Resolve_def)
qed

lemma refs_of_tags:
  "(\<exists>d. gm_get (r_index (os_resolver s)) t = Some d \<and> t \<noteq> Digest d) \<longleftrightarrow>
   (\<exists>k. refs_of s t = Some k \<and> t \<noteq> key_digest k)"
  by (auto simp: refs_of_def)

lemma os_Tags_set:
  assumes "r_ok (os_resolver s)" "valid_order ord"
  shows "sorted (os_Tags ord s last')" "distinct (os_Tags ord s last')"
    "set (os_Tags ord s last') =
       {t. (\<exists>k. refs_of s t = Some k \<and> t \<noteq> key_digest k) \<and> (last' = [] \<or> last' < t)}"
  unfolding os_Tags_def refs_of_tags [symmetric]
  using listTags_set [OF r_ok_gm [OF assms(1)] assms(2), of last'] by auto

lemma os_Tags_refs:
  assumes "r_ok (os_resolver s)" "r_ok (os_resolver s')" "valid_order ord" "valid_order ord'"
    and "refs_of s' = refs_of s"
  shows "os_Tags ord s' last' = os_Tags ord' s last'"
  by (rule sorted_distinct_set_unique)
    (simp_all only: os_Tags_set [OF assms(1,4)] os_Tags_set [OF assms(2,3)] assms(5))

section \<open>What holds in every history\<close>





end
