(* ===== verification/Oci_Delete.thy ===== *)
theory Oci_Delete
  imports Oci_Histories
begin

text \<open>
  What \<^verbatim>\<open>Store.Delete\<close> of \<^verbatim>\<open>content/oci/oci.go\<close> removes: the target, and with the option
  \<^verbatim>\<open>AutoGC\<close> the closure of it under referrers and under untagged nodes that are left without
  predecessor. The deletion loop is followed round by round, with the set of the keys removed
  so far.
\<close>

section \<open>What is to be removed\<close>

inductive os_doomed :: "ext \<Rightarrow> ocistore \<Rightarrow> descriptor \<Rightarrow> key \<Rightarrow> bool" for P s t where
  target: "os_doomed P s t (FromOCI t)"
| referrer: "\<lbrakk>os_doomed P s t (FromOCI y); IsManifest y; ag_nodes (abs_graph (os_graph s)) k = Some d;
     (k, FromOCI y) \<in> ag_edges (abs_graph (os_graph s));
     Subject P (os_Fetch P s) d = Inr (Some sj); Equal sj y\<rbrakk> \<Longrightarrow> os_doomed P s t k"
| dangling: "\<lbrakk>os_doomed P s t k; (k, x) \<in> ag_edges (abs_graph (os_graph s));
     ag_nodes (abs_graph (os_graph s)) x = Some d; \<not> os_isTagged s d;
     \<And>n. (n, x) \<in> ag_edges (abs_graph (os_graph s)) \<Longrightarrow> os_doomed P s t n\<rbrakk> \<Longrightarrow> os_doomed P s t x"

definition os_removed :: "ext \<Rightarrow> ocistore \<Rightarrow> descriptor \<Rightarrow> key set" where
  "os_removed P s t = (if os_AutoGC s then {k. os_doomed P s t k} else {FromOCI t})"

section \<open>The state when some nodes have been removed\<close>

definition os_minus :: "ext \<Rightarrow> ocistore \<Rightarrow> key set \<Rightarrow> ocistore \<Rightarrow> bool" where
  "os_minus P s0 R s \<longleftrightarrow>
     (\<forall>k. ag_nodes (abs_graph (os_graph s)) k = (if k \<in> R then None else ag_nodes (abs_graph (os_graph s0)) k))
   \<and> ag_edges (abs_graph (os_graph s)) = {(n, x) \<in> ag_edges (abs_graph (os_graph s0)). n \<notin> R}
   \<and> (\<forall>ref. refs_of s ref = (case refs_of s0 ref of None \<Rightarrow> None | Some k \<Rightarrow> if k \<in> R then None else Some k))
   \<and> (\<forall>dg. oci_stored P (os_fs s) dg \<longleftrightarrow> oci_stored P (os_fs s0) dg \<and> dg \<notin> key_digest ` R)
   \<and> (\<forall>d. Digest d \<notin> key_digest ` R \<longrightarrow> os_Fetch P s d = os_Fetch P s0 d)
   \<and> (\<forall>d. Digest d \<notin> key_digest ` R \<longrightarrow>
        resolver_TagSet (os_resolver s) d = resolver_TagSet (os_resolver s0) d)
   \<and> os_AutoGC s = os_AutoGC s0"

lemma os_minusD:
  assumes "os_minus P s0 R s"
  shows "ag_nodes (abs_graph (os_graph s)) k = (if k \<in> R then None else ag_nodes (abs_graph (os_graph s0)) k)"
    "ag_edges (abs_graph (os_graph s)) = {(n, x) \<in> ag_edges (abs_graph (os_graph s0)). n \<notin> R}"
    "refs_of s ref = (case refs_of s0 ref of None \<Rightarrow> None | Some k \<Rightarrow> if k \<in> R then None else Some k)"
    "oci_stored P (os_fs s) dg \<longleftrightarrow> oci_stored P (os_fs s0) dg \<and> dg \<notin> key_digest ` R"
    "Digest d \<notin> key_digest ` R \<Longrightarrow> os_Fetch P s d = os_Fetch P s0 d"
    "Digest d \<notin> key_digest ` R \<Longrightarrow> resolver_TagSet (os_resolver s) d = resolver_TagSet (os_resolver s0) d"
    "os_AutoGC s = os_AutoGC s0"
  using assms unfolding os_minus_def by blast+

lemma os_minus_refl: "os_minus P s {} s"
  by (auto simp: os_minus_def split: option.splits)

lemma foldl_Untag_TagSet:
  "(\<And>ref x. \<lbrakk>ref \<in> set refs; gm_get (r_index r) ref = Some x\<rbrakk> \<Longrightarrow> Digest x \<noteq> Digest d) \<Longrightarrow>
   resolver_TagSet (foldl resolver_Untag r refs) d = resolver_TagSet r d"
proof (induction refs arbitrary: r)
  case (Cons ref refs)
  have "resolver_TagSet (foldl resolver_Untag (resolver_Untag r ref) refs) d = resolver_TagSet (resolver_Untag r ref) d"
  proof (rule Cons.IH)
    fix a x assume "a \<in> set refs" "gm_get (r_index (resolver_Untag r ref)) a = Some x"
    then show "Digest x \<noteq> Digest d" using Cons.prems [of a x] by (simp split: if_splits)
  qed
  moreover have "resolver_TagSet (resolver_Untag r ref) d = resolver_TagSet r d"
    using Cons.prems [of ref] by (auto simp: TagSet_Untag split: option.splits)
  ultimately show ?case by simp
qed simp

lemma os_unindex_TagSet:
  assumes "r_ok (os_resolver s)" "valid_order (ords 0)" "Digest d \<noteq> Digest head"
  shows "resolver_TagSet (os_resolver (snd (os_unindex ords s head))) d = resolver_TagSet (os_resolver s) d"
  unfolding os_unindex_sel
proof (rule foldl_Untag_TagSet)
  let ?m = "r_index (os_resolver s)"
  fix ref x
  assume "ref \<in> set (map fst (filter (\<lambda>(reference, desc). Equal desc head) (range_list (ords 0) ?m)))"
    and x: "gm_get ?m ref = Some x"
  then obtain y where "(ref, y) \<in> set ?m" "Equal y head" using assms(2) by auto
  with x gm_get_in_set [OF r_ok_gm [OF assms(1)], of ref y] have "Equal x head" by simp
  with assms(3) show "Digest x \<noteq> Digest d" by (simp add: Equal_def)
qed

lemma oci_Delete_effect:
  assumes "oci_inv P fs" "oci_Delete P fs d = (Inr x, fs')"
  shows "oci_stored P fs (Digest d)"
    "oci_stored P fs' dg \<longleftrightarrow> oci_stored P fs dg \<and> dg \<noteq> Digest d"
    "Digest d' \<noteq> Digest d \<Longrightarrow> oci_Fetch P fs' d' = oci_Fetch P fs d'"
proof -
  from assms(2) obtain p where p: "blobPath P (Digest d) = Inr p" "gm_get fs p \<noteq> None" "fs' = gm_del p fs"
    by (auto simp: oci_Delete_def split: sum.splits option.splits)
  have inj: "blobPath P dg = Inr p \<longleftrightarrow> dg = Digest d" for dg
    using blobPath_inject [of P dg p "Digest d"] p(1) assms(1) by (auto simp: oci_inv_def)
  have get: "gm_get fs' q = (if q = p then None else gm_get fs q)" for q
    using p(3) by simp
  show "oci_stored P fs (Digest d)" using p(1,2) unfolding oci_stored_def by blast
  show "oci_stored P fs' dg \<longleftrightarrow> oci_stored P fs dg \<and> dg \<noteq> Digest d"
    unfolding oci_stored_def get inj [symmetric] by (cases "blobPath P dg") simp_all
  show "Digest d' \<noteq> Digest d \<Longrightarrow> oci_Fetch P fs' d' = oci_Fetch P fs d'"
    unfolding oci_Fetch_def get inj [symmetric] by (cases "blobPath P (Digest d')") simp_all
qed

lemma os_delete_minus:
  assumes "os_good P ty s" "\<And>i. valid_order (ords i)" "os_minus P s0 R s"
    and "os_delete P ords s head = (Inr danglings, s')"
  shows "os_minus P s0 (insert (FromOCI head) R) s'" "Digest head \<notin> key_digest ` R"
    "set danglings = ag_danglings (abs_graph (os_graph s)) head"
proof -
  note G = os_goodD [OF assms(1)] and M = os_minusD [OF assms(3)]
  from assms(4) obtain fs where fs: "oci_Delete P (os_fs s) head = (Inr (), fs)"
    "s' = (snd (os_unindex ords s head))\<lparr>os_fs := fs\<rparr>"
    by (auto simp: os_delete_eq split: prod.splits sum.splits)
  note D = oci_Delete_effect [OF os_invD(1) [OF G(1)] fs(1)]
  show "Digest head \<notin> key_digest ` R" using D(1) M(4) by blast
  show "set danglings = ag_danglings (abs_graph (os_graph s)) head"
    by (rule os_delete_danglings [OF G(1) assms(2,4)])
  have g: "abs_graph (os_graph s') = ag_remove (abs_graph (os_graph s)) head"
    using abs_graph_Remove [OF os_invD(3) [OF G(1)] assms(2)] fs(2) by simp
  have refs: "refs_of s' = refs_without (FromOCI head) (refs_of s)"
    using refs_of_unindex [where ords = ords and d = head, OF os_invD(2) [OF G(1)] assms(2)] fs(2) by simp
  have 1: "ag_nodes (abs_graph (os_graph s')) k =
      (if k \<in> insert (FromOCI head) R then None else ag_nodes (abs_graph (os_graph s0)) k)" for k
    by (simp add: g ag_remove_def M(1))
  have 2: "ag_edges (abs_graph (os_graph s')) =
      {(n, x) \<in> ag_edges (abs_graph (os_graph s0)). n \<notin> insert (FromOCI head) R}"
    by (auto simp: g ag_remove_def M(2))
  have 3: "refs_of s' ref = (case refs_of s0 ref of None \<Rightarrow> None
      | Some k \<Rightarrow> if k \<in> insert (FromOCI head) R then None else Some k)" for ref
    unfolding refs refs_without_def M(3) by (auto split: option.splits)
  have 4: "oci_stored P (os_fs s') dg \<longleftrightarrow>
      oci_stored P (os_fs s0) dg \<and> dg \<notin> key_digest ` insert (FromOCI head) R" for dg
    using D(2) M(4) fs(2) by auto
  have 5: "os_Fetch P s' d = os_Fetch P s0 d" if "Digest d \<notin> key_digest ` insert (FromOCI head) R" for d
    using that D(3) [of d] M(5) [of d] fs(2) by (simp add: os_Fetch_def)
  have 6: "resolver_TagSet (os_resolver s') d = resolver_TagSet (os_resolver s0) d"
    if "Digest d \<notin> key_digest ` insert (FromOCI head) R" for d
    using that M(6) [of d] fs(2)
      os_unindex_TagSet [where ords = ords, OF os_invD(2) [OF G(1)] assms(2), of d head] by simp
  have 7: "os_AutoGC s' = os_AutoGC s0" using M(7) fs(2) by simp
  show "os_minus P s0 (insert (FromOCI head) R) s'"
    unfolding os_minus_def by (intro conjI allI impI) (rule 1 2 3 4 5 6 7; assumption?)+
qed

section \<open>One round\<close>

lemma good_node:
  assumes "os_good P ty s" "ag_nodes (abs_graph (os_graph s)) k = Some d"
  shows "FromOCI d = k" "k = ty (key_digest k)"
proof -
  from assms(2) have d: "gm_get (g_nodes (os_graph s)) k = Some d" by (simp add: abs_graph_def)
  with os_invD(3) [OF os_goodD(1) [OF assms(1)]] show k: "FromOCI d = k" by (simp add: g_ok_def)
  show "k = ty (key_digest k)" using os_goodD(6) [OF assms(1) d] k by (metis key_digest_FromOCI)
qed

lemma doomed_typed:
  assumes "os_good P ty s" "FromOCI t = ty (Digest t)"
  shows "os_doomed P s t k \<Longrightarrow> k = ty (key_digest k)"
proof (induction rule: os_doomed.induct)
  case target
  show ?case unfolding key_digest_FromOCI by (rule assms(2))
qed (rule good_node(2) [OF assms(1)], assumption)+

text \<open>A remaining node has another digest than the removed ones.\<close>

lemma remaining_digest:
  assumes "os_good P ty s0" "\<And>k. k \<in> R \<Longrightarrow> k = ty (key_digest k)"
    and "ag_nodes (abs_graph (os_graph s0)) k = Some d" "k \<notin> R"
  shows "Digest d \<notin> key_digest ` R"
proof
  assume "Digest d \<in> key_digest ` R"
  then obtain k' where k': "k' \<in> R" "key_digest k' = Digest d" by force
  have "k = ty (Digest d)" using good_node [OF assms(1,3)] by (metis key_digest_FromOCI)
  with assms(2) [OF k'(1)] k' assms(4) show False by simp
qed

lemma Subject_fetch_cong: "fetch d = fetch' d \<Longrightarrow> Subject P fetch d = Subject P fetch' d"
  by (simp add: Subject_def FetchAll_def)

lemma os_referrers_keys:
  assumes "json_subject_ok P" "os_inv P s" "valid_order ord" "os_referrers P ord s head = Inr refs"
    and "os_AutoGC s" "IsManifest head"
  shows "FromOCI ` set refs = {k. \<exists>d sj. ag_nodes (abs_graph (os_graph s)) k = Some d
     \<and> (k, FromOCI head) \<in> ag_edges (abs_graph (os_graph s))
     \<and> Subject P (os_Fetch P s) d = Inr (Some sj) \<and> Equal sj head}"
proof -
  let ?p = "graph_Predecessors (os_graph s) ord head"
  from assms(4-6) have loop: "referrers_loop P (os_Fetch P s) head [] [] ?p = Inr refs"
    by (simp add: os_referrers_def Referrers_def os_Predecessors_def)
  have "FromOCI ` set refs = set (map FromOCI refs)" by simp
  also have "\<dots> = FromOCI ` {n \<in> set ?p. \<exists>sj. Subject P (os_Fetch P s) n = Inr (Some sj) \<and> Equal sj head}"
    unfolding referrers_loop_subjects [OF assms(1) loop] by simp
  also have "set ?p = {d. \<exists>k. gm_get (g_nodes (os_graph s)) k = Some d
      \<and> FromOCI head \<in> set (gset (g_succs (os_graph s)) k)}"
    by (rule graph_Predecessors_set(1) [OF os_invD(3) [OF assms(2)] assms(3)])
  finally have eq: "FromOCI ` set refs = FromOCI ` {n \<in> {d. \<exists>k. gm_get (g_nodes (os_graph s)) k = Some d
      \<and> FromOCI head \<in> set (gset (g_succs (os_graph s)) k)}.
      \<exists>sj. Subject P (os_Fetch P s) n = Inr (Some sj) \<and> Equal sj head}" .
  have key: "gm_get (g_nodes (os_graph s)) k = Some d \<Longrightarrow> FromOCI d = k" for k d
    using os_invD(3) [OF assms(2)] by (simp add: g_ok_def)
  show ?thesis unfolding eq by (auto simp: abs_graph_def image_iff dest: key)
qed

text \<open>
  The keys \<open>K\<close> contain what the removal of \<open>R\<close> entails.
\<close>

definition os_closed :: "ext \<Rightarrow> ocistore \<Rightarrow> key set \<Rightarrow> key set \<Rightarrow> bool" where
  "os_closed P s R K \<longleftrightarrow>
     (\<forall>y k d sj. FromOCI y \<in> R \<and> IsManifest y \<and> ag_nodes (abs_graph (os_graph s)) k = Some d
        \<and> (k, FromOCI y) \<in> ag_edges (abs_graph (os_graph s))
        \<and> Subject P (os_Fetch P s) d = Inr (Some sj) \<and> Equal sj y \<longrightarrow> k \<in> K)
   \<and> (\<forall>k x d. k \<in> R \<and> (k, x) \<in> ag_edges (abs_graph (os_graph s)) \<and> ag_nodes (abs_graph (os_graph s)) x = Some d
        \<and> \<not> os_isTagged s d \<and> (\<forall>n. (n, x) \<in> ag_edges (abs_graph (os_graph s)) \<longrightarrow> n \<in> R) \<longrightarrow> x \<in> K)"

lemma os_closed_doomed:
  assumes "os_closed P s R R" "FromOCI t \<in> R" "os_doomed P s t k"
  shows "k \<in> R"
  using assms(3)
proof (induction rule: os_doomed.induct)
  case target
  show ?case by (rule assms(2))
next
  case referrer
  then show ?case using assms(1) unfolding os_closed_def by blast
next
  case dangling
  then show ?case using assms(1) unfolding os_closed_def by blast
qed

lemma FromOCI_same:
  "FromOCI y = FromOCI z \<Longrightarrow> IsManifest y = IsManifest z \<and> Equal sj y = Equal sj z"
  by (simp add: FromOCI_def IsManifest_def Equal_def)

lemma os_isTagged_minus:
  "\<lbrakk>os_minus P s0 R s; Digest d \<notin> key_digest ` R\<rbrakk> \<Longrightarrow> os_isTagged s d = os_isTagged s0 d"
  using os_minusD(6) [of P s0 R s d] by (simp add: os_isTagged_def)

text \<open>What a round puts into the queue, in terms of the state before the deletion.\<close>

lemma round_referrers:
  assumes "json_subject_ok P" "os_good P ty s0" "os_good P ty s" "os_minus P s0 R s" "os_AutoGC s"
    and typed: "\<And>k. k \<in> R \<Longrightarrow> k = ty (key_digest k)"
    and "valid_order ord" "os_referrers P ord s head = Inr refs"
  shows "FromOCI ` set refs = {k. k \<notin> R \<and> IsManifest head \<and> (\<exists>d sj. ag_nodes (abs_graph (os_graph s0)) k = Some d
     \<and> (k, FromOCI head) \<in> ag_edges (abs_graph (os_graph s0))
     \<and> Subject P (os_Fetch P s0) d = Inr (Some sj) \<and> Equal sj head)}"
proof (cases "IsManifest head")
  case True
  have "Subject P (os_Fetch P s) d = Subject P (os_Fetch P s0) d"
    if "ag_nodes (abs_graph (os_graph s0)) k = Some d" "k \<notin> R" for k d
    by (rule Subject_fetch_cong, rule os_minusD(5) [OF assms(4)], rule remaining_digest [OF assms(2) typed that])
  with os_referrers_keys [OF assms(1) os_goodD(1) [OF assms(3)] assms(7,8,5) True] True show ?thesis
    unfolding os_minusD(1,2) [OF assms(4)] by (auto split: if_splits)
next
  case False
  with assms(8) show ?thesis by (simp add: os_referrers_def)
qed

lemma round_danglings:
  assumes "os_good P ty s0" "os_minus P s0 R s" "os_minus P s0 (insert (FromOCI head) R) s'" "FromOCI head \<notin> R"
    and typed: "\<And>k. k \<in> insert (FromOCI head) R \<Longrightarrow> k = ty (key_digest k)"
    and "set danglings = ag_danglings (abs_graph (os_graph s)) head"
  shows "insert (FromOCI head) (FromOCI ` set (filter (\<lambda>d. \<not> os_isTagged s' d) danglings)) =
    insert (FromOCI head) {x. x \<notin> R \<and> (FromOCI head, x) \<in> ag_edges (abs_graph (os_graph s0))
      \<and> (\<exists>d. ag_nodes (abs_graph (os_graph s0)) x = Some d \<and> \<not> os_isTagged s0 d)
      \<and> (\<forall>n. (n, x) \<in> ag_edges (abs_graph (os_graph s0)) \<longrightarrow> n \<in> insert (FromOCI head) R)}"
proof -
  have tag: "os_isTagged s' d = os_isTagged s0 d"
    if "ag_nodes (abs_graph (os_graph s0)) k = Some d" "k \<notin> insert (FromOCI head) R" for k d
    by (rule os_isTagged_minus [OF assms(3) remaining_digest [OF assms(1) typed that]])
  have key: "ag_nodes (abs_graph (os_graph s0)) k = Some d \<Longrightarrow> FromOCI d = k" for k d
    by (rule good_node(1) [OF assms(1)])
  have D: "d \<in> set danglings \<longleftrightarrow> (\<exists>x. x \<notin> R \<and> ag_nodes (abs_graph (os_graph s0)) x = Some d
      \<and> (FromOCI head, x) \<in> ag_edges (abs_graph (os_graph s0))
      \<and> (\<forall>n. (n, x) \<in> ag_edges (abs_graph (os_graph s0)) \<longrightarrow> n \<in> insert (FromOCI head) R))" for d
    unfolding assms(6) ag_danglings_def os_minusD(1,2) [OF assms(2)] using assms(4)
    by (auto split: if_splits)
  show ?thesis
  proof (intro set_eqI)
    fix x
    have "x \<in> FromOCI ` set (filter (\<lambda>d. \<not> os_isTagged s' d) danglings) \<longleftrightarrow>
        (\<exists>d. d \<in> set danglings \<and> \<not> os_isTagged s' d \<and> FromOCI d = x)" by auto
    moreover have "(\<exists>d. d \<in> set danglings \<and> \<not> os_isTagged s' d \<and> FromOCI d = x) \<longleftrightarrow>
        x \<notin> R \<and> (FromOCI head, x) \<in> ag_edges (abs_graph (os_graph s0))
      \<and> (\<exists>d. ag_nodes (abs_graph (os_graph s0)) x = Some d \<and> \<not> os_isTagged s0 d)
      \<and> (\<forall>n. (n, x) \<in> ag_edges (abs_graph (os_graph s0)) \<longrightarrow> n \<in> insert (FromOCI head) R)"
      if "x \<noteq> FromOCI head"
      unfolding D using key tag that by blast
    ultimately show "x \<in> insert (FromOCI head) (FromOCI ` set (filter (\<lambda>d. \<not> os_isTagged s' d) danglings)) \<longleftrightarrow>
       x \<in> insert (FromOCI head) {x. x \<notin> R \<and> (FromOCI head, x) \<in> ag_edges (abs_graph (os_graph s0))
      \<and> (\<exists>d. ag_nodes (abs_graph (os_graph s0)) x = Some d \<and> \<not> os_isTagged s0 d)
      \<and> (\<forall>n. (n, x) \<in> ag_edges (abs_graph (os_graph s0)) \<longrightarrow> n \<in> insert (FromOCI head) R)}"
      by blast
  qed
qed

text \<open>
  A round keeps the queue within what is to be removed and puts everything into it that the
  removal of the node entails.
\<close>

lemma round_doomed:
  assumes R: "\<And>k. k \<in> R \<Longrightarrow> os_doomed P s0 t k" and h: "os_doomed P s0 t (FromOCI head)"
    and refs: "FromOCI ` set refs = {k. k \<notin> R \<and> IsManifest head \<and> (\<exists>d sj. ag_nodes (abs_graph (os_graph s0)) k = Some d
     \<and> (k, FromOCI head) \<in> ag_edges (abs_graph (os_graph s0))
     \<and> Subject P (os_Fetch P s0) d = Inr (Some sj) \<and> Equal sj head)}"
    and dang: "insert (FromOCI head) (FromOCI ` D) =
    insert (FromOCI head) {x. x \<notin> R \<and> (FromOCI head, x) \<in> ag_edges (abs_graph (os_graph s0))
      \<and> (\<exists>d. ag_nodes (abs_graph (os_graph s0)) x = Some d \<and> \<not> os_isTagged s0 d)
      \<and> (\<forall>n. (n, x) \<in> ag_edges (abs_graph (os_graph s0)) \<longrightarrow> n \<in> insert (FromOCI head) R)}"
    and k: "k \<in> insert (FromOCI head) R \<union> FromOCI ` set refs \<union> FromOCI ` D"
  shows "os_doomed P s0 t k"
proof -
  from k consider "k = FromOCI head" | "k \<in> R" | (r) "k \<in> FromOCI ` set refs"
    | (d) "k \<in> FromOCI ` D" "k \<noteq> FromOCI head" by blast
  then show ?thesis
  proof cases
    case r
    then show ?thesis unfolding refs using os_doomed.referrer [OF h] by blast
  next
    case d
    then have "k \<in> insert (FromOCI head) (FromOCI ` D)" by blast
    with d(2) obtain x where x: "(FromOCI head, k) \<in> ag_edges (abs_graph (os_graph s0))"
      "ag_nodes (abs_graph (os_graph s0)) k = Some x" "\<not> os_isTagged s0 x"
      "\<And>n. (n, k) \<in> ag_edges (abs_graph (os_graph s0)) \<Longrightarrow> n \<in> insert (FromOCI head) R"
      unfolding dang by blast
    show ?thesis using x(4) R h by (intro os_doomed.dangling [OF h x(1-3)]) blast
  qed (use R h in auto)
qed

lemma round_closed:
  assumes old: "os_closed P s0 R (R \<union> insert (FromOCI head) Q)"
    and refs: "FromOCI ` set refs = {k. k \<notin> R \<and> IsManifest head \<and> (\<exists>d sj. ag_nodes (abs_graph (os_graph s0)) k = Some d
     \<and> (k, FromOCI head) \<in> ag_edges (abs_graph (os_graph s0))
     \<and> Subject P (os_Fetch P s0) d = Inr (Some sj) \<and> Equal sj head)}"
    and dang: "insert (FromOCI head) (FromOCI ` D) =
    insert (FromOCI head) {x. x \<notin> R \<and> (FromOCI head, x) \<in> ag_edges (abs_graph (os_graph s0))
      \<and> (\<exists>d. ag_nodes (abs_graph (os_graph s0)) x = Some d \<and> \<not> os_isTagged s0 d)
      \<and> (\<forall>n. (n, x) \<in> ag_edges (abs_graph (os_graph s0)) \<longrightarrow> n \<in> insert (FromOCI head) R)}"
  shows "os_closed P s0 (insert (FromOCI head) R) (insert (FromOCI head) R \<union> (Q \<union> FromOCI ` set refs \<union> FromOCI ` D))"
    (is "os_closed P s0 ?R ?K")
  unfolding os_closed_def
proof (intro conjI allI impI; elim conjE)
  fix y k d sj
  assume a: "FromOCI y \<in> ?R" "IsManifest y" "ag_nodes (abs_graph (os_graph s0)) k = Some d"
    "(k, FromOCI y) \<in> ag_edges (abs_graph (os_graph s0))" "Subject P (os_Fetch P s0) d = Inr (Some sj)" "Equal sj y"
  show "k \<in> ?K"
  proof (cases "FromOCI y = FromOCI head \<and> k \<notin> R")
    case True
    with a FromOCI_same [of y head sj] have "k \<in> FromOCI ` set refs" unfolding refs by auto
    then show ?thesis by blast
  next
    case False
    with a old show ?thesis unfolding os_closed_def by blast
  qed
next
  fix k x d
  assume a: "k \<in> ?R" "(k, x) \<in> ag_edges (abs_graph (os_graph s0))" "ag_nodes (abs_graph (os_graph s0)) x = Some d"
    "\<not> os_isTagged s0 d" "\<forall>n. (n, x) \<in> ag_edges (abs_graph (os_graph s0)) \<longrightarrow> n \<in> ?R"
  show "x \<in> ?K"
  proof (cases "(FromOCI head, x) \<in> ag_edges (abs_graph (os_graph s0)) \<and> x \<notin> R")
    case True
    with a have "x \<in> insert (FromOCI head) (FromOCI ` D)" unfolding dang by blast
    then show ?thesis by blast
  next
    case False
    then consider "x \<in> R" | "(FromOCI head, x) \<notin> ag_edges (abs_graph (os_graph s0))" by blast
    then show ?thesis
    proof cases
      case 2
      with a have "k \<in> R" "\<forall>n. (n, x) \<in> ag_edges (abs_graph (os_graph s0)) \<longrightarrow> n \<in> R" by blast+
      with a old show ?thesis unfolding os_closed_def by blast
    qed blast
  qed
qed

section \<open>The loop\<close>

lemma os_Delete_loop_eq:
  "os_Delete_loop P ords n s (head # queue) = (case os_referrers P (ords n 0) s head of
     Inl e \<Rightarrow> (Inl e, s)
   | Inr referrers \<Rightarrow> (case os_delete P (\<lambda>i. ords n (i + 1)) s head of
       (Inl e, s') \<Rightarrow> (Inl e, s')
     | (Inr danglings, s') \<Rightarrow> os_Delete_loop P ords (n + 1) s' (queue @ referrers @
         (if os_AutoGC s' then filter (\<lambda>d. \<not> os_isTagged s' d) danglings else []))))"
  unfolding os_referrers_def by (rule os_Delete_loop.simps(2))

lemma os_Delete_loop_Cons:
  assumes "os_Delete_loop P ords n s (head # queue) = (Inr (), s')"
  obtains refs danglings s1 where "os_referrers P (ords n 0) s head = Inr refs"
    "os_delete P (\<lambda>i. ords n (i + 1)) s head = (Inr danglings, s1)"
    "os_Delete_loop P ords (n + 1) s1 (queue @ refs @
        (if os_AutoGC s1 then filter (\<lambda>d. \<not> os_isTagged s1 d) danglings else [])) = (Inr (), s')"
  using assms that by (auto simp: os_referrers_def [symmetric] split: sum.splits prod.splits)

lemma Delete_loop_removes:
  assumes "json_subject_ok P" "os_good P ty s0" "FromOCI t = ty (Digest t)" "os_AutoGC s0"
    and v: "\<And>n i. valid_order (ords n i)"
  shows "\<lbrakk>os_good P ty s; os_minus P s0 R s; \<forall>k\<in>R \<union> FromOCI ` set q. os_doomed P s0 t k;
    os_closed P s0 R (R \<union> FromOCI ` set q); os_Delete_loop P ords n s q = (Inr (), s')\<rbrakk> \<Longrightarrow>
    \<exists>R'. os_minus P s0 R' s' \<and> R \<union> FromOCI ` set q \<subseteq> R' \<and> (\<forall>k\<in>R'. os_doomed P s0 t k) \<and> os_closed P s0 R' R'"
proof (induction "length (os_fs s)" arbitrary: n s q R rule: less_induct)
  case less
  show ?case
  proof (cases q)
    case Nil
    with less.prems show ?thesis by (intro exI [of _ R]) simp
  next
    case (Cons head queue)
    let ?R = "insert (FromOCI head) R" and ?ords = "\<lambda>i. ords n (i + 1)"
    from less.prems(5) [unfolded Cons] obtain refs danglings s1 where
      refs: "os_referrers P (ords n 0) s head = Inr refs" and del: "os_delete P ?ords s head = (Inr danglings, s1)"
      and rest: "os_Delete_loop P ords (n + 1) s1 (queue @ refs @
        (if os_AutoGC s1 then filter (\<lambda>d. \<not> os_isTagged s1 d) danglings else [])) = (Inr (), s')"
      by (rule os_Delete_loop_Cons)
    let ?D = "filter (\<lambda>d. \<not> os_isTagged s1 d) danglings"
    have doomed: "os_doomed P s0 t k" if "k \<in> insert (FromOCI head) R \<union> FromOCI ` set queue" for k
      using less.prems(3) that unfolding Cons by auto
    have typed: "k = ty (key_digest k)" if "k \<in> insert (FromOCI head) R" for k
      using doomed_typed [OF assms(2,3) doomed] that by blast
    note m = os_delete_minus [OF less.prems(1) v less.prems(2) del]
    have nR: "FromOCI head \<notin> R" using m(2) by force
    have gc: "os_AutoGC s" "os_AutoGC s1" using os_minusD(7) [OF less.prems(2)] os_minusD(7) [OF m(1)] assms(4) by simp_all
    have good: "os_good P ty s1"
      using os_delete_good [where ords = ?ords and d = head, OF less.prems(1) v] typed [of "FromOCI head"] del by simp
    have r: "FromOCI ` set refs = {k. k \<notin> R \<and> IsManifest head \<and> (\<exists>d sj. ag_nodes (abs_graph (os_graph s0)) k = Some d
       \<and> (k, FromOCI head) \<in> ag_edges (abs_graph (os_graph s0))
       \<and> Subject P (os_Fetch P s0) d = Inr (Some sj) \<and> Equal sj head)}"
      by (rule round_referrers [OF assms(1,2) less.prems(1,2) gc(1) typed v refs]) blast
    note d = round_danglings [OF assms(2) less.prems(2) m(1) nR typed m(3)]
    have q: "FromOCI ` set (queue @ refs @ ?D) = FromOCI ` set queue \<union> FromOCI ` set refs \<union> FromOCI ` set ?D"
      unfolding set_append image_Un by (simp only: Un_assoc)
    have X: "\<forall>k\<in>?R \<union> FromOCI ` set (queue @ refs @ ?D). os_doomed P s0 t k"
      using round_doomed [OF doomed doomed r d] doomed unfolding q by blast
    have Y: "os_closed P s0 ?R (?R \<union> FromOCI ` set (queue @ refs @ ?D))"
      using less.prems(4) unfolding q Cons by (intro round_closed [OF _ r d]) (simp add: insert_is_Un [symmetric])
    have "os_Delete_loop P ords (n + 1) s1 (queue @ refs @ ?D) = (Inr (), s')" using rest gc(2) by simp
    from less.hyps [OF os_delete_length [OF del] good m(1) X Y this]
    obtain R' where "os_minus P s0 R' s'" "?R \<union> FromOCI ` set (queue @ refs @ ?D) \<subseteq> R'"
        "\<forall>k\<in>R'. os_doomed P s0 t k" "os_closed P s0 R' R'"
      by blast
    then show ?thesis unfolding Cons by (intro exI [of _ R']) auto
  qed
qed

lemma os_Delete_removes:
  assumes "json_subject_ok P" "os_good P ty s" "FromOCI t = ty (Digest t)" "\<And>n i. valid_order (ords n i)"
    and "os_Delete P ords s t = (Inr (), s')"
  shows "os_minus P s (os_removed P s t) s'"
proof (cases "os_AutoGC s")
  case True
  have "os_closed P s {} ({} \<union> FromOCI ` set [t])" by (simp add: os_closed_def)
  from Delete_loop_removes [OF assms(1-3) True assms(4,2) os_minus_refl _ this assms(5) [unfolded os_Delete_def]]
  obtain R where R: "os_minus P s R s'" "FromOCI t \<in> R" "\<forall>k\<in>R. os_doomed P s t k" "os_closed P s R R"
    by (auto simp: os_doomed.target)
  have "R = {k. os_doomed P s t k}" using R(3) os_closed_doomed [OF R(4,2)] by blast
  with R(1) True show ?thesis by (simp add: os_removed_def)
next
  case False
  obtain refs danglings s1 where refs: "os_referrers P (ords 0 0) s t = Inr refs"
    and del: "os_delete P (\<lambda>i. ords 0 (i + 1)) s t = (Inr danglings, s1)"
    and rest: "os_Delete_loop P ords (0 + 1) s1 ([] @ refs @
        (if os_AutoGC s1 then filter (\<lambda>d. \<not> os_isTagged s1 d) danglings else [])) = (Inr (), s')"
    by (rule os_Delete_loop_Cons [OF assms(5) [unfolded os_Delete_def]])
  note m = os_delete_minus(1) [OF assms(2) assms(4) os_minus_refl del]
  have "refs = []" "\<not> os_AutoGC s1"
    using refs False os_minusD(7) [OF m] by (simp_all add: os_referrers_def)
  with rest m False show ?thesis by (simp add: os_removed_def)
qed

section \<open>A concrete deletion\<close>

lemma demo_keys [simp]: "FromOCI demo_manifest \<noteq> FromOCI demo_referrer" "FromOCI demo_referrer \<noteq> FromOCI demo_manifest"
  "FromOCI demo_config \<noteq> FromOCI demo_manifest" "FromOCI demo_layer \<noteq> FromOCI demo_manifest"
  "FromOCI demo_config \<noteq> FromOCI demo_referrer" "FromOCI demo_layer \<noteq> FromOCI demo_referrer"
  "FromOCI demo_manifest \<noteq> FromOCI demo_config" "FromOCI demo_manifest \<noteq> FromOCI demo_layer"
  "FromOCI demo_referrer \<noteq> FromOCI demo_config" "FromOCI demo_referrer \<noteq> FromOCI demo_layer"
  "FromOCI demo_config \<noteq> FromOCI demo_layer" "FromOCI demo_layer \<noteq> FromOCI demo_config"
  by (simp_all add: FromOCI_def demo_nodes)

lemma demo_oci_graph: "os_graph demo_oci = \<lparr>g_nodes = [(FromOCI demo_manifest, demo_manifest), (FromOCI demo_referrer, demo_referrer)],
  g_preds = [FromOCI demo_config \<mapsto> [FromOCI demo_referrer, FromOCI demo_manifest], FromOCI demo_layer \<mapsto> [FromOCI demo_manifest], FromOCI demo_manifest \<mapsto> [FromOCI demo_referrer]],
  g_succs = [FromOCI demo_manifest \<mapsto> [FromOCI demo_layer, FromOCI demo_config], FromOCI demo_referrer \<mapsto> [FromOCI demo_config, FromOCI demo_manifest]]\<rparr>"
  by (simp add: demo_oci_sel graph_add_def graph_add_edge_def graph_NewMemory_def gset_def List.insert_def Let_def fun_eq_iff)


lemma demo_FetchR: "oci_Fetch demo_graph_ext [([''blobs'', ''sha256'', ''M''], ''M''), ([''blobs'', ''sha256'', ''R''], ''R'')] demo_referrer = Inr (bytes_reader ''R'')"
  by (simp add: oci_Fetch_def demo_blobPath)
lemma demo_FetchAllR: "fetch demo_referrer = Inr (bytes_reader ''R'') \<Longrightarrow> FetchAll demo_graph_ext fetch demo_referrer = Inr ''R''"
  using demo_FetchAll by (simp add: FetchAll_def demo_fetch_def)
lemma demo_decode: "un_manifest demo_graph_ext ''R'' = Some \<lparr>m_MediaType = oci_MediaTypeImageManifest,
        m_ArtifactType = ''sbom'', m_Config = demo_config, m_Layers = [],
        m_Subject = Some demo_manifest, m_Annotations = None\<rparr>"
  by (simp add: demo_graph_ext_def demo_decode_def)
lemma demo_referrers: "os_referrers demo_graph_ext id_order demo_oci demo_manifest = Inr [demo_referrer\<lparr>ArtifactType := ''sbom'', Annotations := None\<rparr>]"
proof -
  have "referrer_of demo_graph_ext (os_Fetch demo_graph_ext demo_oci) demo_manifest demo_referrer = 
     Inr (Some (demo_referrer\<lparr>ArtifactType := ''sbom'', Annotations := None\<rparr>))"
   using demo_FetchAllR [of "os_Fetch demo_graph_ext demo_oci"] demo_FetchR
   by (simp add: referrer_of_def os_Fetch_def demo_oci_sel demo_decode Let_def) (simp add: demo_nodes)
  then show ?thesis
  by (simp add: os_referrers_def demo_oci_sel(1,2) Referrers_def os_Predecessors_def graph_Predecessors_def demo_oci_graph graph_node_def)
qed
definition demo_del_M :: ocistore where
   "demo_del_M = snd (os_delete demo_graph_ext (\<lambda>_. id_order) demo_oci demo_manifest)"
lemma demo_Equal [simp]: "Equal demo_referrer demo_manifest = False" "Equal demo_manifest demo_referrer = False"
  by (simp_all add: Equal_def)
lemma demo_del_fst: "fst (os_delete demo_graph_ext (\<lambda>_. id_order) demo_oci demo_manifest) = Inr []"
  by (simp add: demo_del_M_def os_delete_eq  oci_Delete_def demo_oci_sel(1-3,5) demo_blobPath
 resolver_Map_def Let_def graph_Remove_def demo_oci_graph demo_blobPath graph_remove_edge_def gset_def)
lemma demo_del_sel:
  "os_fs demo_del_M = [([''blobs'', ''sha256'', ''R''], ''R'')]" "os_AutoGC demo_del_M"
    "os_graph demo_del_M = \<lparr>g_nodes = [(FromOCI demo_referrer, demo_referrer)],
  g_preds = [FromOCI demo_config \<mapsto> [FromOCI demo_referrer], FromOCI demo_manifest \<mapsto> [FromOCI demo_referrer]],
  g_succs = [FromOCI demo_referrer \<mapsto> [FromOCI demo_config, FromOCI demo_manifest]]\<rparr>"
  by (simp_all add: demo_del_M_def os_delete_eq  oci_Delete_def demo_oci_sel(1-3,5) demo_blobPath
 resolver_Map_def Let_def graph_Remove_def demo_oci_graph demo_blobPath graph_remove_edge_def gset_def fun_eq_iff)

lemma demo_del_R:
  "os_referrers demo_graph_ext id_order demo_del_M (demo_referrer\<lparr>ArtifactType := at, Annotations := an\<rparr>) = Inr []"
  "fst (os_delete demo_graph_ext (\<lambda>_. id_order) demo_del_M (demo_referrer\<lparr>ArtifactType := at, Annotations := an\<rparr>)) = Inr []"
  by (simp_all add: os_referrers_def Referrers_def os_Predecessors_def graph_Predecessors_def os_delete_eq
      oci_Delete_def demo_del_sel demo_blobPath IsManifest_def graph_Remove_def Let_def graph_remove_edge_def gset_def)

lemma demo_Delete: "fst (os_Delete demo_graph_ext (\<lambda>_ _. id_order) demo_oci demo_manifest) = Inr ()"
proof -
  have 1: "os_delete demo_graph_ext (\<lambda>_. id_order) demo_oci demo_manifest = (Inr [], demo_del_M)"
    by (rule prod_eqI) (simp_all add: demo_del_fst demo_del_M_def)
  obtain s' where 2: "os_delete demo_graph_ext (\<lambda>_. id_order) demo_del_M
      (demo_referrer\<lparr>ArtifactType := ''sbom'', Annotations := None\<rparr>) = (Inr [], s')"
    using demo_del_R(2) by (metis prod.collapse)
  show ?thesis
    by (simp add: os_Delete_def os_Delete_loop_eq demo_referrers 1 demo_del_R(1) 2 del: os_Delete_loop.simps(2))
qed

section \<open>What a deletion removes\<close>

text \<open>
  C7. A successful deletion removes exactly the target and, with automatic garbage collection,
  the closure of the target under referrers of removed manifests and under untagged nodes all
  of whose predecessors are removed: their blobs, every reference to them and their nodes of
  the graph; everything else stays. Tags do not protect referrers: the witness deletes a
  manifest whose referrer is tagged, and the tag and its content are gone.
\<close>

theorem os_Delete_exact:
  assumes "consistent P ty" "json_subject_ok P" "os_reachable P ty s" "FromOCI t = ty (Digest t)"
    and "\<And>n i. valid_order (ords n i)" "os_Delete P ords s t = (Inr (), s')"
  shows "(\<forall>dg. oci_stored P (os_fs s') dg \<longleftrightarrow>
        oci_stored P (os_fs s) dg \<and> dg \<notin> key_digest ` os_removed P s t)
    \<and> (\<forall>ref. refs_of s' ref = (case refs_of s ref of None \<Rightarrow> None
        | Some k \<Rightarrow> if k \<in> os_removed P s t then None else Some k))
    \<and> (\<forall>k. gm_get (g_nodes (os_graph s')) k =
        (if k \<in> os_removed P s t then None else gm_get (g_nodes (os_graph s)) k))"
  using os_minusD(1,3,4) [OF os_Delete_removes [OF assms(2) os_reachable_good [OF assms(1,3)] assms(4-6)]]
  by (simp add: abs_graph_def)

theorem os_Delete_exact_witness:
  "fst (os_Delete demo_graph_ext (\<lambda>_ _. id_order) demo_oci demo_manifest) = Inr ()
   \<and> refs_of demo_oci ''sig'' = Some (FromOCI demo_referrer) \<and> os_isTagged demo_oci demo_referrer
   \<and> refs_of (snd (os_Delete demo_graph_ext (\<lambda>_ _. id_order) demo_oci demo_manifest)) ''sig'' = None"
proof -
  let ?s = "snd (os_Delete demo_graph_ext (\<lambda>_ _. id_order) demo_oci demo_manifest)"
  have sig: "refs_of demo_oci ''sig'' = Some (FromOCI demo_referrer)" by (simp add: refs_of_def demo_oci_sel)
  have "os_Delete demo_graph_ext (\<lambda>_ _. id_order) demo_oci demo_manifest = (Inr (), ?s)"
    using demo_Delete by (metis prod.collapse)
  note exact = os_Delete_exact [OF demo_consistent demo_json demo_oci_reachable _ valid_id_order this]
  have fetch: "os_Fetch demo_graph_ext demo_oci demo_referrer = Inr (bytes_reader ''R'')"
    by (simp add: os_Fetch_def demo_oci_sel demo_FetchR)
  have "Subject demo_graph_ext (os_Fetch demo_graph_ext demo_oci) demo_referrer = Inr (Some demo_manifest)"
    using demo_Subject Subject_fetch_cong [of "os_Fetch demo_graph_ext demo_oci" demo_referrer demo_fetch demo_graph_ext]
    by (simp add: fetch demo_fetch_def)
  then have "os_doomed demo_graph_ext demo_oci demo_manifest (FromOCI demo_referrer)"
    by (intro os_doomed.referrer [where d = demo_referrer and sj = demo_manifest, OF os_doomed.target]) (simp_all add: abs_graph_def demo_oci_graph gset_def)
  with exact sig have "refs_of ?s ''sig'' = None" by (simp add: os_removed_def demo_oci_sel demo_ty_def)
  moreover have "os_isTagged demo_oci demo_referrer"
    by (simp add: os_isTagged_def demo_oci_eq demo_push_R_eq demo_push_M_eq oci_empty_def resolver_Tag_def Let_def
        resolver_TagSet_def resolver_NewMemory_def List.insert_def)
  ultimately show ?thesis using demo_Delete sig by blast
qed

end
