(* ===== verification/Oci_GC.thy ===== *)
theory Oci_GC
  imports Oci_Delete
begin

text \<open>
  Garbage collection of the OCI store: \<^verbatim>\<open>GC\<close> and \<^verbatim>\<open>gcIndex\<close> of \<^verbatim>\<open>content/oci/oci.go\<close>. The
  result \<open>None\<close> means that the call does not return. Cancellation is not modelled, and a
  blob directory has only files.
\<close>

section \<open>Operations\<close>

definition isKnownAlgorithm :: "string \<Rightarrow> bool" where
  "isKnownAlgorithm alg \<longleftrightarrow> alg \<in> {''sha256'', ''sha512'', ''sha384''}"

text \<open>
  The inner loop of \<^verbatim>\<open>gcIndex\<close>, which looks for the subject of an untagged manifest in the new
  graph. The variable \<^verbatim>\<open>subject\<close> that the loop assigns is local to its body, so that each round
  reads the subject of \<open>desc\<close> again.
\<close>

partial_function (option) gc_subject_loop :: "ext \<Rightarrow> (descriptor \<Rightarrow> reader res) \<Rightarrow> graph \<Rightarrow> descriptor \<Rightarrow>
    bool res option" where
  "gc_subject_loop P fetch g desc = (case Subject P fetch desc of
     Inl e \<Rightarrow> Some (Inl e)
   | Inr None \<Rightarrow> Some (Inr False)
   | Inr (Some subject) \<Rightarrow>
       if graph_Exists g subject then Some (Inr True) else gc_subject_loop P fetch g desc)"

fun gc_tagged :: "ext \<Rightarrow> (descriptor \<Rightarrow> reader res) \<Rightarrow> (string \<times> descriptor) list \<Rightarrow>
    resolver \<times> graph \<times> string goset \<Rightarrow> (resolver \<times> graph \<times> string goset) res option" where
  "gc_tagged P fetch [] st = Some (Inr st)"
| "gc_tagged P fetch ((ref, desc) # refs) (tagResolver, graph, tagged) =
     (if ref = Digest desc then gc_tagged P fetch refs (tagResolver, graph, tagged)
      else
        let tagResolver = resolver_Tag tagResolver (deleteAnnotationRefName desc) (Digest desc);
            tagResolver = resolver_Tag tagResolver desc ref
        in case graph_IndexAll P fetch graph (Plain desc) of
             None \<Rightarrow> None
           | Some (Some e, _) \<Rightarrow> Some (Inl e)
           | Some (None, graph) \<Rightarrow>
               gc_tagged P fetch refs (tagResolver, graph, List.insert (Digest desc) tagged))"

fun gc_referrers :: "ext \<Rightarrow> (descriptor \<Rightarrow> reader res) \<Rightarrow> string goset \<Rightarrow> (string \<times> descriptor) list \<Rightarrow>
    resolver \<times> graph \<Rightarrow> (resolver \<times> graph) res option" where
  "gc_referrers P fetch tagged [] st = Some (Inr st)"
| "gc_referrers P fetch tagged ((ref, desc) # refs) (tagResolver, graph) =
     (if ref \<noteq> Digest desc \<or> Digest desc \<in> set tagged
      then gc_referrers P fetch tagged refs (tagResolver, graph)
      else case gc_subject_loop P fetch graph desc of
        None \<Rightarrow> None
      | Some (Inl e) \<Rightarrow> Some (Inl e)
      | Some (Inr False) \<Rightarrow> gc_referrers P fetch tagged refs (tagResolver, graph)
      | Some (Inr True) \<Rightarrow>
          (case graph_IndexAll P fetch graph (Plain desc) of
             None \<Rightarrow> None
           | Some (Some e, _) \<Rightarrow> Some (Inl e)
           | Some (None, graph) \<Rightarrow>
               gc_referrers P fetch tagged refs
                 (resolver_Tag tagResolver (deleteAnnotationRefName desc) (Digest desc), graph)))"

definition gcIndex :: "ext \<Rightarrow> order \<Rightarrow> order \<Rightarrow> ocistore \<Rightarrow> (unit res \<times> ocistore) option" where
  "gcIndex P o1 o2 s =
     (let fetch = oci_Fetch P (os_fs s); refMap = resolver_Map (os_resolver s)
      in case gc_tagged P fetch (range_list o1 refMap) (resolver_NewMemory, graph_NewMemory, []) of
           None \<Rightarrow> None
         | Some (Inl e) \<Rightarrow> Some (Inl e, s)
         | Some (Inr (tagResolver, graph, tagged)) \<Rightarrow>
             (case gc_referrers P fetch tagged (range_list o2 refMap) (tagResolver, graph) of
                None \<Rightarrow> None
              | Some (Inl e) \<Rightarrow> Some (Inl e, s)
              | Some (Inr (tagResolver, graph)) \<Rightarrow>
                  Some (Inr (), s\<lparr>os_resolver := tagResolver, os_graph := graph\<rparr>)))"

text \<open>The files that \<^verbatim>\<open>GC\<close> removes from the blob directories.\<close>

definition gc_garbage :: "ext \<Rightarrow> string goset \<Rightarrow> path \<Rightarrow> bool" where
  "gc_garbage P reachableNodes p = (case p of
     [blobs, alg, dgst] \<Rightarrow> blobs = ''blobs'' \<and> isKnownAlgorithm alg
       \<and> dg_valid P (alg @ CHR '':'' # dgst) \<and> alg @ CHR '':'' # dgst \<notin> set reachableNodes
   | _ \<Rightarrow> False)"

definition os_GC :: "ext \<Rightarrow> order \<Rightarrow> order \<Rightarrow> ocistore \<Rightarrow> (unit res \<times> ocistore) option" where
  "os_GC P o1 o2 s = (case gcIndex P o1 o2 s of
     None \<Rightarrow> None
   | Some (Inl e, s) \<Rightarrow> Some (Inl e, s)
   | Some (Inr _, s) \<Rightarrow>
       (let reachableNodes = graph_DigestSet (os_graph s)
        in Some (Inr (), s\<lparr>os_fs := filter (\<lambda>(p, b). \<not> gc_garbage P reachableNodes p) (os_fs s)\<rparr>)))"

section \<open>The inner loop\<close>

lemma gc_subject_loop_stuck:
  assumes "Subject P fetch desc = Inr (Some subject)" "\<not> graph_Exists g subject"
  shows "gc_subject_loop P fetch g desc = None"
proof (rule ccontr)
  assume "gc_subject_loop P fetch g desc \<noteq> None"
  then obtain y where y: "gc_subject_loop P fetch g desc = Some y" by blast
  have "case (((P, fetch), g), desc) of (((P, fetch), g), desc) \<Rightarrow>
      \<not> (\<exists>subject. Subject P fetch desc = Inr (Some subject) \<and> \<not> graph_Exists g subject)"
    by (rule gc_subject_loop.raw_induct [OF _ y]) (auto split: sum.splits option.splits if_splits)
  with assms show False by auto
qed

lemma gc_subject_loop_eq:
  "gc_subject_loop P fetch g desc = (case Subject P fetch desc of
     Inl e \<Rightarrow> Some (Inl e)
   | Inr None \<Rightarrow> Some (Inr False)
   | Inr (Some subject) \<Rightarrow> if graph_Exists g subject then Some (Inr True) else None)"
  using gc_subject_loop_stuck [of P fetch desc _ g]
  by (subst gc_subject_loop.simps) (auto split: sum.splits option.splits)

section \<open>What the new graph has\<close>

lemma oci_FetchAll_bytes:
  "FetchAll P (oci_Fetch P fs) d = (case oci_Fetch P fs d of
     Inl e \<Rightarrow> Inl e | Inr r \<Rightarrow> read_all_spec P (fst (rd_stream r)) d)"
  by (auto simp: FetchAll_def oci_Fetch_def ReadAll_clean split: sum.splits option.splits)

lemma oci_key_based: "key_based P (oci_Fetch P fs)"
  unfolding key_based_def
proof (intro allI impI)
  fix d d' assume k: "FromOCI d = FromOCI d'"
  then have "MediaType d = MediaType d'" "Digest d = Digest d'" "Size d = Size d'" by (simp_all add: FromOCI_def)
  moreover from this have "FetchAll P (oci_Fetch P fs) d = FetchAll P (oci_Fetch P fs) d'"
    by (simp add: oci_FetchAll_bytes oci_Fetch_def read_all_spec_def split: sum.splits option.splits)
  ultimately show "Successors P (oci_Fetch P fs) d = Successors P (oci_Fetch P fs) d'"
    by (intro Successors_cong) simp_all
qed

lemma decode_successors_error: "decode_successors P d b = Inl e \<Longrightarrow> e = ErrDecode"
  by (auto simp: decode_successors_def split: if_splits option.splits)

lemma oci_stored_Successors:
  assumes "oci_stored P fs (Digest d)"
  shows "Successors P (oci_Fetch P fs) d \<noteq> Inl ErrNotFound"
proof -
  from assms obtain p b where "blobPath P (Digest d) = Inr p" "gm_get fs p = Some b" by (auto simp: oci_stored_def)
  then have "oci_Fetch P fs d = Inr (bytes_reader b)" by (simp add: oci_Fetch_def)
  then have "FetchAll P (oci_Fetch P fs) d \<noteq> Inl ErrNotFound" by (simp add: oci_FetchAll_bytes read_all_spec_def)
  then show ?thesis by (auto simp: Successors_eq split: sum.splits if_splits dest: decode_successors_error)
qed

definition gc_reach :: "ext \<Rightarrow> (descriptor \<Rightarrow> reader res) \<Rightarrow> key set \<Rightarrow> key set" where
  "gc_reach P fetch K = {FromOCI x | d x ss. FromOCI d \<in> K \<and> (d, x) \<in> (succ_rel P fetch)\<^sup>*
     \<and> Successors P fetch x = Inr ss}"

lemma gc_reach_insert: "gc_reach P fetch (insert k K) = gc_reach P fetch K \<union> gc_reach P fetch {k}"
  unfolding gc_reach_def by blast

lemma succ_rel_key:
  assumes "key_based P fetch" "FromOCI a = FromOCI b" "(a, x) \<in> (succ_rel P fetch)\<^sup>*"
  shows "\<exists>y. (b, y) \<in> (succ_rel P fetch)\<^sup>* \<and> FromOCI y = FromOCI x"
  using assms(3)
proof (cases rule: converse_rtranclE)
  case base
  with assms(2) show ?thesis by auto
next
  case (step z)
  then have "(b, z) \<in> succ_rel P fetch" using key_basedD [OF assms(1,2)] by (simp add: succ_rel_def)
  from converse_rtrancl_into_rtrancl [OF this step(2)] show ?thesis by blast
qed

lemma gc_reach_single:
  assumes "key_based P fetch" "FromOCI node = k"
  shows "gc_reach P fetch {k} = {FromOCI d | d ss. (node, d) \<in> (succ_rel P fetch)\<^sup>* \<and> Successors P fetch d = Inr ss}"
proof -
  have "\<exists>y ss. FromOCI x = FromOCI y \<and> (node, y) \<in> (succ_rel P fetch)\<^sup>* \<and> Successors P fetch y = Inr ss"
    if "FromOCI d = k" "(d, x) \<in> (succ_rel P fetch)\<^sup>*" "Successors P fetch x = Inr ss" for d x ss
  proof -
    from that(1) assms(2) have "FromOCI d = FromOCI node" by simp
    from succ_rel_key [OF assms(1) this that(2)] obtain y where
      "(node, y) \<in> (succ_rel P fetch)\<^sup>*" "FromOCI y = FromOCI x" by blast
    with key_basedD [OF assms(1), of y x] that(3) show ?thesis by metis
  qed
  with assms(2) show ?thesis unfolding gc_reach_def by blast
qed

text \<open>What is reachable can be read, unless it is missing.\<close>

definition gc_readable :: "ext \<Rightarrow> (descriptor \<Rightarrow> reader res) \<Rightarrow> key set \<Rightarrow> bool" where
  "gc_readable P fetch K \<longleftrightarrow> (\<forall>d x. FromOCI d \<in> K \<and> (d, x) \<in> (succ_rel P fetch)\<^sup>* \<longrightarrow>
     Successors P fetch x = Inl ErrNotFound \<or> (\<exists>ss. Successors P fetch x = Inr ss))"

lemma gc_readable_insert:
  assumes "key_based P fetch" "graph_inv P fetch g" "IndexAll P fetch g node None g'" "FromOCI node = k"
    and "gc_readable P fetch K"
  shows "gc_readable P fetch (insert k K)"
proof -
  have "Successors P fetch x = Inl ErrNotFound \<or> (\<exists>ss. Successors P fetch x = Inr ss)"
    if "FromOCI d = k" "(d, x) \<in> (succ_rel P fetch)\<^sup>*" for d x
  proof -
    from that(1) assms(4) have "FromOCI d = FromOCI node" by simp
    from succ_rel_key [OF assms(1) this that(2)] obtain y where
      "(node, y) \<in> (succ_rel P fetch)\<^sup>*" "FromOCI y = FromOCI x" by blast
    with IndexAll_reachable [OF assms(1-3)] key_basedD [OF assms(1), of y x] show ?thesis by metis
  qed
  with assms(5) show ?thesis unfolding gc_readable_def by blast
qed

text \<open>
  The state while the new resolver and the new graph are built from the references \<open>m\<close>.
\<close>

definition gc_inv :: "ext \<Rightarrow> (descriptor \<Rightarrow> reader res) \<Rightarrow> (string \<rightharpoonup> key) \<Rightarrow> resolver \<Rightarrow> graph \<Rightarrow> bool" where
  "gc_inv P fetch m r g \<longleftrightarrow> graph_inv P fetch g
     \<and> (\<forall>ref d. gm_get (r_index r) ref = Some d \<longrightarrow> m ref = Some (FromOCI d))
     \<and> {k. gm_get (g_nodes g) k \<noteq> None} = gc_reach P fetch {FromOCI d | ref d. gm_get (r_index r) ref = Some d}
     \<and> gc_readable P fetch {FromOCI d | ref d. gm_get (r_index r) ref = Some d}"

lemma gc_inv_step:
  assumes "key_based P fetch" "gc_inv P fetch m r g" "graph_IndexAll P fetch g (Plain desc) = Some (None, g')"
    and "gm_get (r_index r') = (\<lambda>ref. if ref \<in> A then Some (f ref) else gm_get (r_index r) ref)"
    and "A \<noteq> {}" "\<And>ref. ref \<in> A \<Longrightarrow> FromOCI (f ref) = FromOCI desc \<and> m ref = Some (FromOCI desc)"
  shows "gc_inv P fetch m r' g'"
proof -
  let ?K = "\<lambda>r. {FromOCI d | ref d. gm_get (r_index r) ref = Some d}"
  from assms(2) have inv: "graph_inv P fetch g"
    and m: "\<And>ref d. gm_get (r_index r) ref = Some d \<Longrightarrow> m ref = Some (FromOCI d)"
    and nodes: "{k. gm_get (g_nodes g) k \<noteq> None} = gc_reach P fetch (?K r)" and rd: "gc_readable P fetch (?K r)"
    unfolding gc_inv_def by blast+
  note ia = graph_IndexAll_sound [OF assms(3)]
  have "m ref = Some (FromOCI d)" if "gm_get (r_index r') ref = Some d" for ref d
    using that m assms(6) by (auto simp: assms(4) split: if_splits)
  moreover have "?K r' = insert (FromOCI desc) (?K r)"
  proof (intro equalityI subsetI)
    fix k assume "k \<in> ?K r'"
    then show "k \<in> insert (FromOCI desc) (?K r)" using assms(6) by (auto simp: assms(4) split: if_splits)
  next
    fix k assume "k \<in> insert (FromOCI desc) (?K r)"
    then consider "k = FromOCI desc" | ref d where "gm_get (r_index r) ref = Some d" "k = FromOCI d" by blast
    then show "k \<in> ?K r'"
    proof cases
      case 1
      from assms(5) obtain ref where "ref \<in> A" by blast
      then have "gm_get (r_index r') ref = Some (f ref)" "FromOCI (f ref) = k" using assms(6) 1 by (simp_all add: assms(4))
      then show ?thesis by blast
    next
      case 2
      let ?d = "if ref \<in> A then f ref else d"
      have "gm_get (r_index r') ref = Some ?d" "FromOCI ?d = k"
        using assms(6) [of ref] m [OF 2(1)] 2 by (auto simp: assms(4))
      then show ?thesis by blast
    qed
  qed
  moreover have "{k. gm_get (g_nodes g') k \<noteq> None} = gc_reach P fetch (insert (FromOCI desc) (?K r))"
    unfolding IndexAll_nodes [OF assms(1) inv ia] nodes gc_reach_insert [of P fetch "FromOCI desc" "?K r"]
    by (subst gc_reach_single [OF assms(1), of "Plain desc"]) simp_all
  moreover have "graph_inv P fetch g'" by (rule IndexAll_inv [OF assms(1) inv ia])
  moreover have "gc_readable P fetch (insert (FromOCI desc) (?K r))"
    by (rule gc_readable_insert [OF assms(1) inv ia _ rd]) simp
  ultimately show ?thesis unfolding gc_inv_def by simp
qed

definition refs_in :: "(string \<rightharpoonup> key) \<Rightarrow> (string \<times> descriptor) list \<Rightarrow> bool" where
  "refs_in m refs \<longleftrightarrow>
     (\<forall>(ref, d)\<in>set refs. m ref = Some (FromOCI d) \<and> m (Digest d) = Some (FromOCI d))"

lemma refs_in_Cons [simp]:
  "refs_in m ((ref, d) # refs) \<longleftrightarrow> m ref = Some (FromOCI d) \<and> m (Digest d) = Some (FromOCI d) \<and> refs_in m refs"
  by (simp add: refs_in_def)

lemma gc_tagged_inv:
  assumes "key_based P fetch"
  shows "\<lbrakk>gc_tagged P fetch refs (r, g, tg) = Some (Inr (r', g', tg')); gc_inv P fetch m r g;
     refs_in m refs\<rbrakk> \<Longrightarrow>
     gc_inv P fetch m r' g' \<and> (\<forall>ref. gm_get (r_index r) ref \<noteq> None \<longrightarrow> gm_get (r_index r') ref \<noteq> None)
     \<and> (\<forall>ref d. (ref, d) \<in> set refs \<and> ref \<noteq> Digest d \<longrightarrow> gm_get (r_index r') ref \<noteq> None)
     \<and> set tg' = set tg \<union> {Digest d | ref d. (ref, d) \<in> set refs \<and> ref \<noteq> Digest d}"
proof (induction refs arbitrary: r g tg)
  case (Cons a refs)
  obtain ref d where a: "a = (ref, d)" by (cases a)
  show ?case
  proof (cases "ref = Digest d")
    case True
    with Cons.IH [of r g tg] Cons.prems show ?thesis by (auto simp: a)
  next
    case False
    let ?r = "resolver_Tag (resolver_Tag r (deleteAnnotationRefName d) (Digest d)) d ref"
    from Cons.prems(1) False obtain g1 where g1: "graph_IndexAll P fetch g (Plain d) = Some (None, g1)"
      and rest: "gc_tagged P fetch refs (?r, g1, List.insert (Digest d) tg) = Some (Inr (r', g', tg'))"
      by (auto simp: a Let_def split: option.splits)
    have "gc_inv P fetch m ?r g1"
      by (rule gc_inv_step [OF assms Cons.prems(2) g1, where A = "{ref, Digest d}"
            and f = "\<lambda>x. if x = ref then d else deleteAnnotationRefName d"])
        (use Cons.prems(3) in \<open>auto simp: a fun_eq_iff\<close>)
    from Cons.IH [OF rest this] Cons.prems(3) False show ?thesis by (auto simp: a)
  qed
qed simp

lemma gc_referrers_inv:
  assumes "key_based P fetch"
  shows "\<lbrakk>gc_referrers P fetch tg refs (r, g) = Some (Inr (r', g')); gc_inv P fetch m r g;
     refs_in m refs\<rbrakk> \<Longrightarrow>
     gc_inv P fetch m r' g' \<and> (\<forall>ref. gm_get (r_index r) ref \<noteq> None \<longrightarrow> gm_get (r_index r') ref \<noteq> None)"
proof (induction refs arbitrary: r g)
  case (Cons a refs)
  obtain ref d where a: "a = (ref, d)" by (cases a)
  have m: "m ref = Some (FromOCI d)" "m (Digest d) = Some (FromOCI d)" using Cons.prems(3) by (simp_all add: a)
  consider (skip) "gc_referrers P fetch tg refs (r, g) = Some (Inr (r', g'))"
    | (keep) g1 where "graph_IndexAll P fetch g (Plain d) = Some (None, g1)"
        "gc_referrers P fetch tg refs (resolver_Tag r (deleteAnnotationRefName d) (Digest d), g1) = Some (Inr (r', g'))"
    using Cons.prems(1) by (auto simp: a split: if_splits option.splits sum.splits bool.splits)
  then show ?case
  proof cases
    case skip
    with Cons.IH [of r g] Cons.prems show ?thesis by (simp add: a)
  next
    case keep
    have "gc_inv P fetch m (resolver_Tag r (deleteAnnotationRefName d) (Digest d)) g1"
      by (rule gc_inv_step [OF assms Cons.prems(2) keep(1), where A = "{Digest d}"
            and f = "\<lambda>x. deleteAnnotationRefName d"]) (use m in \<open>auto simp: fun_eq_iff\<close>)
    from Cons.IH [OF keep(2) this] Cons.prems(3) show ?thesis by (auto simp: a)
  qed
qed simp

section \<open>The blobs that are left\<close>

lemma gm_get_filter: "gm_get (filter (\<lambda>(p, b). Q p) m) p = (if Q p then gm_get m p else None)"
  by (induction m) auto

lemma graph_DigestSet_set: "set (graph_DigestSet g) = key_digest ` fst ` set (g_nodes g)"
proof -
  have "set (foldl (\<lambda>s (k, _). List.insert (key_digest k) s) acc xs) = set acc \<union> key_digest ` fst ` set xs"
    for acc and xs :: "(key \<times> descriptor) list"
    by (induction xs arbitrary: acc) auto
  then show ?thesis by (simp add: graph_DigestSet_def)
qed

lemma gc_garbage_blob:
  assumes "digest_laws P" "blobPath P dg = Inr p"
  shows "gc_garbage P nodes p \<longleftrightarrow> isKnownAlgorithm (dg_Algorithm dg) \<and> dg \<notin> set nodes"
proof -
  have v: "dg_valid P dg" by (rule blobPath_valid [OF assms(2)])
  with assms have "dg_Algorithm dg @ CHR '':'' # dg_Encoded dg = dg"
    by (intro dg_split [symmetric]) (simp add: digest_laws_def)
  with v assms(2) show ?thesis by (auto simp: gc_garbage_def blobPath_def)
qed

lemma gc_stored:
  assumes "digest_laws P"
  shows "oci_stored P (filter (\<lambda>(p, b). \<not> gc_garbage P nodes p) fs) dg \<longleftrightarrow>
    oci_stored P fs dg \<and> (isKnownAlgorithm (dg_Algorithm dg) \<longrightarrow> dg \<in> set nodes)"
proof (cases "blobPath P dg")
  case (Inr p)
  then show ?thesis
    using gc_garbage_blob [OF assms Inr, of nodes]
    unfolding oci_stored_def gm_get_filter [of "\<lambda>p. \<not> gc_garbage P nodes p"] by auto
qed (simp add: oci_stored_def)

lemma gcIndex_result:
  assumes "os_good P ty s" "valid_order o1" "valid_order o2" "gcIndex P o1 o2 s = Some (Inr x, s')"
  shows "gc_inv P (oci_Fetch P (os_fs s)) (refs_of s) (os_resolver s') (os_graph s')"
    "\<lbrakk>refs_of s ref = Some k; ref \<noteq> key_digest k\<rbrakk> \<Longrightarrow> gm_get (r_index (os_resolver s')) ref \<noteq> None"
    "os_fs s' = os_fs s"
proof -
  note G = os_goodD [OF assms(1)]
  let ?m = "r_index (os_resolver s)" and ?f = "oci_Fetch P (os_fs s)"
  note ok = gm_get_in_set [OF r_ok_gm [OF os_invD(2) [OF G(1)]]]
  have "refs_of s r = Some (FromOCI d) \<and> refs_of s (Digest d) = Some (FromOCI d)" if "(r, d) \<in> set ?m" for r d
  proof -
    from that have r: "refs_of s r = Some (FromOCI d)" by (simp add: refs_of_def ok [symmetric])
    with refs_okD(5) [OF G(4) r] show ?thesis by simp
  qed
  then have ins: "refs_in (refs_of s) (range_list ord ?m)" if "valid_order ord" for ord :: order
    using that by (auto simp: refs_in_def)
  from assms(4) obtain r g tg r' g' where
    t: "gc_tagged P ?f (range_list o1 ?m) (resolver_NewMemory, graph_NewMemory, []) = Some (Inr (r, g, tg))" and
    f: "gc_referrers P ?f tg (range_list o2 ?m) (r, g) = Some (Inr (r', g'))" and
    s': "s' = s\<lparr>os_resolver := r', os_graph := g'\<rparr>"
    by (auto simp: gcIndex_def Let_def resolver_Map_def split: option.splits sum.splits prod.splits)
  have "gc_inv P ?f (refs_of s) resolver_NewMemory graph_NewMemory"
    by (auto simp: gc_inv_def gc_reach_def gc_readable_def resolver_NewMemory_def) (simp add: graph_NewMemory_def)
  note T = gc_tagged_inv [OF oci_key_based t this ins [OF assms(2)]]
  note F = gc_referrers_inv [OF oci_key_based f conjunct1 [OF T] ins [OF assms(3)]]
  show "gc_inv P ?f (refs_of s) (os_resolver s') (os_graph s')" using F s' by simp
  show "os_fs s' = os_fs s" using s' by simp
  assume "refs_of s ref = Some k" "ref \<noteq> key_digest k"
  then obtain d where "(ref, d) \<in> set (range_list o1 ?m)" "ref \<noteq> Digest d"
    using assms(2) by (auto simp: refs_of_def ok)
  with T F s' show "gm_get (r_index (os_resolver s')) ref \<noteq> None" by auto
qed

lemma gc_inv_digests:
  assumes "gc_inv P (oci_Fetch P fs) m r g" "oci_stored P fs dg"
  shows "dg \<in> set (graph_DigestSet g) \<longleftrightarrow> (\<exists>ref d x. map_option FromOCI (gm_get (r_index r) ref) = Some (FromOCI d)
    \<and> (d, x) \<in> (succ_rel P (oci_Fetch P fs))\<^sup>* \<and> Digest x = dg)" (is "_ \<longleftrightarrow> ?R")
proof -
  let ?f = "oci_Fetch P fs" and ?K = "{FromOCI d | ref d. gm_get (r_index r) ref = Some d}"
  have K: "k \<in> ?K \<longleftrightarrow> (\<exists>ref. map_option FromOCI (gm_get (r_index r) ref) = Some k)" for k by auto
  have "fst ` set (g_nodes g) = gc_reach P ?f ?K" and rd: "gc_readable P ?f ?K"
    using assms(1) unfolding gc_inv_def by (simp_all add: gm_in_keys set_eq_iff)
  then have nodes: "dg \<in> set (graph_DigestSet g) \<longleftrightarrow> (\<exists>k\<in>gc_reach P ?f ?K. key_digest k = dg)"
    unfolding graph_DigestSet_set by auto
  show ?thesis unfolding nodes
  proof
    assume "\<exists>k\<in>gc_reach P ?f ?K. key_digest k = dg"
    then obtain d x where "FromOCI d \<in> ?K" "(d, x) \<in> (succ_rel P ?f)\<^sup>*" "Digest x = dg"
      unfolding gc_reach_def by force
    then show ?R unfolding K by blast
  next
    assume ?R
    then obtain d x where x: "FromOCI d \<in> ?K" "(d, x) \<in> (succ_rel P ?f)\<^sup>*" "Digest x = dg" unfolding K by blast
    with rd oci_stored_Successors [of P fs x] assms(2) obtain ss where "Successors P ?f x = Inr ss"
      unfolding gc_readable_def by blast
    with x have "FromOCI x \<in> gc_reach P ?f ?K" unfolding gc_reach_def by blast
    with x(3) show "\<exists>k\<in>gc_reach P ?f ?K. key_digest k = dg" by (intro bexI [of _ "FromOCI x"]) simp_all
  qed
qed

section \<open>What garbage collection promises\<close>

text \<open>
  C8. A garbage collection that succeeds keeps every tag and adds no reference, and it keeps a
  blob of a known digest algorithm exactly when the blob is reachable from a reference that is
  left, through the manifests of the layout; blobs of other algorithms stay.
\<close>

theorem os_GC_exact:
  assumes "consistent P ty" "os_reachable P ty s" "valid_order o1" "valid_order o2"
    and "os_GC P o1 o2 s = Some (Inr (), s')"
  shows "(\<forall>ref k. refs_of s ref = Some k \<and> ref \<noteq> key_digest k \<longrightarrow> refs_of s' ref = Some k)
    \<and> (\<forall>ref k. refs_of s' ref = Some k \<longrightarrow> refs_of s ref = Some k)
    \<and> (\<forall>dg. oci_stored P (os_fs s') dg \<longleftrightarrow> oci_stored P (os_fs s) dg
        \<and> (isKnownAlgorithm (dg_Algorithm dg) \<longrightarrow>
            (\<exists>ref d x. refs_of s' ref = Some (FromOCI d) \<and> (d, x) \<in> (succ_rel P (oci_Fetch P (os_fs s)))\<^sup>*
               \<and> Digest x = dg)))"
proof -
  note good = os_reachable_good [OF assms(1,2)]
  let ?f = "oci_Fetch P (os_fs s)"
  from assms(5) obtain s1 x where i: "gcIndex P o1 o2 s = Some (Inr x, s1)"
    and s': "s' = s1\<lparr>os_fs := filter (\<lambda>(p, b). \<not> gc_garbage P (graph_DigestSet (os_graph s1)) p) (os_fs s1)\<rparr>"
    by (auto simp: os_GC_def Let_def split: option.splits sum.splits)
  note R = gcIndex_result [OF good assms(3,4) i]
  have refs: "refs_of s' ref = map_option FromOCI (gm_get (r_index (os_resolver s1)) ref)" for ref
    by (simp add: refs_of_def s')
  have sub: "refs_of s ref = Some k" if "refs_of s' ref = Some k" for ref k
    using that R(1) by (auto simp: refs gc_inv_def)
  moreover have "refs_of s' ref = Some k" if k: "refs_of s ref = Some k" "ref \<noteq> key_digest k" for ref k
  proof -
    from R(2) [OF k] obtain k' where "refs_of s' ref = Some k'" by (auto simp: refs)
    with sub [OF this] k(1) show ?thesis by simp
  qed
  moreover have "oci_stored P (os_fs s') dg \<longleftrightarrow> oci_stored P (os_fs s) dg \<and> (isKnownAlgorithm (dg_Algorithm dg) \<longrightarrow>
      (\<exists>ref d x. refs_of s' ref = Some (FromOCI d) \<and> (d, x) \<in> (succ_rel P ?f)\<^sup>* \<and> Digest x = dg))" for dg
    using gc_stored [of P "graph_DigestSet (os_graph s1)" "os_fs s1" dg] gc_inv_digests [OF R(1), of dg] R(3) assms(1)
    by (auto simp: s' [THEN arg_cong, of os_fs] refs [symmetric] consistent_def)
  ultimately show ?thesis by blast
qed

lemma demo_oci_leaves [simp]:
  "Successors demo_graph_ext fetch demo_config = Inr []" "Successors demo_graph_ext fetch demo_layer = Inr []"
  by (simp_all add: Successors_def demo_nodes media_type_defs)

lemma demo_oci_fetch [simp]:
  "oci_Fetch demo_graph_ext (os_fs demo_oci) demo_manifest = Inr (bytes_reader ''M'')"
  "oci_Fetch demo_graph_ext (os_fs demo_oci) demo_referrer = Inr (bytes_reader ''R'')"
  by (simp_all add: oci_Fetch_def demo_blobPath demo_oci_sel)

lemma demo_oci_IndexAll:
  "\<exists>g. graph_IndexAll demo_graph_ext (oci_Fetch demo_graph_ext (os_fs demo_oci)) graph_NewMemory demo_referrer = Some (None, g)"
  unfolding graph_IndexAll_def
  by (simp add: index_all_loop.simps [of _ _ "_ # _"] index_all_loop.simps [of _ _ "[]"] graph_index_def
      demo_Successors_any)

lemma demo_Subjects:
  "Subject demo_graph_ext (oci_Fetch demo_graph_ext (os_fs demo_oci)) demo_manifest = Inr None"
  "Subject demo_graph_ext (oci_Fetch demo_graph_ext (os_fs demo_oci)) demo_referrer = Inr (Some demo_manifest)"
  using demo_Subject Subject_fetch_cong [of "oci_Fetch demo_graph_ext (os_fs demo_oci)" _ demo_fetch demo_graph_ext]
  by (simp_all add: demo_fetch_def) (simp add: Subject_def demo_FetchAll, simp add: demo_graph_ext_def demo_decode_def demo_manifest_def)

lemma demo_GC: "\<exists>s'. os_GC demo_graph_ext id_order id_order demo_oci = Some (Inr (), s')"
proof -
  have "Plain demo_referrer = demo_referrer" by (simp add: Plain_def demo_referrer_def plain_desc_def)
  with demo_oci_IndexAll show ?thesis
    by (auto simp: os_GC_def gcIndex_def Let_def resolver_Map_def demo_oci_sel(5) gc_subject_loop_eq demo_Subjects)
qed

theorem os_GC_exact_witness:
  "\<exists>s'. os_GC demo_graph_ext id_order id_order demo_oci = Some (Inr (), s')
     \<and> refs_of s' ''sig'' = Some (FromOCI demo_referrer)"
proof -
  from demo_GC obtain s' where s': "os_GC demo_graph_ext id_order id_order demo_oci = Some (Inr (), s')" by blast
  have "refs_of demo_oci ''sig'' = Some (FromOCI demo_referrer)" by (simp add: refs_of_def demo_oci_sel)
  with conjunct1 [OF os_GC_exact [OF demo_consistent demo_oci_reachable valid_id_order valid_id_order s']]
  have "refs_of s' ''sig'' = Some (FromOCI demo_referrer)" by simp
  with s' show ?thesis by blast
qed

text \<open>
  C33. When no manifest is tagged and some manifest of the store has a subject, a garbage
  collection never returns, whatever the iteration order, provided that the manifests can be
  read. The witness is a store with an untagged image and an untagged referrer of it.
\<close>

theorem os_GC_hangs:
  assumes "valid_order o1" "valid_order o2"
    and "\<And>ref d. (ref, d) \<in> set (resolver_Map (os_resolver s)) \<Longrightarrow>
      ref = Digest d \<and> (\<exists>x. Subject P (oci_Fetch P (os_fs s)) d = Inr x)"
    and "(ref, d) \<in> set (resolver_Map (os_resolver s))"
    and "Subject P (oci_Fetch P (os_fs s)) d = Inr (Some subject)"
  shows "os_GC P o1 o2 s = None"
proof -
  let ?m = "resolver_Map (os_resolver s)" and ?f = "oci_Fetch P (os_fs s)"
  have 1: "gc_tagged P ?f refs st = Some (Inr st)" if "\<forall>(ref, d)\<in>set refs. ref = Digest d" for refs st
    using that by (induction P ?f refs st rule: gc_tagged.induct) auto
  have 2: "gc_referrers P ?f [] refs (r, graph_NewMemory) = None"
    if "\<forall>(ref, d)\<in>set refs. ref = Digest d \<and> (\<exists>x. Subject P ?f d = Inr x)" "(ref, d) \<in> set refs" for refs r
    using that
  proof (induction refs)
    case (Cons a refs)
    obtain ref' d' where a: "a = (ref', d')" by (cases a)
    with Cons.prems obtain x where x: "Subject P ?f d' = Inr x" by auto
    show ?case
    proof (cases x)
      case None
      with x assms(5) have "d' \<noteq> d" by auto
      with Cons None x show ?thesis by (auto simp: a gc_subject_loop_eq)
    next
      case (Some sj)
      with x Cons.prems(1) show ?thesis
        by (simp add: a gc_subject_loop_eq graph_Exists_def) (simp add: graph_NewMemory_def)
    qed
  qed simp
  have "gc_tagged P ?f (range_list o1 ?m) st = Some (Inr st)" for st
    by (rule 1) (use assms(1,3) in auto)
  moreover have "gc_referrers P ?f [] (range_list o2 ?m) (r, graph_NewMemory) = None" for r
    by (rule 2) (use assms(2-4) in auto)
  ultimately show ?thesis by (simp add: os_GC_def gcIndex_def Let_def)
qed

theorem os_GC_hangs_witness:
  "os_reachable demo_graph_ext demo_ty demo_push_R \<and> os_GC demo_graph_ext rev_order id_order demo_push_R = None"
proof -
  have m: "resolver_Map (os_resolver demo_push_R) = [(''sha256:M'', demo_manifest), (''sha256:R'', demo_referrer)]"
    by (simp add: demo_push_R_eq demo_push_M_eq oci_empty_def resolver_NewMemory_def resolver_Map_def)
  have fs: "os_fs demo_push_R = os_fs demo_oci" by (simp add: demo_oci_eq)
  have "os_GC demo_graph_ext rev_order id_order demo_push_R = None"
    by (rule os_GC_hangs [where d = demo_referrer and ref = "''sha256:R''" and subject = demo_manifest])
      (auto simp: m fs demo_Subjects)
  moreover have "os_reachable demo_graph_ext demo_ty demo_push_R"
  proof -
    have "os_step demo_graph_ext demo_ty oci_empty demo_push_M" "os_step demo_graph_ext demo_ty demo_push_M demo_push_R"
      unfolding demo_push_M_def demo_push_R_def by (rule os_step.push; simp add: demo_ty_def)+
    then show ?thesis unfolding os_reachable_def by (auto simp: os_New_empty)
  qed
  ultimately show ?thesis by blast
qed

end
