(* ===== verification/Regexp.thy ===== *)
theory Regexp
  imports Prelude
begin

text \<open>
  The regular expressions that the sources compile with \<^verbatim>\<open>regexp.MustCompile\<close>, matched against
  a whole string (the sources anchor every expression with \<^verbatim>\<open>^\<close> and \<^verbatim>\<open>$\<close>): a matcher by
  derivatives, the language of an expression and their agreement. Classes are lists of
  character ranges.
\<close>

datatype re =
    Zero
  | One
  | Cls "(nat \<times> nat) list"
  | Alt re re
  | Seq re re
  | Star re

definition in_cls :: "(nat \<times> nat) list \<Rightarrow> char \<Rightarrow> bool" where
  "in_cls rs c \<longleftrightarrow> list_ex (\<lambda>(lo, hi). lo \<le> of_char c \<and> of_char c \<le> hi) rs"

definition chars :: "string \<Rightarrow> (nat \<times> nat) list" where
  "chars s = map (\<lambda>c. (of_char c, of_char c)) s"

definition rng :: "char \<Rightarrow> char \<Rightarrow> nat \<times> nat" where
  "rng a b = (of_char a, of_char b)"

definition Plus :: "re \<Rightarrow> re" where
  "Plus r = Seq r (Star r)"

text \<open>Up to \<open>n\<close> repetitions.\<close>

primrec Upto :: "nat \<Rightarrow> re \<Rightarrow> re" where
  "Upto 0 r = One"
| "Upto (Suc n) r = Alt One (Seq r (Upto n r))"

section \<open>Matching\<close>

primrec nullable :: "re \<Rightarrow> bool" where
  "nullable Zero = False"
| "nullable One = True"
| "nullable (Cls rs) = False"
| "nullable (Alt r s) = (nullable r \<or> nullable s)"
| "nullable (Seq r s) = (nullable r \<and> nullable s)"
| "nullable (Star r) = True"

primrec deriv :: "char \<Rightarrow> re \<Rightarrow> re" where
  "deriv c Zero = Zero"
| "deriv c One = Zero"
| "deriv c (Cls rs) = (if in_cls rs c then One else Zero)"
| "deriv c (Alt r s) = Alt (deriv c r) (deriv c s)"
| "deriv c (Seq r s) = (if nullable r then Alt (Seq (deriv c r) s) (deriv c s) else Seq (deriv c r) s)"
| "deriv c (Star r) = Seq (deriv c r) (Star r)"

primrec re_match :: "re \<Rightarrow> string \<Rightarrow> bool" where
  "re_match r [] = nullable r"
| "re_match r (c # cs) = re_match (deriv c r) cs"

section \<open>Languages\<close>

inductive_set star_lang :: "string set \<Rightarrow> string set" for L where
  star_Nil: "[] \<in> star_lang L"
| star_app: "\<lbrakk>u \<in> L; v \<in> star_lang L\<rbrakk> \<Longrightarrow> u @ v \<in> star_lang L"

primrec lang :: "re \<Rightarrow> string set" where
  "lang Zero = {}"
| "lang One = {[]}"
| "lang (Cls rs) = {[c] | c. in_cls rs c}"
| "lang (Alt r s) = lang r \<union> lang s"
| "lang (Seq r s) = {u @ v | u v. u \<in> lang r \<and> v \<in> lang s}"
| "lang (Star r) = star_lang (lang r)"

lemma nullable_lang: "nullable r \<longleftrightarrow> [] \<in> lang r"
  by (induction r) (auto intro: star_lang.intros)

lemma star_lang_Cons:
  "c # w \<in> star_lang L \<Longrightarrow> \<exists>u v. w = u @ v \<and> c # u \<in> L \<and> v \<in> star_lang L"
proof (induction "c # w" arbitrary: w rule: star_lang.induct)
  case (star_app u v)
  then show ?case by (cases u) auto
qed

lemma deriv_lang: "w \<in> lang (deriv c r) \<longleftrightarrow> c # w \<in> lang r"
proof (induction r arbitrary: w)
  case (Seq r s)
  have "c # w \<in> lang (Seq r s) \<longleftrightarrow>
      (\<exists>u v. w = u @ v \<and> c # u \<in> lang r \<and> v \<in> lang s) \<or> [] \<in> lang r \<and> c # w \<in> lang s"
    by (auto simp: Cons_eq_append_conv)
  with Seq show ?case by (auto simp: nullable_lang)
next
  case (Star r)
  have "c # w \<in> star_lang (lang r) \<longleftrightarrow> (\<exists>u v. w = u @ v \<and> c # u \<in> lang r \<and> v \<in> star_lang (lang r))"
    using star_lang_Cons star_lang.star_app [of "c # _"] by fastforce
  with Star show ?case by simp
qed auto

lemma re_match_iff: "re_match r s \<longleftrightarrow> s \<in> lang r"
  by (induction s arbitrary: r) (simp_all add: nullable_lang deriv_lang)

section \<open>The characters of a language\<close>

primrec re_chars :: "re \<Rightarrow> (nat \<times> nat) list" where
  "re_chars Zero = []"
| "re_chars One = []"
| "re_chars (Cls rs) = rs"
| "re_chars (Alt r s) = re_chars r @ re_chars s"
| "re_chars (Seq r s) = re_chars r @ re_chars s"
| "re_chars (Star r) = re_chars r"

lemma in_cls_append [simp]: "in_cls (rs @ ss) c \<longleftrightarrow> in_cls rs c \<or> in_cls ss c"
  by (simp add: in_cls_def)

lemma star_lang_chars: "\<lbrakk>w \<in> star_lang L; \<And>u c. \<lbrakk>u \<in> L; c \<in> set u\<rbrakk> \<Longrightarrow> Q c; c \<in> set w\<rbrakk> \<Longrightarrow> Q c"
  by (induction rule: star_lang.induct) auto

lemma lang_chars: "\<lbrakk>w \<in> lang r; c \<in> set w\<rbrakk> \<Longrightarrow> in_cls (re_chars r) c"
proof (induction r arbitrary: w c)
  case (Star r)
  show ?case
    using star_lang_chars [of w "lang r" "in_cls (re_chars (Star r))" c] Star by auto
qed auto

lemma re_match_chars: "\<lbrakk>re_match r s; c \<in> set s\<rbrakk> \<Longrightarrow> in_cls (re_chars r) c"
  by (auto simp: re_match_iff intro: lang_chars)

lemma lang_Cls_Seq: "w \<in> lang (Seq (Cls r) s) \<longleftrightarrow> (\<exists>c v. w = c # v \<and> in_cls r c \<and> v \<in> lang s)"
proof
  assume "w \<in> lang (Seq (Cls r) s)"
  then show "\<exists>c v. w = c # v \<and> in_cls r c \<and> v \<in> lang s" by auto
next
  assume "\<exists>c v. w = c # v \<and> in_cls r c \<and> v \<in> lang s"
  then obtain c v where "w = [c] @ v" "in_cls r c" "v \<in> lang s" by auto
  then show "w \<in> lang (Seq (Cls r) s)" unfolding lang.simps by blast
qed

lemma lang_Upto_Cls: "w \<in> lang (Upto n (Cls rs)) \<longleftrightarrow> length w \<le> n \<and> list_all (in_cls rs) w"
proof (induction n arbitrary: w)
  case (Suc n)
  have "w \<in> lang (Upto (Suc n) (Cls rs)) \<longleftrightarrow> w = [] \<or> w \<in> lang (Seq (Cls rs) (Upto n (Cls rs)))" by simp
  then show ?case unfolding lang_Cls_Seq Suc.IH by (cases w) auto
qed auto

lemma lang_Cls_Upto:
  "w \<in> lang (Seq (Cls r) (Upto n (Cls rs))) \<longleftrightarrow>
     w \<noteq> [] \<and> length w \<le> Suc n \<and> in_cls r (hd w) \<and> list_all (in_cls rs) (tl w)"
  unfolding lang_Cls_Seq lang_Upto_Cls by (cases w) auto

lemma in_cls_char: "in_cls (chars [x]) c \<longleftrightarrow> c = x"
proof -
  have "in_cls (chars [x]) c \<longleftrightarrow> (of_char c :: nat) = of_char x" by (auto simp: in_cls_def chars_def)
  then show ?thesis by simp
qed

end
