(* ===== verification/Go_Strings.thy ===== *)
theory Go_Strings
  imports Prelude
begin

text \<open>
  What the sources use of Go's package \<^verbatim>\<open>strings\<close>, on strings as lists of bytes: cutting at the
  first and at the last occurrence of a byte, splitting, joining and comparing without regard
  to case.
\<close>

definition Cut :: "char \<Rightarrow> string \<Rightarrow> (string \<times> string) option" where
  "Cut c s = (case dropWhile (\<lambda>x. x \<noteq> c) s of
     [] \<Rightarrow> None
   | _ # b \<Rightarrow> Some (takeWhile (\<lambda>x. x \<noteq> c) s, b))"

definition CutLast :: "char \<Rightarrow> string \<Rightarrow> (string \<times> string) option" where
  "CutLast c s = (case Cut c (rev s) of None \<Rightarrow> None | Some (b, a) \<Rightarrow> Some (rev a, rev b))"

fun Split :: "char \<Rightarrow> string \<Rightarrow> string list" where
  "Split c [] = [[]]"
| "Split c (x # xs) = (if x = c then [] # Split c xs
     else case Split c xs of [] \<Rightarrow> [[x]] | y # ys \<Rightarrow> (x # y) # ys)"

fun Join :: "string \<Rightarrow> string list \<Rightarrow> string" where
  "Join sep [] = []"
| "Join sep [x] = x"
| "Join sep (x # y # ys) = x @ sep @ Join sep (y # ys)"

definition ascii_lower :: "char \<Rightarrow> char" where
  "ascii_lower c = (if 65 \<le> (of_char c :: nat) \<and> (of_char c :: nat) \<le> 90 then char_of (of_char c + 32 :: nat) else c)"

text \<open>\<^verbatim>\<open>strings.EqualFold\<close> with a second argument of ASCII letters that have no other folding.\<close>

definition EqualFold :: "string \<Rightarrow> string \<Rightarrow> bool" where
  "EqualFold s t \<longleftrightarrow> map ascii_lower s = map ascii_lower t"

section \<open>Cutting\<close>

lemma Cut_app: "c \<notin> set a \<Longrightarrow> Cut c (a @ c # b) = Some (a, b)"
proof -
  assume "c \<notin> set a"
  then have "dropWhile (\<lambda>x. x \<noteq> c) (a @ c # b) = c # b" "takeWhile (\<lambda>x. x \<noteq> c) (a @ c # b) = a"
    by (induction a) auto
  then show ?thesis by (simp add: Cut_def)
qed

lemma Cut_None: "Cut c s = None \<longleftrightarrow> c \<notin> set s"
proof
  assume cut: "Cut c s = None"
  show "c \<notin> set s"
  proof
    assume "c \<in> set s"
    then obtain x y where "s = x @ c # y" "c \<notin> set x" by (meson split_list_first)
    with cut Cut_app [of c x y] show False by simp
  qed
next
  assume "c \<notin> set s"
  then have "dropWhile (\<lambda>x. x \<noteq> c) s = []" by (induction s) auto
  then show "Cut c s = None" by (simp only: Cut_def list.case)
qed

lemma Cut_Some: "Cut c s = Some (a, b) \<longleftrightarrow> s = a @ c # b \<and> c \<notin> set a"
proof
  assume cut: "Cut c s = Some (a, b)"
  then have "c \<in> set s" using Cut_None [of c s] by auto
  then obtain x y where "s = x @ c # y" "c \<notin> set x" by (meson split_list_first)
  with cut Cut_app [of c x y] show "s = a @ c # b \<and> c \<notin> set a" by simp
qed (simp add: Cut_app)

lemma CutLast_Some: "CutLast c s = Some (a, b) \<longleftrightarrow> s = a @ c # b \<and> c \<notin> set b"
proof -
  have "CutLast c s = Some (a, b) \<longleftrightarrow> Cut c (rev s) = Some (rev b, rev a)"
    by (auto simp: CutLast_def split: option.splits)
  also have "\<dots> \<longleftrightarrow> rev s = rev (a @ c # b) \<and> c \<notin> set b" by (simp add: Cut_Some)
  finally show ?thesis by (simp only: rev_is_rev_conv)
qed

lemma CutLast_None: "CutLast c s = None \<longleftrightarrow> c \<notin> set s"
  using Cut_None [of c "rev s"] by (auto simp: CutLast_def split: option.splits)

section \<open>Splitting and joining\<close>

lemma Split_not_Nil [simp]: "Split c s \<noteq> []"
  by (cases s) (auto split: list.splits)

lemma Join_Cons: "xs \<noteq> [] \<Longrightarrow> Join sep (x # xs) = x @ sep @ Join sep xs"
  by (cases xs) simp_all

lemma Join_Split: "Join [c] (Split c s) = s"
proof (induction s)
  case (Cons x s)
  obtain y ys where "Split c s = y # ys" using Split_not_Nil [of c s] by (cases "Split c s") auto
  with Cons show ?case by (cases ys) (auto simp: Join_Cons)
qed simp

lemma Split_no_sep: "t \<in> set (Split c s) \<Longrightarrow> c \<notin> set t"
proof (induction s arbitrary: t)
  case (Cons x s)
  obtain y ys where "Split c s = y # ys" using Split_not_Nil [of c s] by (cases "Split c s") auto
  with Cons show ?case by (auto split: if_splits)
qed simp

lemma Split_app: "c \<notin> set a \<Longrightarrow> Split c (a @ c # b) = a # Split c b"
  by (induction a) auto

lemma Split_single: "c \<notin> set a \<Longrightarrow> Split c a = [a]"
  by (induction a) auto

lemma Split_Join: "\<lbrakk>xs \<noteq> []; \<forall>x\<in>set xs. c \<notin> set x\<rbrakk> \<Longrightarrow> Split c (Join [c] xs) = xs"
proof (induction xs)
  case (Cons x xs)
  then show ?case by (cases xs) (simp_all add: Split_app Split_single)
qed simp

lemma Join_chars: "ch \<in> set (Join sep xs) \<Longrightarrow> ch \<in> set sep \<or> (\<exists>x\<in>set xs. ch \<in> set x)"
  by (induction sep xs rule: Join.induct) auto

lemma Join_member_chars: "x \<in> set xs \<Longrightarrow> set x \<subseteq> set (Join sep xs)"
  by (induction sep xs rule: Join.induct) auto

end
