(* ===== verification/Reference.thy ===== *)
theory Reference
  imports Descriptors Regexp Go_Strings
begin

text \<open>
  \<^verbatim>\<open>registry/reference.go\<close>: references to artifacts of a registry, with parsing, validation and
  printing. The digest algorithms are a parameter. \<^verbatim>\<open>url.ParseRequestURI\<close> of the standard
  library is modelled as far as \<^verbatim>\<open>ValidateRegistry\<close> uses it (\<open>host_ok\<close>): the host of
  \<^verbatim>\<open>dummy://R\<close> is the whole of \<open>R\<close>.
\<close>

record reference =
  Registry :: string
  Repository :: string
  Reference :: string

section \<open>Validation\<close>

abbreviation "lower_alnum \<equiv> [rng CHR ''a'' CHR ''z'', rng CHR ''0'' CHR ''9'']"

text \<open>\<^verbatim>\<open>[a-z0-9]+(?:(?:[._]|__|[-]*)[a-z0-9]+)*\<close>, and the same behind each slash.\<close>

definition repositoryComponent :: re where
  "repositoryComponent = Seq (Plus (Cls lower_alnum))
     (Star (Seq (Alt (Cls (chars ''._'')) (Alt (Seq (Cls (chars ''_'')) (Cls (chars ''_''))) (Star (Cls (chars ''-'')))))
       (Plus (Cls lower_alnum))))"

definition repositoryRegexp :: re where
  "repositoryRegexp = Seq repositoryComponent (Star (Seq (Cls (chars ''/'')) repositoryComponent))"

abbreviation "word_chars \<equiv> [rng CHR ''0'' CHR ''9'', rng CHR ''A'' CHR ''Z'', rng CHR ''a'' CHR ''z''] @ chars ''_''"

text \<open>\<^verbatim>\<open>[\w][\w.-]{0,127}\<close>\<close>

definition tagRegexp :: re where
  "tagRegexp = Seq (Cls word_chars) (Upto 127 (Cls (word_chars @ chars ''.-'')))"

text \<open>
  A host that \<^verbatim>\<open>net/url\<close> returns unchanged: no byte of it is escaped or has to be, an address in
  brackets is closed, and what follows the last colon (or the closing bracket) is a port.
\<close>

definition host_char :: "char \<Rightarrow> bool" where
  "host_char c \<longleftrightarrow> 128 \<le> (of_char c :: nat) \<or>
     in_cls ([rng CHR ''a'' CHR ''z'', rng CHR ''A'' CHR ''Z'', rng CHR ''0'' CHR ''9'']
       @ chars ''-_.~!$&()*+,;=:[]<>'' @ [(39, 39), (34, 34)]) c"

definition validOptionalPort :: "string \<Rightarrow> bool" where
  "validOptionalPort port \<longleftrightarrow> port = [] \<or>
     hd port = CHR '':'' \<and> list_all (in_cls [rng CHR ''0'' CHR ''9'']) (tl port)"

definition host_ok :: "string \<Rightarrow> bool" where
  "host_ok host \<longleftrightarrow> host \<noteq> [] \<and> list_all host_char host \<and>
     (if hd host = CHR ''['' then
        (case CutLast CHR '']'' host of None \<Rightarrow> False | Some (_, colonPort) \<Rightarrow> validOptionalPort colonPort)
      else (case CutLast CHR '':'' host of None \<Rightarrow> True | Some (_, port) \<Rightarrow> validOptionalPort (CHR '':'' # port)))"

definition ValidateRegistry :: "reference \<Rightarrow> unit res" where
  "ValidateRegistry r = (if \<not> host_ok (Registry r) then Inl ErrInvalidReference else Inr ())"

definition ValidateRepository :: "reference \<Rightarrow> unit res" where
  "ValidateRepository r =
     (if \<not> re_match repositoryRegexp (Repository r) then Inl ErrInvalidReference else Inr ())"

definition ValidateReferenceAsTag :: "reference \<Rightarrow> unit res" where
  "ValidateReferenceAsTag r =
     (if \<not> re_match tagRegexp (Reference r) then Inl ErrInvalidReference else Inr ())"

definition ref_Digest :: "ext \<Rightarrow> reference \<Rightarrow> string res" where
  "ref_Digest P r = (if dg_valid P (Reference r) then Inr (Reference r) else Inl ErrInvalidDigest)"

definition ValidateReferenceAsDigest :: "ext \<Rightarrow> reference \<Rightarrow> unit res" where
  "ValidateReferenceAsDigest P r = (case ref_Digest P r of
     Inl _ \<Rightarrow> Inl ErrInvalidReference
   | Inr _ \<Rightarrow> Inr ())"

definition ValidateReference :: "ext \<Rightarrow> reference \<Rightarrow> unit res" where
  "ValidateReference P r =
     (if Reference r = [] then Inr ()
      else if CHR '':'' \<in> set (Reference r) then ValidateReferenceAsDigest P r
      else ValidateReferenceAsTag r)"

definition Validate :: "ext \<Rightarrow> reference \<Rightarrow> unit res" where
  "Validate P r = (case ValidateRegistry r of
     Inl e \<Rightarrow> Inl e
   | Inr _ \<Rightarrow> (case ValidateRepository r of
       Inl e \<Rightarrow> Inl e
     | Inr _ \<Rightarrow> ValidateReference P r))"

section \<open>Parsing and printing\<close>

definition ParseReference :: "ext \<Rightarrow> string \<Rightarrow> reference res" where
  "ParseReference P artifact = (case Cut CHR ''/'' artifact of
     None \<Rightarrow> Inl ErrInvalidReference
   | Some (registry, path) \<Rightarrow>
       (let (isTag, repository, reference) = (case Cut CHR ''@'' path of
              Some (repository, reference) \<Rightarrow>
                (False, case Cut CHR '':'' repository of Some (repository, _) \<Rightarrow> repository | None \<Rightarrow> repository,
                 reference)
            | None \<Rightarrow> (case Cut CHR '':'' path of
                Some (repository, reference) \<Rightarrow> (True, repository, reference)
              | None \<Rightarrow> (False, path, [])));
            ref = \<lparr>Registry = registry, Repository = repository, Reference = reference\<rparr>
        in case ValidateRegistry ref of
             Inl e \<Rightarrow> Inl e
           | Inr _ \<Rightarrow> (case ValidateRepository ref of
               Inl e \<Rightarrow> Inl e
             | Inr _ \<Rightarrow>
                 if Reference ref = [] then Inr ref
                 else case (if isTag then ValidateReferenceAsTag ref else ValidateReferenceAsDigest P ref) of
                   Inl e \<Rightarrow> Inl e
                 | Inr _ \<Rightarrow> Inr ref)))"

definition Host :: "reference \<Rightarrow> string" where
  "Host r = (if Registry r = ''docker.io'' then ''registry-1.docker.io'' else Registry r)"

definition ReferenceOrDefault :: "reference \<Rightarrow> string" where
  "ReferenceOrDefault r = (if Reference r = [] then ''latest'' else Reference r)"

definition ref_String :: "ext \<Rightarrow> reference \<Rightarrow> string" where
  "ref_String P r =
     (if Repository r = [] then Registry r
      else let ref = Registry r @ ''/'' @ Repository r
        in if Reference r = [] then ref
           else case ref_Digest P r of
             Inr d \<Rightarrow> ref @ ''@'' @ d
           | Inl _ \<Rightarrow> ref @ '':'' @ Reference r)"

section \<open>The characters of the parts\<close>

lemma host_ok_chars: "host_ok h \<Longrightarrow> h \<noteq> [] \<and> CHR ''/'' \<notin> set h"
proof -
  have "\<not> host_char CHR ''/''" by (simp add: host_char_def in_cls_def rng_def chars_def)
  then show "host_ok h \<Longrightarrow> h \<noteq> [] \<and> CHR ''/'' \<notin> set h" by (auto simp: host_ok_def list_all_iff)
qed

lemma repository_chars:
  assumes "re_match repositoryRegexp s"
  shows "s \<noteq> []" "CHR ''@'' \<notin> set s" "CHR '':'' \<notin> set s"
proof -
  have "\<not> in_cls (re_chars repositoryRegexp) CHR ''@''" "\<not> in_cls (re_chars repositoryRegexp) CHR '':''"
    by (simp_all add: repositoryRegexp_def repositoryComponent_def Plus_def in_cls_def rng_def chars_def)
  with assms show "CHR ''@'' \<notin> set s" "CHR '':'' \<notin> set s" using re_match_chars by blast+
  show "s \<noteq> []" using assms by (auto simp: repositoryRegexp_def repositoryComponent_def Plus_def)
qed

lemma Upto_chars: "set (re_chars (Upto n r)) \<subseteq> set (re_chars r)"
  by (induction n) auto

lemma in_cls_mono: "\<lbrakk>set rs \<subseteq> set ss; in_cls rs c\<rbrakk> \<Longrightarrow> in_cls ss c"
  by (auto simp: in_cls_def list_ex_iff)

lemma tag_chars:
  assumes "re_match tagRegexp s"
  shows "s \<noteq> []" "CHR ''@'' \<notin> set s" "CHR '':'' \<notin> set s"
proof -
  have "in_cls (re_chars tagRegexp) c \<Longrightarrow> in_cls (word_chars @ chars ''.-'') c" for c
    by (rule in_cls_mono [rotated]) (use Upto_chars in \<open>fastforce simp: tagRegexp_def\<close>)+
  moreover have "\<not> in_cls (word_chars @ chars ''.-'') CHR ''@''" "\<not> in_cls (word_chars @ chars ''.-'') CHR '':''"
    by (simp_all add: in_cls_def rng_def chars_def)
  ultimately show "CHR ''@'' \<notin> set s" "CHR '':'' \<notin> set s" using re_match_chars [OF assms] by blast+
  show "s \<noteq> []" using assms by (auto simp: tagRegexp_def)
qed

section \<open>What is parsed\<close>

text \<open>The path behind the registry, as \<^verbatim>\<open>ParseReference\<close> divides it: the kind of reference, the
  repository and the reference.\<close>

definition parse_path :: "string \<Rightarrow> bool \<times> string \<times> string" where
  "parse_path path = (case Cut CHR ''@'' path of
     Some (repository, reference) \<Rightarrow>
       (False, case Cut CHR '':'' repository of Some (repository, _) \<Rightarrow> repository | None \<Rightarrow> repository, reference)
   | None \<Rightarrow> (case Cut CHR '':'' path of
       Some (repository, reference) \<Rightarrow> (True, repository, reference)
     | None \<Rightarrow> (False, path, [])))"

definition path_form :: "bool \<Rightarrow> string \<Rightarrow> string \<Rightarrow> string \<Rightarrow> bool" where
  "path_form isTag repository reference path \<longleftrightarrow>
     (\<not> isTag \<and> reference = [] \<and> path = repository)
   \<or> (isTag \<and> CHR ''@'' \<notin> set reference \<and> path = repository @ '':'' @ reference)
   \<or> (\<not> isTag \<and> (\<exists>tag. CHR ''@'' \<notin> set tag \<and> (tag = [] \<or> hd tag = CHR '':'')
        \<and> path = repository @ tag @ ''@'' @ reference))"

lemma parse_path_app:
  assumes "CHR ''@'' \<notin> set repository" "CHR '':'' \<notin> set repository" "path_form isTag repository reference path"
  shows "parse_path path = (isTag, repository, reference)"
proof -
  from assms(3) consider (D) "\<not> isTag" "reference = []" "path = repository"
    | (C) "isTag" "CHR ''@'' \<notin> set reference" "path = repository @ '':'' @ reference"
    | (A) "\<not> isTag" "path = repository @ [] @ ''@'' @ reference"
    | (B) t where "\<not> isTag" "CHR ''@'' \<notin> set t" "path = repository @ (CHR '':'' # t) @ ''@'' @ reference"
    unfolding path_form_def by (metis list.collapse list.set_intros(2))
  then show ?thesis
  proof cases
    case D
    with assms have "Cut CHR ''@'' path = None" "Cut CHR '':'' path = None" by (simp_all add: Cut_None)
    with D show ?thesis by (simp add: parse_path_def)
  next
    case C
    with assms have "Cut CHR ''@'' path = None" by (simp add: Cut_None)
    moreover have "Cut CHR '':'' path = Some (repository, reference)" using C assms by (simp add: Cut_Some)
    ultimately show ?thesis using C by (simp add: parse_path_def)
  next
    case A
    with assms have "Cut CHR ''@'' path = Some (repository, reference)" by (simp add: Cut_Some)
    moreover have "Cut CHR '':'' repository = None" using assms by (simp add: Cut_None)
    ultimately show ?thesis using A by (simp add: parse_path_def)
  next
    case B
    with assms have "Cut CHR ''@'' path = Some (repository @ CHR '':'' # t, reference)" by (simp add: Cut_Some)
    moreover have "Cut CHR '':'' (repository @ CHR '':'' # t) = Some (repository, t)" using assms by (simp add: Cut_Some)
    ultimately show ?thesis using B by (simp add: parse_path_def)
  qed
qed

lemma parse_path_form:
  assumes "parse_path path = (isTag, repository, reference)"
  shows "path_form isTag repository reference path"
proof (cases "Cut CHR ''@'' path")
  case None
  then show ?thesis
    using assms by (auto simp: parse_path_def path_form_def Cut_None Cut_Some split: option.splits)
next
  case (Some p)
  obtain a b where p: "p = (a, b)" by (cases p)
  with Some have path: "path = a @ CHR ''@'' # b" "CHR ''@'' \<notin> set a" by (simp_all add: Cut_Some)
  show ?thesis
  proof (cases "Cut CHR '':'' a")
    case None
    with assms Some p path show ?thesis by (auto simp: parse_path_def path_form_def intro!: exI [of _ "[]"])
  next
    case (Some q)
    obtain c d where q: "q = (c, d)" by (cases q)
    with Some have a: "a = c @ CHR '':'' # d" by (simp add: Cut_Some)
    with assms Some \<open>Cut CHR ''@'' path = Some p\<close> p q path show ?thesis
      by (auto simp: parse_path_def path_form_def intro!: exI [of _ "CHR '':'' # d"])
  qed
qed

lemma ParseReference_eq:
  "ParseReference P s = Inr r \<longleftrightarrow> (\<exists>path isTag. Cut CHR ''/'' s = Some (Registry r, path)
     \<and> parse_path path = (isTag, Repository r, Reference r) \<and> host_ok (Registry r)
     \<and> re_match repositoryRegexp (Repository r)
     \<and> (Reference r = [] \<or> (if isTag then re_match tagRegexp (Reference r) else dg_valid P (Reference r))))"
  unfolding ParseReference_def parse_path_def [symmetric]
  by (cases r) (auto simp: ValidateRegistry_def ValidateRepository_def ValidateReferenceAsTag_def
      ValidateReferenceAsDigest_def ref_Digest_def Let_def split: option.splits prod.splits if_splits sum.splits)

lemma Validate_Inr:
  "Validate P r = Inr () \<longleftrightarrow> host_ok (Registry r) \<and> re_match repositoryRegexp (Repository r)
     \<and> (Reference r = [] \<or> (if CHR '':'' \<in> set (Reference r) then dg_valid P (Reference r)
          else re_match tagRegexp (Reference r)))"
  by (auto simp: Validate_def ValidateRegistry_def ValidateRepository_def ValidateReference_def
      ValidateReferenceAsTag_def ValidateReferenceAsDigest_def ref_Digest_def split: sum.splits if_splits)

section \<open>What references promise\<close>


text \<open>
  C34. Printing and parsing a reference round trip: a valid reference prints to a string that
  parses to it, and what is parsed is valid.
\<close>

theorem ParseReference_roundtrip:
  assumes "digest_laws P"
  shows "(Validate P r = Inr () \<longrightarrow> ParseReference P (ref_String P r) = Inr r)
    \<and> (ParseReference P s = Inr r' \<longrightarrow> Validate P r' = Inr ())"
proof (intro conjI impI)
  assume v: "Validate P r = Inr ()"
  then have h: "host_ok (Registry r)" "re_match repositoryRegexp (Repository r)" by (simp_all add: Validate_Inr)
  note repo = repository_chars [OF h(2)]
  have colon: "dg_valid P x \<Longrightarrow> CHR '':'' \<in> set x" for x using assms by (simp add: digest_laws_def)
  let ?path = "Repository r @ (if Reference r = [] then [] else if dg_valid P (Reference r) then ''@'' @ Reference r
       else '':'' @ Reference r)"
  have s: "ref_String P r = Registry r @ ''/'' @ ?path"
    using repo(1) by (simp add: ref_String_def ref_Digest_def Let_def)
  have "path_form (Reference r \<noteq> [] \<and> \<not> dg_valid P (Reference r)) (Repository r) (Reference r) ?path"
    using v by (auto simp: path_form_def Validate_Inr dest: tag_chars(2) colon split: if_splits)
  from parse_path_app [OF repo(2,3) this]
  have "parse_path ?path = (Reference r \<noteq> [] \<and> \<not> dg_valid P (Reference r), Repository r, Reference r)" .
  moreover have "Cut CHR ''/'' (ref_String P r) = Some (Registry r, ?path)"
    unfolding s using host_ok_chars [OF h(1)] by (simp add: Cut_Some)
  ultimately show "ParseReference P (ref_String P r) = Inr r"
    unfolding ParseReference_eq using v h by (auto simp: Validate_Inr split: if_splits)
next
  assume "ParseReference P s = Inr r'"
  then show "Validate P r' = Inr ()"
    using assms tag_chars(3) [of "Reference r'"]
    by (auto simp: ParseReference_eq Validate_Inr digest_laws_def split: if_splits)
qed

theorem ParseReference_roundtrip_witness:
  "ParseReference demo_ext (ref_String demo_ext \<lparr>Registry = ''localhost:5000'', Repository = ''hello/world'', Reference = ''v1''\<rparr>)
     = Inr \<lparr>Registry = ''localhost:5000'', Repository = ''hello/world'', Reference = ''v1''\<rparr>"
proof -
  let ?r = "\<lparr>Registry = ''localhost:5000'', Repository = ''hello/world'', Reference = ''v1''\<rparr>"
  have "CHR '':'' \<in> set d" if "take 7 d = ''sha256:''" for d :: string
    using in_set_takeD [of "CHR '':''" 7 d] that by simp
  then have laws: "digest_laws demo_ext" by (simp add: digest_laws_def demo_ext_def)
  have "host_ok ''localhost:5000''"
    by (simp add: host_ok_def host_char_def in_cls_def rng_def chars_def CutLast_def Cut_def validOptionalPort_def)
  moreover have "re_match repositoryRegexp ''hello/world''"
    by (simp add: repositoryRegexp_def repositoryComponent_def Plus_def in_cls_def rng_def chars_def)
  moreover have "re_match tagRegexp ''v1''"
    by (simp add: tagRegexp_def in_cls_def rng_def chars_def eval_nat_numeral)
  ultimately have "Validate demo_ext ?r = Inr ()" by (simp add: Validate_Inr)
  with ParseReference_roundtrip [OF laws, of ?r] show ?thesis by blast
qed

end
