(* ===== verification/Copy_Node.thy ===== *)
theory Copy_Node
  imports Proxy Content_Graph
begin

text \<open>
  \<^verbatim>\<open>copy.go\<close>, the part that handles one node: the options with their hooks, \<^verbatim>\<open>doCopyNode\<close>,
  \<^verbatim>\<open>copyNode\<close>, \<^verbatim>\<open>mountOrCopyNode\<close>, \<^verbatim>\<open>removeForeignLayers\<close> and the search for successors
  through the caching proxy. The traversal of the graph is in \<open>Copy_Graph\<close>.

  A hook is a function on the state of the destination, since the hooks of \<^verbatim>\<open>Copy\<close> tag the root
  there, and it can read the cache of the proxy. \<^verbatim>\<open>Mount\<close> of a destination either mounts, fails, or calls back for the content.
\<close>

type_synonym 's hook = "cas_memory \<Rightarrow> descriptor \<Rightarrow> 's \<Rightarrow> error option \<times> 's"

datatype 's mount =
    Mounted 's
  | MountFailed error 's
  | MountContent "reader res \<Rightarrow> 's \<Rightarrow> unit res \<times> 's"

record 's copy_opts =
  Concurrency :: int
  MaxMetadataBytes :: int
  PreCopy :: "'s hook option"
  PostCopy :: "'s hook option"
  OnCopySkipped :: "'s hook option"
  MountFrom :: "(descriptor \<Rightarrow> string list res) option"
  OnMounted :: "'s hook option"
  FindSuccessors :: "(cas_memory \<Rightarrow> descriptor \<Rightarrow> descriptor list res \<times> cas_memory) option"

definition DefaultCopyGraphOptions :: "'s copy_opts" where
  "DefaultCopyGraphOptions = \<lparr>Concurrency = 0, MaxMetadataBytes = 0, PreCopy = None, PostCopy = None,
     OnCopySkipped = None, MountFrom = None, OnMounted = None, FindSuccessors = None\<rparr>"

definition defaultConcurrency :: int where
  "defaultConcurrency = 3"

definition defaultCopyMaxMetadataBytes :: int where
  "defaultCopyMaxMetadataBytes = 4 * 1024 * 1024"

text \<open>What the functions below get: the source, the destination and the options.\<close>

record 's copy_env =
  ce_src :: "descriptor \<Rightarrow> reader res"
  ce_src_exists :: "descriptor \<Rightarrow> bool res"
  ce_dst :: "'s storage"
  ce_mounter :: "('s \<Rightarrow> descriptor \<Rightarrow> string \<Rightarrow> 's mount) option"
  ce_opts :: "'s copy_opts"

definition ce_proxy :: "ext \<Rightarrow> 's copy_env \<Rightarrow> cas_memory proxy" where
  "ce_proxy P E =
     (let n = MaxMetadataBytes (ce_opts E);
          n = (if n \<le> 0 then defaultCopyMaxMetadataBytes else n)
      in NewProxyWithLimit (ce_src E) (ce_src_exists E) (mem_storage P) n)"

definition ce_concurrency :: "'s copy_env \<Rightarrow> nat" where
  "ce_concurrency E =
     nat (if Concurrency (ce_opts E) \<le> 0 then defaultConcurrency else Concurrency (ce_opts E))"

definition run_hook :: "'s hook option \<Rightarrow> cas_memory \<Rightarrow> descriptor \<Rightarrow> 's \<Rightarrow> error option \<times> 's" where
  "run_hook h c desc s = (case h of None \<Rightarrow> (None, s) | Some f \<Rightarrow> f c desc s)"

section \<open>Copying one node\<close>

definition doCopyNode :: "(descriptor \<Rightarrow> reader res) \<Rightarrow> 's storage \<Rightarrow> descriptor \<Rightarrow> 's \<Rightarrow> unit res \<times> 's" where
  "doCopyNode fetch dst desc s = (case fetch desc of
     Inl e \<Rightarrow> (Inl e, s)
   | Inr rc \<Rightarrow> (case st_Push dst s desc rc of
       (Inl e, s) \<Rightarrow> if e \<noteq> ErrAlreadyExists then (Inl e, s) else (Inr (), s)
     | (Inr _, s) \<Rightarrow> (Inr (), s)))"

definition copyNode :: "(descriptor \<Rightarrow> reader res) \<Rightarrow> 's storage \<Rightarrow> 's copy_opts \<Rightarrow> cas_memory \<Rightarrow> descriptor \<Rightarrow> 's \<Rightarrow>
    unit res \<times> 's" where
  "copyNode fetch dst opts c desc s = (case run_hook (PreCopy opts) c desc s of
     (Some e, s) \<Rightarrow> if e = SkipNode then (Inr (), s) else (Inl e, s)
   | (None, s) \<Rightarrow> (case doCopyNode fetch dst desc s of
       (Inl e, s) \<Rightarrow> (Inl e, s)
     | (Inr _, s) \<Rightarrow> (case run_hook (PostCopy opts) c desc s of
         (Some e, s) \<Rightarrow> (Inl e, s)
       | (None, s) \<Rightarrow> (Inr (), s))))"

definition skipSource :: error where
  "skipSource = ErrOther ''skip source''"

text \<open>
  The loop over the source repositories. The content that \<^verbatim>\<open>getContent\<close> returns is an error for all
  but the last of them.
\<close>

fun mount_loop :: "'s copy_env \<Rightarrow> cas_memory \<Rightarrow> ('s \<Rightarrow> descriptor \<Rightarrow> string \<Rightarrow> 's mount) \<Rightarrow> descriptor \<Rightarrow> string list \<Rightarrow>
    's \<Rightarrow> unit res \<times> 's" where
  "mount_loop E c mount desc [] s = (case run_hook (PostCopy (ce_opts E)) c desc s of
     (Some e, s) \<Rightarrow> (Inl e, s)
   | (None, s) \<Rightarrow> (Inr (), s))"
| "mount_loop E c mount desc (sourceRepository # rest) s = (case mount s desc sourceRepository of
     Mounted s \<Rightarrow> (case run_hook (OnMounted (ce_opts E)) c desc s of
         (Some e, s) \<Rightarrow> (Inl e, s)
       | (None, s) \<Rightarrow> (Inr (), s))
   | MountFailed e s \<Rightarrow>
       if e \<noteq> skipSource then (Inl e, s)
       else (case run_hook (OnMounted (ce_opts E)) c desc s of
         (Some e, s) \<Rightarrow> (Inl e, s)
       | (None, s) \<Rightarrow> (Inr (), s))
   | MountContent k \<Rightarrow>
       (let (content, s) =
          (if rest \<noteq> [] then (Inl skipSource, s)
           else case run_hook (PreCopy (ce_opts E)) c desc s of
             (Some e, s) \<Rightarrow> (Inl e, s)
           | (None, s) \<Rightarrow> (ce_src E desc, s))
        in case k content s of
          (Inl e, s) \<Rightarrow> if e \<noteq> skipSource then (Inl e, s) else mount_loop E c mount desc rest s
        | (Inr _, s) \<Rightarrow> mount_loop E c mount desc rest s))"

definition mountOrCopyNode :: "'s copy_env \<Rightarrow> cas_memory \<Rightarrow> descriptor \<Rightarrow> 's \<Rightarrow> unit res \<times> 's" where
  "mountOrCopyNode E c desc s =
     (let copy = copyNode (ce_src E) (ce_dst E) (ce_opts E) c desc s
      in case MountFrom (ce_opts E) of
        None \<Rightarrow> copy
      | Some mountFrom \<Rightarrow>
          if IsManifest desc then copy
          else case ce_mounter E of
            None \<Rightarrow> copy
          | Some mount \<Rightarrow> (case mountFrom desc of
              Inl e \<Rightarrow> (Inl e, s)
            | Inr sourceRepositories \<Rightarrow>
                if sourceRepositories = [] then copy
                else mount_loop E c mount desc sourceRepositories s))"

text \<open>The end of the traversal function: nodes in the cache are copied from there.\<close>

definition cg_copy :: "ext \<Rightarrow> 's copy_env \<Rightarrow> cas_memory \<Rightarrow> descriptor \<Rightarrow> 's \<Rightarrow> unit res \<times> 's" where
  "cg_copy P E cache desc s =
     (let px = ce_proxy P E
      in case st_Exists (px_Cache px) cache desc of
        Inl e \<Rightarrow> (Inl e, s)
      | Inr True \<Rightarrow> copyNode (st_Fetch (px_Cache px) cache) (ce_dst E) (ce_opts E) cache desc s
      | Inr False \<Rightarrow> mountOrCopyNode E cache desc s)"

definition cg_find :: "ext \<Rightarrow> 's copy_env \<Rightarrow> cas_memory \<Rightarrow> descriptor \<Rightarrow> descriptor list res \<times> cas_memory" where
  "cg_find P E cache desc = (case FindSuccessors (ce_opts E) of
     Some f \<Rightarrow> f cache desc
   | None \<Rightarrow>
       if IsManifest desc then
         (case proxy_FetchAll P (ce_proxy P E) cache desc of
            (Inl e, cache) \<Rightarrow> (Inl e, cache)
          | (Inr b, cache) \<Rightarrow> (decode_successors P desc b, cache))
       else (Inr [], cache))"

text \<open>
  \<^verbatim>\<open>removeForeignLayers\<close> moves the layers that stay to the front of the slice it is given, which
  it reads at the same time.
\<close>

function foreign_loop :: "nat \<Rightarrow> nat \<Rightarrow> descriptor list \<Rightarrow> descriptor list" where
  "foreign_loop i j descs =
     (if i \<ge> length descs then take j descs
      else let desc = descs ! i
        in if \<not> IsForeignLayer desc
           then foreign_loop (i + 1) (j + 1) (if i \<noteq> j then descs[j := desc] else descs)
           else foreign_loop (i + 1) j descs)"
  by pat_completeness auto
termination
  by (relation "measure (\<lambda>(i, j, descs). length descs - i)") auto

declare foreign_loop.simps [simp del]

definition removeForeignLayers :: "descriptor list \<Rightarrow> descriptor list" where
  "removeForeignLayers descs = foreign_loop 0 0 descs"

lemma foreign_loop_filter:
  "j \<le> i \<Longrightarrow> foreign_loop i j descs = take j descs @ filter (\<lambda>d. \<not> IsForeignLayer d) (drop i descs)"
proof (induction i j descs rule: foreign_loop.induct)
  case (1 i j descs)
  show ?case
  proof (cases "i < length descs")
    case False
    then show ?thesis by (simp add: foreign_loop.simps [of i])
  next
    case True
    let ?d = "descs ! i"
    have drop: "drop i descs = ?d # drop (i + 1) descs" using True by (simp add: Cons_nth_drop_Suc)
    show ?thesis
    proof (cases "IsForeignLayer ?d")
      case True
      with 1 \<open>i < length descs\<close> drop show ?thesis by (simp add: foreign_loop.simps [of i])
    next
      case False
      let ?ds = "if i \<noteq> j then descs[j := ?d] else descs"
      have "foreign_loop i j descs = foreign_loop (i + 1) (j + 1) ?ds"
        using False True by (simp add: foreign_loop.simps [of i] Let_def)
      also have "\<dots> = take (j + 1) ?ds @ filter (\<lambda>d. \<not> IsForeignLayer d) (drop (i + 1) ?ds)"
        using 1 True False by (intro "1.IH") simp_all
      also have "take (j + 1) ?ds = take j descs @ [?d]"
        using 1(3) True by (auto simp: take_Suc_conv_app_nth)
      also have "drop (i + 1) ?ds = drop (i + 1) descs" using 1(3) by simp
      finally show ?thesis using False drop by simp
    qed
  qed
qed

lemma removeForeignLayers_filter: "removeForeignLayers descs = filter (\<lambda>d. \<not> IsForeignLayer d) descs"
  by (simp add: removeForeignLayers_def foreign_loop_filter)

section \<open>What the hooks and the mounter have to keep\<close>

definition hook_ok :: "('s \<Rightarrow> bool) \<Rightarrow> ('s \<Rightarrow> descriptor \<Rightarrow> bytes option) \<Rightarrow> 's hook option \<Rightarrow> bool" where
  "hook_ok iv content h \<longleftrightarrow> (\<forall>f c d s e s'. h = Some f \<and> iv s \<and> f c d s = (e, s') \<longrightarrow>
     iv s' \<and> adds content d s s' \<and> e \<noteq> Some skipSource)"

text \<open>As documented, a hook asks to skip a node only when the destination has it.\<close>

definition skip_ok :: "('s \<Rightarrow> bool) \<Rightarrow> ('s \<Rightarrow> descriptor \<Rightarrow> bytes option) \<Rightarrow> 's hook option \<Rightarrow> bool" where
  "skip_ok iv content h \<longleftrightarrow> (\<forall>f c d s s'. h = Some f \<and> iv s \<and> f c d s = (Some SkipNode, s') \<longrightarrow> content s' d \<noteq> None)"

definition mount_ok :: "('s \<Rightarrow> bool) \<Rightarrow> ('s \<Rightarrow> descriptor \<Rightarrow> bytes option) \<Rightarrow>
    ('s \<Rightarrow> descriptor \<Rightarrow> string \<Rightarrow> 's mount) option \<Rightarrow> bool" where
  "mount_ok iv content m \<longleftrightarrow> (\<forall>f s d r. m = Some f \<and> iv s \<longrightarrow> (case f s d r of
     Mounted s' \<Rightarrow> iv s' \<and> adds content d s s' \<and> content s' d \<noteq> None
   | MountFailed e s' \<Rightarrow> iv s' \<and> adds content d s s' \<and> e \<noteq> skipSource
   | MountContent k \<Rightarrow> (\<forall>c s x s'. iv s \<and> k c s = (x, s') \<longrightarrow>
       iv s' \<and> adds content d s s' \<and> (x = Inr () \<longrightarrow> content s' d \<noteq> None \<and> isl c = False)
       \<and> (x = Inl skipSource \<longrightarrow> c = Inl skipSource))))"

definition env_ok :: "('s \<Rightarrow> bool) \<Rightarrow> ('s \<Rightarrow> descriptor \<Rightarrow> bytes option) \<Rightarrow> 's copy_env \<Rightarrow> bool" where
  "env_ok iv content E \<longleftrightarrow> hook_ok iv content (PreCopy (ce_opts E)) \<and> skip_ok iv content (PreCopy (ce_opts E))
     \<and> hook_ok iv content (PostCopy (ce_opts E)) \<and> hook_ok iv content (OnCopySkipped (ce_opts E))
     \<and> hook_ok iv content (OnMounted (ce_opts E)) \<and> mount_ok iv content (ce_mounter E)
     \<and> (\<forall>d. ce_src E d \<noteq> Inl skipSource)
     \<and> (\<forall>d rc. ce_src E d = Inr rc \<longrightarrow> snd (rd_stream rc) \<noteq> ErrAlreadyExists)"

lemma run_hook_ok:
  assumes "hook_ok iv content h" "iv s" "run_hook h c d s = (e, s')"
  shows "iv s'" "adds content d s s'" "e \<noteq> Some skipSource"
  using assms adds_refl by (auto simp: run_hook_def hook_ok_def split: option.splits)

lemma run_hook_skip:
  "\<lbrakk>skip_ok iv content h; iv s; run_hook h c d s = (Some SkipNode, s')\<rbrakk> \<Longrightarrow> content s' d \<noteq> None"
  by (auto simp: run_hook_def skip_ok_def split: option.splits)

lemma env_okD:
  assumes "env_ok iv content E"
  shows "hook_ok iv content (PreCopy (ce_opts E))" "skip_ok iv content (PreCopy (ce_opts E))"
    "hook_ok iv content (PostCopy (ce_opts E))" "hook_ok iv content (OnCopySkipped (ce_opts E))"
    "hook_ok iv content (OnMounted (ce_opts E))" "mount_ok iv content (ce_mounter E)"
    "ce_src E d \<noteq> Inl skipSource" "ce_src E d = Inr rc \<Longrightarrow> snd (rd_stream rc) \<noteq> ErrAlreadyExists"
  using assms unfolding env_ok_def by blast+

section \<open>What copying one node does\<close>

context push_store
begin

lemma doCopyNode_ok:
  assumes "inv s" "doCopyNode fetch st d s = (x, s')"
    and "\<And>rc. fetch d = Inr rc \<Longrightarrow> snd (rd_stream rc) \<noteq> ErrAlreadyExists"
  shows "inv s'" "adds content d s s'" "x = Inr () \<Longrightarrow> content s' d \<noteq> None"
proof -
  have "inv s' \<and> adds content d s s' \<and> (x = Inr () \<longrightarrow> content s' d \<noteq> None)"
  proof (cases "fetch d")
    case (Inl e)
    with assms show ?thesis by (auto simp: doCopyNode_def adds_refl)
  next
    case (Inr rc)
    obtain y s1 where p: "st_Push st s d rc = (y, s1)" by (cases "st_Push st s d rc")
    have "inv s1" "adds content d s s1" using store_inv [OF assms(1)] store_adds [OF assms(1)] p by (metis snd_conv)+
    moreover have "content s1 d \<noteq> None" if "y = Inr () \<or> y = Inl ErrAlreadyExists"
      using store_ok [OF assms(1), of d rc s1] store_already [OF assms(1), of d rc s1] p that assms(3) [OF Inr] by auto
    ultimately show ?thesis using assms(2) Inr p
      by (cases y) (auto simp: doCopyNode_def split: if_splits)
  qed
  then show "inv s'" "adds content d s s'" "x = Inr () \<Longrightarrow> content s' d \<noteq> None" by blast+
qed

lemma copyNode_ok:
  assumes "inv s" "copyNode fetch st opts c d s = (x, s')"
    and "\<And>rc. fetch d = Inr rc \<Longrightarrow> snd (rd_stream rc) \<noteq> ErrAlreadyExists"
    and h: "hook_ok inv content (PreCopy opts)" "skip_ok inv content (PreCopy opts)" "hook_ok inv content (PostCopy opts)"
  shows "inv s' \<and> adds content d s s' \<and> (x = Inr () \<longrightarrow> content s' d \<noteq> None)"
proof -
  obtain e s1 where 1: "run_hook (PreCopy opts) c d s = (e, s1)" by (cases "run_hook (PreCopy opts) c d s")
  note H1 = run_hook_ok [OF h(1) assms(1) 1]
  show ?thesis
  proof (cases e)
    case (Some e)
    with assms(2) 1 H1 run_hook_skip [OF h(2) assms(1), of c d s1] show ?thesis
      by (auto simp: copyNode_def split: if_splits)
  next
    case None
    obtain y s2 where 2: "doCopyNode fetch st d s1 = (y, s2)" by (cases "doCopyNode fetch st d s1")
    note H2 = doCopyNode_ok [OF H1(1) 2 assms(3)]
    obtain e' s3 where 3: "run_hook (PostCopy opts) c d s2 = (e', s3)" by (cases "run_hook (PostCopy opts) c d s2")
    note H3 = run_hook_ok [OF h(3) H2(1) 3]
    show ?thesis
    proof (cases y)
      case (Inl e'')
      with assms(2) 1 2 None H2(1) adds_trans [OF H1(2) H2(2)] show ?thesis by (auto simp: copyNode_def)
    next
      case (Inr u)
      with assms(2) 1 2 3 None have "s' = s3" by (auto simp: copyNode_def split: option.splits)
      moreover have "content s3 d \<noteq> None" using adds_mono [OF H3(2)] H2(3) Inr by simp
      ultimately show ?thesis using H3(1) adds_trans [OF adds_trans [OF H1(2) H2(2)] H3(2)] by blast
    qed
  qed
qed

lemma mount_loop_ok:
  assumes E: "env_ok inv content E" "ce_mounter E = Some f"
  shows "\<lbrakk>inv s; mount_loop E ch f d rs s = (x, s'); rs = [] \<Longrightarrow> content s d \<noteq> None\<rbrakk> \<Longrightarrow>
    inv s' \<and> adds content d s s' \<and> (x = Inr () \<longrightarrow> content s' d \<noteq> None)"
proof (induction rs arbitrary: s)
  case Nil
  obtain e s1 where 1: "run_hook (PostCopy (ce_opts E)) ch d s = (e, s1)" by (cases "run_hook (PostCopy (ce_opts E)) ch d s")
  note H = run_hook_ok [OF env_okD(3) [OF E(1)] Nil.prems(1) 1]
  with Nil.prems 1 adds_mono [OF H(2)] show ?case by (auto split: option.splits)
next
  case (Cons r rest)
  note m = env_okD(6) [OF E(1), unfolded mount_ok_def, rule_format, of f s d r, OF conjI [OF E(2) Cons.prems(1)]]
  show ?case
  proof (cases "f s d r")
    case (Mounted s1)
    with m have m1: "inv s1" "adds content d s s1" "content s1 d \<noteq> None" by simp_all
    obtain e s2 where 1: "run_hook (OnMounted (ce_opts E)) ch d s1 = (e, s2)"
      by (cases "run_hook (OnMounted (ce_opts E)) ch d s1")
    note H = run_hook_ok [OF env_okD(5) [OF E(1)] m1(1) 1]
    with Cons.prems(2) Mounted 1 m1 adds_mono [OF H(2)] adds_trans [OF m1(2) H(2)] show ?thesis
      by (auto split: option.splits)
  next
    case (MountFailed e s1)
    with m Cons.prems(2) show ?thesis by auto
  next
    case (MountContent k)
    obtain c s1 where c: "(if rest \<noteq> [] then (Inl skipSource, s)
           else case run_hook (PreCopy (ce_opts E)) ch d s of
             (Some e, s) \<Rightarrow> (Inl e, s) | (None, s) \<Rightarrow> (ce_src E d, s)) = (c, s1)"
      by fastforce
    obtain e0 s0 where 0: "run_hook (PreCopy (ce_opts E)) ch d s = (e0, s0)" by (cases "run_hook (PreCopy (ce_opts E)) ch d s")
    note H = run_hook_ok [OF env_okD(1) [OF E(1)] Cons.prems(1) 0]
    have c1: "inv s1" "adds content d s s1" "rest = [] \<longleftrightarrow> c \<noteq> Inl skipSource" "rest \<noteq> [] \<Longrightarrow> isl c"
      using c 0 H Cons.prems(1) env_okD(7) [OF E(1), of d]
      by (auto simp: adds_refl split: if_splits option.splits)
    obtain y s2 where k: "k c s1 = (y, s2)" by (cases "k c s1")
    with m MountContent c1(1) have k1: "inv s2" "adds content d s1 s2"
      "y = Inr () \<Longrightarrow> content s2 d \<noteq> None \<and> \<not> isl c" "y = Inl skipSource \<Longrightarrow> c = Inl skipSource"
      by auto
    note a2 = adds_trans [OF c1(2) k1(2)]
    have loop: "mount_loop E ch f d (r # rest) s = (case k c s1 of
        (Inl e, s) \<Rightarrow> if e \<noteq> skipSource then (Inl e, s) else mount_loop E ch f d rest s
      | (Inr _, s) \<Rightarrow> mount_loop E ch f d rest s)"
      using MountContent c by (simp add: Let_def)
    show ?thesis
    proof (cases "\<exists>e. y = Inl e \<and> e \<noteq> skipSource")
      case True
      with loop k Cons.prems(2) k1(1) a2 show ?thesis by auto
    next
      case False
      then have "mount_loop E ch f d rest s2 = (x, s')"
        using loop k Cons.prems(2) by (cases y) auto
      moreover have "rest = [] \<Longrightarrow> content s2 d \<noteq> None"
        using False k1(3,4) c1(3) by (cases y) auto
      ultimately show ?thesis using Cons.IH [OF k1(1)] adds_trans [OF a2] by blast
    qed
  qed
qed

lemma cg_copy_ok:
  assumes "env_ok inv content E" "ce_dst E = st" "inv s" "cg_copy P E cache d s = (x, s')"
  shows "inv s' \<and> adds content d s s' \<and> (x = Inr () \<longrightarrow> content s' d \<noteq> None)"
proof -
  note h = env_okD(1-3) [OF assms(1)]
  have cache: "st_Fetch (px_Cache (ce_proxy P E)) cache d = Inr rc \<Longrightarrow> snd (rd_stream rc) \<noteq> ErrAlreadyExists" for rc
    by (auto simp: ce_proxy_def NewProxyWithLimit_def NewProxy_def Let_def mem_storage_def mem_Fetch_def
        split: option.splits)
  have src: "copyNode (ce_src E) st (ce_opts E) cache d s = (x, s') \<Longrightarrow> ?thesis"
    using copyNode_ok [OF assms(3) _ _ h] env_okD(8) [OF assms(1)] by blast
  consider "copyNode (st_Fetch (px_Cache (ce_proxy P E)) cache) st (ce_opts E) cache d s = (x, s')"
    | "mountOrCopyNode E cache d s = (x, s')" | "s' = s" "\<exists>e. x = Inl e"
    using assms(2,4) by (auto simp: cg_copy_def Let_def split: sum.splits bool.splits)
  then show ?thesis
  proof cases
    case 1
    with copyNode_ok [OF assms(3) _ _ h] cache show ?thesis by blast
  next
    case 2
    then consider "copyNode (ce_src E) st (ce_opts E) cache d s = (x, s')" | "s' = s" "\<exists>e. x = Inl e"
      | f rs where "ce_mounter E = Some f" "rs \<noteq> []" "mount_loop E cache f d rs s = (x, s')"
      using assms(2) by (auto simp: mountOrCopyNode_def Let_def split: option.splits sum.splits if_splits)
    then show ?thesis
    proof cases
      case 3
      with mount_loop_ok [OF assms(1) 3(1) assms(3) 3(3)] show ?thesis by blast
    qed (use src assms(3) adds_refl in auto)
  next
    case 3
    with assms(3) show ?thesis by (auto simp: adds_refl)
  qed
qed

end

section \<open>Skipping and mounting\<close>

text \<open>
  A node that \<^verbatim>\<open>PreCopy\<close> asks to skip is skipped when it is copied, but when the node is a
  blob and mounting it was tried first, the request is passed to \<^verbatim>\<open>Mount\<close> as a failure to get the
  content, and the whole copy fails with it.
\<close>

lemma mount_SkipNode_fails:
  assumes "MountFrom (ce_opts E) = Some mountFrom" "\<not> IsManifest d" "ce_mounter E = Some mount"
    and "mountFrom d = Inr [repo]" "mount s d repo = MountContent k" "\<And>e s. k (Inl e) s = (Inl e, s)"
    and "PreCopy (ce_opts E) = Some f" "f c d s = (Some SkipNode, s')"
  shows "mountOrCopyNode E c d s = (Inl SkipNode, s') \<and> copyNode fetch dst (ce_opts E) c d s = (Inr (), s')"
  using assms by (simp add: mountOrCopyNode_def copyNode_def run_hook_def skipSource_def)

definition demo_skip :: "unit copy_env" where
  "demo_skip = \<lparr>ce_src = (\<lambda>_. Inl ErrNotFound), ce_src_exists = (\<lambda>_. Inr False),
     ce_dst = \<lparr>st_Fetch = (\<lambda>_ _. Inl ErrNotFound), st_Exists = (\<lambda>_ _. Inr False), st_Push = (\<lambda>s _ _. (Inl ErrUnsupported, s))\<rparr>,
     ce_mounter = Some (\<lambda>s d r. MountContent (\<lambda>c s. case c of Inl e \<Rightarrow> (Inl e, s) | Inr _ \<Rightarrow> (Inr (), s))),
     ce_opts = DefaultCopyGraphOptions\<lparr>MountFrom := Some (\<lambda>_. Inr [''library'']), PreCopy := Some (\<lambda>c d s. (Some SkipNode, s))\<rparr>\<rparr>"

lemma mount_SkipNode_fails_witness: "mountOrCopyNode demo_skip mem_New demo_layer () = (Inl SkipNode, ())"
  by (rule conjunct1 [OF mount_SkipNode_fails [of demo_skip "\<lambda>_. Inr [''library'']" demo_layer
        "\<lambda>s d r. MountContent (\<lambda>c s. case c of Inl e \<Rightarrow> (Inl e, s) | Inr _ \<Rightarrow> (Inr (), s))" "''library''" "()"
        "\<lambda>c s. case c of Inl e \<Rightarrow> (Inl e, s) | Inr _ \<Rightarrow> (Inr (), s)" "\<lambda>c d s. (Some SkipNode, s)" mem_New "()"
        "\<lambda>_. Inl ErrNotFound" "ce_dst demo_skip"]])
    (simp_all add: demo_skip_def DefaultCopyGraphOptions_def demo_layer_def IsManifest_def media_type_defs)

end
