(* ===== verification/Copy_Graph.thy ===== *)
theory Copy_Graph
  imports Copy_Node Graph_Memory
begin

text \<open>
  \<^verbatim>\<open>copy.go\<close>, the concurrent traversal of \<^verbatim>\<open>copyGraph\<close>, with \<^verbatim>\<open>syncutil.Go\<close> and
  \<^verbatim>\<open>LimitedRegion\<close> of \<^verbatim>\<open>internal/syncutil/limit.go\<close> and \<^verbatim>\<open>Tracker.TryCommit\<close> of
  \<^verbatim>\<open>internal/status/tracker.go\<close>, as a step relation. A task is a goroutine at one of the places
  where it can be preempted; a step runs one task to the next such place. The lemmas hold for
  every interleaving of the tasks.
\<close>

section \<open>Tasks and steps\<close>

text \<open>
  The places of the function \<^verbatim>\<open>fn\<close> of \<^verbatim>\<open>copyGraph\<close>: \<open>T_root\<close> waits for a permit of the limiter;
  \<open>T_start\<close> is about to commit the node, in the call of \<^verbatim>\<open>syncutil.Go\<close> of the given parent;
  \<open>T_check\<close> asks the destination; \<open>T_find\<close> finds the successors; \<open>T_spawn\<close> has left its region
  and starts a task for each of the successors in its last argument, and once there are none left
  waits for them; \<open>T_copy\<close> copies the node.
\<close>

datatype task =
    T_root descriptor
  | T_start "key option" descriptor
  | T_check descriptor
  | T_find descriptor
  | T_spawn descriptor "descriptor list" "descriptor list"
  | T_copy descriptor

record 's cg_state =
  cg_tasks :: "task list"
  cg_committed :: "key set"
  cg_done :: "key set"
  cg_cache :: cas_memory
  cg_dst :: 's
  cg_permits :: nat
  cg_err :: "error option"

fun t_holds :: "task \<Rightarrow> bool" where
  "t_holds (T_root d) = False"
| "t_holds (T_spawn d ss todo) = False"
| "t_holds _ = True"

text \<open>\<^verbatim>\<open>LimitedRegion.End\<close>, and the return of a task with and without an error.\<close>

definition cg_End :: "'s cg_state \<Rightarrow> 's cg_state" where
  "cg_End st = st\<lparr>cg_permits := cg_permits st + 1\<rparr>"

definition cg_fail :: "error \<Rightarrow> 's cg_state \<Rightarrow> 's cg_state" where
  "cg_fail e st = st\<lparr>cg_err := (case cg_err st of None \<Rightarrow> Some e | Some e' \<Rightarrow> Some e')\<rparr>"

definition cg_finish :: "descriptor \<Rightarrow> 's cg_state \<Rightarrow> 's cg_state" where
  "cg_finish d st = cg_End (st\<lparr>cg_done := insert (FromOCI d) (cg_done st)\<rparr>)"

definition t_child :: "key \<Rightarrow> task \<Rightarrow> bool" where
  "t_child k t \<longleftrightarrow> (case t of T_start p d \<Rightarrow> p = Some k | _ \<Rightarrow> False)"

text \<open>
  One step of a task: None when it has to wait, and otherwise what it becomes with the tasks it
  starts. The tasks of the state are the other ones.
\<close>

fun cg_task :: "ext \<Rightarrow> 's copy_env \<Rightarrow> 's cg_state \<Rightarrow> task \<Rightarrow> (task list \<times> 's cg_state) option" where
  "cg_task P E st (T_root d) =
     (if cg_permits st = 0 then None
      else Some ([T_start None d], st\<lparr>cg_permits := cg_permits st - 1\<rparr>))"
| "cg_task P E st (T_start p d) =
     (if FromOCI d \<in> cg_committed st then Some ([], cg_End st)
      else Some ([T_check d], st\<lparr>cg_committed := insert (FromOCI d) (cg_committed st)\<rparr>))"
| "cg_task P E st (T_check d) = (case st_Exists (ce_dst E) (cg_dst st) d of
     Inl e \<Rightarrow> Some ([], cg_End (cg_fail e st))
   | Inr True \<Rightarrow> (case run_hook (OnCopySkipped (ce_opts E)) (cg_cache st) d (cg_dst st) of
       (Some e, s) \<Rightarrow> Some ([], cg_End (cg_fail e (st\<lparr>cg_dst := s\<rparr>)))
     | (None, s) \<Rightarrow> Some ([], cg_finish d (st\<lparr>cg_dst := s\<rparr>)))
   | Inr False \<Rightarrow> Some ([T_find d], st))"
| "cg_task P E st (T_find d) = (case cg_find P E (cg_cache st) d of
     (Inl e, c) \<Rightarrow> Some ([], cg_End (cg_fail e (st\<lparr>cg_cache := c\<rparr>)))
   | (Inr successors, c) \<Rightarrow>
       let successors = removeForeignLayers successors; st = st\<lparr>cg_cache := c\<rparr>
       in if successors \<noteq> [] then Some ([T_spawn d successors successors], cg_End st)
          else Some ([T_copy d], st))"
| "cg_task P E st (T_spawn d ss (x # todo)) =
     (if cg_permits st = 0 then None
      else Some ([T_start (Some (FromOCI d)) x, T_spawn d ss todo], st\<lparr>cg_permits := cg_permits st - 1\<rparr>))"
| "cg_task P E st (T_spawn d ss []) =
     (if list_ex (t_child (FromOCI d)) (cg_tasks st) then None
      else case find (\<lambda>x. FromOCI x \<notin> cg_committed st) ss of
        Some x \<Rightarrow> Some ([], cg_fail (ErrOther ''successor not committed'')
          (st\<lparr>cg_committed := insert (FromOCI x) (cg_committed st)\<rparr>))
      | None \<Rightarrow>
          if list_all (\<lambda>x. FromOCI x \<in> cg_done st) ss \<and> cg_permits st \<noteq> 0
          then Some ([T_copy d], st\<lparr>cg_permits := cg_permits st - 1\<rparr>) else None)"
| "cg_task P E st (T_copy d) = (case cg_copy P E (cg_cache st) d (cg_dst st) of
     (Inl e, s) \<Rightarrow> Some ([], cg_End (cg_fail e (st\<lparr>cg_dst := s\<rparr>)))
   | (Inr _, s) \<Rightarrow> Some ([], cg_finish d (st\<lparr>cg_dst := s\<rparr>)))"

text \<open>
  Once a task has failed, the context of the others is cancelled, and each of them may end
  wherever it waits or calls.
\<close>

inductive cg_step :: "ext \<Rightarrow> 's copy_env \<Rightarrow> 's cg_state \<Rightarrow> 's cg_state \<Rightarrow> bool" for P E where
  run: "\<lbrakk>cg_tasks st = xs @ t # ys; cg_task P E (st\<lparr>cg_tasks := xs @ ys\<rparr>) t = Some (ts, st')\<rbrakk> \<Longrightarrow>
     cg_step P E st (st'\<lparr>cg_tasks := xs @ ts @ ys\<rparr>)"
| cancel: "\<lbrakk>cg_tasks st = xs @ t # ys; cg_err st \<noteq> None; st' = st\<lparr>cg_tasks := xs @ ys\<rparr>\<rbrakk> \<Longrightarrow>
     cg_step P E st (if t_holds t then cg_End st' else st')"

definition cg_init :: "'s copy_env \<Rightarrow> descriptor list \<Rightarrow> cas_memory \<Rightarrow> 's \<Rightarrow> 's cg_state" where
  "cg_init E roots cache s = \<lparr>cg_tasks = map T_root roots, cg_committed = {}, cg_done = {}, cg_cache = cache,
     cg_dst = s, cg_permits = ce_concurrency E, cg_err = None\<rparr>"

text \<open>A schedule that always runs the first task that can run.\<close>

fun cg_first :: "ext \<Rightarrow> 's copy_env \<Rightarrow> 's cg_state \<Rightarrow> task list \<Rightarrow> task list \<Rightarrow> 's cg_state option" where
  "cg_first P E st xs [] = None"
| "cg_first P E st xs (t # ys) = (case cg_task P E (st\<lparr>cg_tasks := xs @ ys\<rparr>) t of
     Some (ts, st') \<Rightarrow> Some (st'\<lparr>cg_tasks := xs @ ts @ ys\<rparr>)
   | None \<Rightarrow> cg_first P E st (xs @ [t]) ys)"

primrec cg_run :: "nat \<Rightarrow> ext \<Rightarrow> 's copy_env \<Rightarrow> 's cg_state \<Rightarrow> 's cg_state" where
  "cg_run 0 P E st = st"
| "cg_run (Suc n) P E st = (case cg_first P E st [] (cg_tasks st) of
     None \<Rightarrow> st
   | Some st' \<Rightarrow> cg_run n P E st')"

lemma cg_first_step:
  "\<lbrakk>cg_first P E st xs ys = Some st'; cg_tasks st = xs @ ys\<rbrakk> \<Longrightarrow> cg_step P E st st'"
proof (induction ys arbitrary: xs)
  case (Cons t ys)
  then show ?case
    by (auto split: option.splits intro: cg_step.run)
qed simp

lemma cg_run_steps: "(cg_step P E)\<^sup>*\<^sup>* st (cg_run n P E st)"
  by (induction n arbitrary: st)
    (auto split: option.splits intro: converse_rtranclp_into_rtranclp cg_first_step)

lemma cg_sel [simp]:
  "cg_tasks (cg_End st) = cg_tasks st" "cg_committed (cg_End st) = cg_committed st"
  "cg_done (cg_End st) = cg_done st" "cg_cache (cg_End st) = cg_cache st" "cg_dst (cg_End st) = cg_dst st"
  "cg_err (cg_End st) = cg_err st" "cg_permits (cg_End st) = Suc (cg_permits st)"
  "cg_tasks (cg_fail e st) = cg_tasks st" "cg_committed (cg_fail e st) = cg_committed st"
  "cg_done (cg_fail e st) = cg_done st" "cg_cache (cg_fail e st) = cg_cache st" "cg_dst (cg_fail e st) = cg_dst st"
  "cg_permits (cg_fail e st) = cg_permits st" "cg_err (cg_fail e st) \<noteq> None"
  "cg_tasks (cg_finish d st) = cg_tasks st" "cg_committed (cg_finish d st) = cg_committed st"
  "cg_done (cg_finish d st) = insert (FromOCI d) (cg_done st)" "cg_cache (cg_finish d st) = cg_cache st"
  "cg_dst (cg_finish d st) = cg_dst st" "cg_err (cg_finish d st) = cg_err st"
  "cg_permits (cg_finish d st) = Suc (cg_permits st)"
  by (simp_all add: cg_End_def cg_fail_def cg_finish_def split: option.splits)

text \<open>Only two kinds of steps work on the destination.\<close>

lemma cg_task_dst:
  assumes "cg_task P E st t = Some (ts, st')"
  obtains (none) "cg_dst st' = cg_dst st" "cg_done st' = cg_done st"
    | (skipped) d e where "t = T_check d"
        "run_hook (OnCopySkipped (ce_opts E)) (cg_cache st) d (cg_dst st) = (e, cg_dst st')"
        "cg_done st' = (if e = None then insert (FromOCI d) (cg_done st) else cg_done st)"
    | (copied) d y where "t = T_copy d" "cg_copy P E (cg_cache st) d (cg_dst st) = (y, cg_dst st')"
        "cg_done st' = (if y = Inr () then insert (FromOCI d) (cg_done st) else cg_done st)"
proof (cases t)
  case (T_check d)
  obtain e s where h: "run_hook (OnCopySkipped (ce_opts E)) (cg_cache st) d (cg_dst st) = (e, s)"
    by (cases "run_hook (OnCopySkipped (ce_opts E)) (cg_cache st) d (cg_dst st)")
  show ?thesis
  proof (cases "st_Exists (ce_dst E) (cg_dst st) d = Inr True")
    case True
    then have "cg_dst st' = s" "cg_done st' = (if e = None then insert (FromOCI d) (cg_done st) else cg_done st)"
      using assms T_check h by (cases e; auto)+
    with T_check h skipped show ?thesis by blast
  next
    case False
    then have "cg_dst st' = cg_dst st" "cg_done st' = cg_done st"
      using assms T_check by (auto split: sum.splits bool.splits)
    with none show ?thesis by blast
  qed
next
  case (T_copy d)
  obtain y s where "cg_copy P E (cg_cache st) d (cg_dst st) = (y, s)"
    by (cases "cg_copy P E (cg_cache st) d (cg_dst st)")
  with assms T_copy copied [of d y] show ?thesis by (cases y) auto
next
  case (T_find d)
  with assms none show ?thesis by (auto simp: Let_def split: sum.splits prod.splits if_splits)
next
  case (T_spawn d ss todo)
  with assms none show ?thesis by (cases todo) (auto split: if_splits option.splits)
qed (use assms none in \<open>auto split: if_splits\<close>)

section \<open>The graph that is copied\<close>

text \<open>
  The successors of a node are the ones in any content with the digest of the node; there is at
  most one such content.
\<close>

definition cg_succs :: "ext \<Rightarrow> descriptor \<Rightarrow> descriptor list \<Rightarrow> bool" where
  "cg_succs P d ss \<longleftrightarrow>
     (if IsManifest d then \<exists>b. dg_verify P (Digest d) b \<and> decode_successors P d b = Inr ss else ss = [])"

text \<open>The nodes that are copied below a node: foreign layers are left out.\<close>

definition cg_edge :: "ext \<Rightarrow> descriptor \<Rightarrow> descriptor \<Rightarrow> bool" where
  "cg_edge P d x \<longleftrightarrow> (\<exists>ss. cg_succs P d ss \<and> x \<in> set ss \<and> \<not> IsForeignLayer x)"

definition typed :: "(string \<Rightarrow> key) \<Rightarrow> descriptor \<Rightarrow> bool" where
  "typed ty d \<longleftrightarrow> FromOCI d = ty (Digest d)"

lemma typed_eq: "\<lbrakk>typed ty d; typed ty x; Digest x = Digest d\<rbrakk> \<Longrightarrow> FromOCI x = FromOCI d"
  by (simp add: typed_def)

lemma typed_cong: "\<lbrakk>FromOCI d = FromOCI d'; typed ty d'\<rbrakk> \<Longrightarrow> typed ty d"
  by (simp add: typed_def FromOCI_def)

lemma cg_succs_unique:
  assumes "collision_free P" "cg_succs P d ss" "cg_succs P d ss'"
  shows "ss = ss'"
proof (cases "IsManifest d")
  case True
  with assms(2,3) obtain b b' where "dg_verify P (Digest d) b" "decode_successors P d b = Inr ss"
    "dg_verify P (Digest d) b'" "decode_successors P d b' = Inr ss'" by (auto simp: cg_succs_def)
  with assms(1) show ?thesis unfolding collision_free_def by (metis sum.inject(2))
qed (use assms in \<open>simp add: cg_succs_def\<close>)

lemma cg_succs_typed: "\<lbrakk>consistent P ty; cg_succs P d ss; x \<in> set ss\<rbrakk> \<Longrightarrow> typed ty x"
  unfolding cg_succs_def consistent_def typed_def by (cases "IsManifest d") auto

lemma cg_edge_typed: "\<lbrakk>consistent P ty; cg_edge P d x\<rbrakk> \<Longrightarrow> typed ty x"
  unfolding cg_edge_def using cg_succs_typed by blast

lemma cg_edge_iff:
  "\<lbrakk>collision_free P; cg_succs P d ss\<rbrakk> \<Longrightarrow> cg_edge P d x \<longleftrightarrow> x \<in> set (removeForeignLayers ss)"
  unfolding cg_edge_def removeForeignLayers_filter using cg_succs_unique by auto

lemma cg_edge_cong: "FromOCI d = FromOCI d' \<Longrightarrow> cg_edge P d = cg_edge P d'"
  using decode_successors_cong [of d d' P]
  by (intro ext) (simp add: cg_edge_def cg_succs_def FromOCI_def IsManifest_def)

text \<open>With a node, the content has everything below it.\<close>

definition copy_closed :: "ext \<Rightarrow> (string \<Rightarrow> key) \<Rightarrow> (descriptor \<Rightarrow> bytes option) \<Rightarrow> bool" where
  "copy_closed P ty C \<longleftrightarrow> (\<forall>d x. typed ty d \<and> C d \<noteq> None \<and> cg_edge P d x \<longrightarrow> C x \<noteq> None)"

lemma copy_closedD: "\<lbrakk>copy_closed P ty C; typed ty d; C d \<noteq> None; cg_edge P d x\<rbrakk> \<Longrightarrow> C x \<noteq> None"
  unfolding copy_closed_def by blast

lemma copy_closed_adds:
  assumes "copy_closed P ty (content s)" "adds content d s s'" "typed ty d"
    and "\<And>x. cg_edge P d x \<Longrightarrow> content s x \<noteq> None"
  shows "copy_closed P ty (content s')"
  unfolding copy_closed_def
proof (intro allI impI, elim conjE)
  fix d' x assume a: "typed ty d'" "content s' d' \<noteq> None" "cg_edge P d' x"
  have "content s x \<noteq> None"
  proof (cases "content s d' = None")
    case True
    with a(2) assms(2) have "Digest d' = Digest d" unfolding adds_def by blast
    then have "FromOCI d' = FromOCI d" using typed_eq assms(3) a(1) by blast
    then show ?thesis using assms(4) a(3) cg_edge_cong by metis
  next
    case False
    then show ?thesis using copy_closedD [OF assms(1) a(1) _ a(3)] by blast
  qed
  then show "content s' x \<noteq> None" using adds_mono [OF assms(2)] by blast
qed

section \<open>What holds in every interleaving\<close>

fun t_safe :: "ext \<Rightarrow> (string \<Rightarrow> key) \<Rightarrow> (descriptor \<Rightarrow> bytes option) \<Rightarrow> task \<Rightarrow> bool" where
  "t_safe P ty C (T_root d) = typed ty d"
| "t_safe P ty C (T_start p d) = typed ty d"
| "t_safe P ty C (T_check d) = typed ty d"
| "t_safe P ty C (T_find d) = typed ty d"
| "t_safe P ty C (T_spawn d ss todo) =
     (typed ty d \<and> (\<forall>x\<in>set ss. typed ty x \<and> cg_edge P d x) \<and> (\<forall>x. cg_edge P d x \<longrightarrow> x \<in> set ss) \<and> set todo \<subseteq> set ss)"
| "t_safe P ty C (T_copy d) = (typed ty d \<and> (\<forall>x. cg_edge P d x \<longrightarrow> C x \<noteq> None))"

definition cg_safe :: "ext \<Rightarrow> (string \<Rightarrow> key) \<Rightarrow> ('s \<Rightarrow> bool) \<Rightarrow> ('s \<Rightarrow> descriptor \<Rightarrow> bytes option) \<Rightarrow> 's \<Rightarrow>
    's cg_state \<Rightarrow> bool" where
  "cg_safe P ty iv content s0 st \<longleftrightarrow> iv (cg_dst st) \<and> mem_inv P (cg_cache st)
     \<and> copy_closed P ty (content (cg_dst st))
     \<and> (\<forall>t\<in>set (cg_tasks st). t_safe P ty (content (cg_dst st)) t)
     \<and> (\<forall>x. FromOCI x \<in> cg_done st \<longrightarrow> content (cg_dst st) x \<noteq> None)
     \<and> (\<forall>x b. content s0 x = Some b \<longrightarrow> content (cg_dst st) x = Some b)"

lemma t_safe_mono: "\<lbrakk>t_safe P ty (content s) t; adds content d s s'\<rbrakk> \<Longrightarrow> t_safe P ty (content s') t"
  using adds_mono [of content d s s'] by (cases t) auto

lemma cg_safeD:
  assumes "cg_safe P ty iv content s0 st"
  shows "iv (cg_dst st)" "mem_inv P (cg_cache st)" "copy_closed P ty (content (cg_dst st))"
    "t \<in> set (cg_tasks st) \<Longrightarrow> t_safe P ty (content (cg_dst st)) t"
    "FromOCI x \<in> cg_done st \<Longrightarrow> content (cg_dst st) x \<noteq> None"
    "content s0 x = Some b \<Longrightarrow> content (cg_dst st) x = Some b"
  using assms unfolding cg_safe_def by blast+

text \<open>A step of a task that changes neither the destination nor the cache.\<close>

lemma cg_safe_same:
  assumes "cg_safe P ty iv content s0 st" "cg_dst st' = cg_dst st" "mem_inv P (cg_cache st')" "cg_done st' = cg_done st"
    and "\<And>t. t \<in> set (cg_tasks st') \<Longrightarrow> t \<in> set (cg_tasks st) \<or> t_safe P ty (content (cg_dst st)) t"
  shows "cg_safe P ty iv content s0 st'"
  using assms unfolding cg_safe_def by auto

text \<open>A step that works on the node \<open>d\<close> in the destination, and ends the task.\<close>

lemma cg_safe_dst:
  assumes "cg_safe P ty iv content s0 st" "iv s'" "adds content d (cg_dst st) s'" "typed ty d"
    and "\<And>x. cg_edge P d x \<Longrightarrow> content (cg_dst st) x \<noteq> None"
    and st': "cg_dst st' = s'" "cg_cache st' = cg_cache st" "set (cg_tasks st') \<subseteq> set (cg_tasks st)"
    and done': "cg_done st' = cg_done st \<or>
       cg_done st' = insert (FromOCI d) (cg_done st) \<and> (\<forall>x. FromOCI x = FromOCI d \<longrightarrow> content s' x \<noteq> None)"
  shows "cg_safe P ty iv content s0 st'"
  unfolding cg_safe_def st'(1)
proof (intro conjI ballI allI impI)
  note D = cg_safeD [OF assms(1)]
  show "iv s'" "mem_inv P (cg_cache st')" using assms(2) D(2) st'(2) by simp_all
  show "copy_closed P ty (content s')" by (rule copy_closed_adds [OF D(3) assms(3-5)])
  show "t_safe P ty (content s') t" if "t \<in> set (cg_tasks st')" for t
    using t_safe_mono [OF D(4) assms(3)] that st'(3) by blast
  show "content s' x = Some b" if "content s0 x = Some b" for x b
    using D(6) [OF that] assms(3) unfolding adds_def by blast
  show "content s' x \<noteq> None" if "FromOCI x \<in> cg_done st'" for x
  proof (cases "FromOCI x \<in> cg_done st")
    case True
    then show ?thesis using adds_mono [OF assms(3) D(5)] by blast
  next
    case False
    then show ?thesis using that done' by auto
  qed
qed

lemma cg_find_ok:
  assumes "FindSuccessors (ce_opts E) = None" "mem_inv P c" "cg_find P E c d = (x, c')"
  shows "mem_inv P c'" "x = Inr ss \<Longrightarrow> cg_succs P d ss"
proof -
  have "mem_inv P c' \<and> (x = Inr ss \<longrightarrow> cg_succs P d ss)"
  proof (cases "IsManifest d")
    case True
    obtain y c1 where f: "proxy_FetchAll P (ce_proxy P E) c d = (y, c1)"
      by (cases "proxy_FetchAll P (ce_proxy P E) c d")
    from proxy_FetchAll_sound [OF assms(2) f [unfolded ce_proxy_def Let_def]]
    have "mem_inv P c1 \<and> (\<forall>b. y = Inr b \<longrightarrow> dg_verify P (Digest d) b)" by blast
    with assms(1,3) f True show ?thesis
      by (cases y) (auto simp: cg_find_def cg_succs_def)
  next
    case False
    with assms show ?thesis by (auto simp: cg_find_def cg_succs_def)
  qed
  then show "mem_inv P c'" "x = Inr ss \<Longrightarrow> cg_succs P d ss" by blast+
qed

definition copy_env_ok :: "ext \<Rightarrow> (string \<Rightarrow> key) \<Rightarrow> ('s \<Rightarrow> bool) \<Rightarrow> ('s \<Rightarrow> descriptor \<Rightarrow> bytes option) \<Rightarrow>
    's copy_env \<Rightarrow> bool" where
  "copy_env_ok P ty iv content E \<longleftrightarrow>
     consistent P ty \<and> env_ok iv content E \<and> FindSuccessors (ce_opts E) = None"

lemma copy_env_okD:
  assumes "copy_env_ok P ty iv content E"
  shows "consistent P ty" "collision_free P" "env_ok iv content E" "FindSuccessors (ce_opts E) = None"
  using assms unfolding copy_env_ok_def consistent_def by blast+

context push_store
begin

lemma check_safe:
  assumes E: "copy_env_ok P ty inv content E" "ce_dst E = st"
    and "cg_safe P ty inv content s0 \<sigma>" "cg_tasks \<sigma> = xs @ T_check d # ys"
    and "cg_task P E (\<sigma>\<lparr>cg_tasks := xs @ ys\<rparr>) (T_check d) = Some (ts, \<sigma>')"
  shows "cg_safe P ty inv content s0 (\<sigma>'\<lparr>cg_tasks := xs @ ts @ ys\<rparr>)"
proof -
  note D = cg_safeD [OF assms(3)]
  have d: "typed ty d" using D(4) [of "T_check d"] assms(4) by simp
  show ?thesis
  proof (cases "st_Exists st (cg_dst \<sigma>) d")
    case (Inl e)
    with assms(5) E(2) have "ts = [] \<and> \<sigma>' = cg_End (cg_fail e (\<sigma>\<lparr>cg_tasks := xs @ ys\<rparr>))" by simp
    with D(2) assms(4) show ?thesis by (intro cg_safe_same [OF assms(3)]) auto
  next
    case (Inr b)
    show ?thesis
    proof (cases b)
      case False
      with assms(5) E(2) Inr have "ts = [T_find d] \<and> \<sigma>' = \<sigma>\<lparr>cg_tasks := xs @ ys\<rparr>" by simp
      with D(2) d assms(4) show ?thesis by (intro cg_safe_same [OF assms(3)]) auto
    next
      case True
      with store_exists [OF D(1)] Inr have c: "content (cg_dst \<sigma>) d \<noteq> None" by blast
      obtain e s1 where h: "run_hook (OnCopySkipped (ce_opts E)) (cg_cache \<sigma>) d (cg_dst \<sigma>) = (e, s1)"
        by (cases "run_hook (OnCopySkipped (ce_opts E)) (cg_cache \<sigma>) d (cg_dst \<sigma>)")
      note H = run_hook_ok [OF env_okD(4) [OF copy_env_okD(3) [OF E(1)]] D(1) h]
      have "ts = []" "cg_dst \<sigma>' = s1" "cg_cache \<sigma>' = cg_cache \<sigma>"
        "cg_done \<sigma>' = cg_done \<sigma> \<or> cg_done \<sigma>' = insert (FromOCI d) (cg_done \<sigma>)"
        using assms(5) E(2) Inr True h by (auto split: option.splits)
      moreover have "content s1 x \<noteq> None" if "FromOCI x = FromOCI d" for x
        using adds_mono [OF H(2) c] store_key [OF that] by simp
      ultimately show ?thesis using assms(4)
        by (intro cg_safe_dst [OF assms(3) H(1,2) d copy_closedD [OF D(3) d c]]) auto
    qed
  qed
qed

lemma find_safe:
  assumes E: "copy_env_ok P ty inv content E"
    and "cg_safe P ty inv content s0 \<sigma>" "cg_tasks \<sigma> = xs @ T_find d # ys"
    and "cg_task P E (\<sigma>\<lparr>cg_tasks := xs @ ys\<rparr>) (T_find d) = Some (ts, \<sigma>')"
  shows "cg_safe P ty inv content s0 (\<sigma>'\<lparr>cg_tasks := xs @ ts @ ys\<rparr>)"
proof -
  note D = cg_safeD [OF assms(2)]
  have d: "typed ty d" using D(4) [of "T_find d"] assms(3) by simp
  obtain y c where f: "cg_find P E (cg_cache \<sigma>) d = (y, c)" by (cases "cg_find P E (cg_cache \<sigma>) d")
  note F = cg_find_ok [OF copy_env_okD(4) [OF E] D(2) f]
  have keep: "cg_dst \<sigma>' = cg_dst \<sigma>" "cg_cache \<sigma>' = c" "cg_done \<sigma>' = cg_done \<sigma>"
    using assms(4) f by (auto simp: Let_def split: sum.splits if_splits)
  have "t_safe P ty (content (cg_dst \<sigma>)) t" if t: "t \<in> set ts" for t
  proof (cases y)
    case (Inl e)
    with assms(4) f t show ?thesis by simp
  next
    case (Inr ss)
    note edge = cg_edge_iff [OF copy_env_okD(2) [OF E] F(2) [OF Inr]]
    have "typed ty x" if "x \<in> set (removeForeignLayers ss)" for x
      using cg_succs_typed [OF copy_env_okD(1) [OF E] F(2) [OF Inr]] that by (simp add: removeForeignLayers_filter)
    with assms(4) f t Inr d edge show ?thesis by (auto simp: Let_def split: if_splits)
  qed
  with keep F(1) assms(3) show ?thesis by (intro cg_safe_same [OF assms(2)]) auto
qed

lemma copy_safe:
  assumes E: "copy_env_ok P ty inv content E" "ce_dst E = st"
    and "cg_safe P ty inv content s0 \<sigma>" "cg_tasks \<sigma> = xs @ T_copy d # ys"
    and "cg_task P E (\<sigma>\<lparr>cg_tasks := xs @ ys\<rparr>) (T_copy d) = Some (ts, \<sigma>')"
  shows "cg_safe P ty inv content s0 (\<sigma>'\<lparr>cg_tasks := xs @ ts @ ys\<rparr>)"
proof -
  note D = cg_safeD [OF assms(3)]
  have d: "typed ty d" "\<And>x. cg_edge P d x \<Longrightarrow> content (cg_dst \<sigma>) x \<noteq> None"
    using D(4) [of "T_copy d"] assms(4) by simp_all
  obtain y s1 where c: "cg_copy P E (cg_cache \<sigma>) d (cg_dst \<sigma>) = (y, s1)"
    by (cases "cg_copy P E (cg_cache \<sigma>) d (cg_dst \<sigma>)")
  note C = cg_copy_ok [OF copy_env_okD(3) [OF E(1)] E(2) D(1) c]
  have "ts = []" "cg_dst \<sigma>' = s1" "cg_cache \<sigma>' = cg_cache \<sigma>"
    "cg_done \<sigma>' = cg_done \<sigma> \<or> y = Inr () \<and> cg_done \<sigma>' = insert (FromOCI d) (cg_done \<sigma>)"
    using assms(5) c by (auto split: sum.splits)
  moreover have "content s1 x \<noteq> None" if "FromOCI x = FromOCI d" "y = Inr ()" for x
    using C store_key [OF that(1)] that(2) by simp
  ultimately show ?thesis using assms(4) C
    by (intro cg_safe_dst [OF assms(3) _ _ d]) auto
qed

lemma spawn_safe:
  assumes "cg_safe P ty inv content s0 \<sigma>" "cg_tasks \<sigma> = xs @ T_spawn d ss todo # ys"
    and "cg_task P E (\<sigma>\<lparr>cg_tasks := xs @ ys\<rparr>) (T_spawn d ss todo) = Some (ts, \<sigma>')"
  shows "cg_safe P ty inv content s0 (\<sigma>'\<lparr>cg_tasks := xs @ ts @ ys\<rparr>)"
proof -
  note D = cg_safeD [OF assms(1)]
  have d: "t_safe P ty (content (cg_dst \<sigma>)) (T_spawn d ss todo)"
    using D(4) [of "T_spawn d ss todo"] assms(2) by simp
  have keep: "cg_dst \<sigma>' = cg_dst \<sigma>" "cg_cache \<sigma>' = cg_cache \<sigma>" "cg_done \<sigma>' = cg_done \<sigma>"
    using assms(3) by (cases todo; auto split: if_splits option.splits)+
  have "t_safe P ty (content (cg_dst \<sigma>)) t" if t: "t \<in> set ts" for t
  proof (cases todo)
    case Nil
    with assms(3) t have "t = T_copy d" "\<forall>x\<in>set ss. FromOCI x \<in> cg_done \<sigma>"
      by (auto split: if_splits option.splits simp: list_all_iff)
    with d D(5) show ?thesis by auto
  next
    case (Cons x todo')
    with assms(3) t d show ?thesis by (auto split: if_splits)
  qed
  with keep D(2) assms(2) show ?thesis by (intro cg_safe_same [OF assms(1)]) auto
qed

lemma step_safe:
  assumes E: "copy_env_ok P ty inv content E" "ce_dst E = st"
    and "cg_step P E \<sigma> \<sigma>'" "cg_safe P ty inv content s0 \<sigma>"
  shows "cg_safe P ty inv content s0 \<sigma>'"
  using assms(3)
proof cases
  case (run xs t ys ts \<sigma>1)
  note D = cg_safeD [OF assms(4)]
  show ?thesis
  proof (cases t)
    case (T_root d)
    with run D(2) D(4) [of t] show ?thesis unfolding run(1)
      by (intro cg_safe_same [OF assms(4)]) (auto split: if_splits)
  next
    case (T_start p d)
    with run D(2) D(4) [of t] show ?thesis unfolding run(1)
      by (intro cg_safe_same [OF assms(4)]) (auto split: if_splits)
  next
    case (T_check d)
    with check_safe [OF E assms(4)] run show ?thesis by blast
  next
    case (T_find d)
    with find_safe [OF E(1) assms(4)] run show ?thesis by blast
  next
    case (T_spawn d ss todo)
    with spawn_safe [OF assms(4)] run show ?thesis by blast
  next
    case (T_copy d)
    with copy_safe [OF E assms(4)] run show ?thesis by blast
  qed
next
  case (cancel xs t ys \<sigma>1)
  with cg_safeD(2) [OF assms(4)] show ?thesis
    by (intro cg_safe_same [OF assms(4)]) (auto split: if_splits)
qed

lemma steps_safe:
  assumes E: "copy_env_ok P ty inv content E" "ce_dst E = st"
    and "(cg_step P E)\<^sup>*\<^sup>* \<sigma> \<sigma>'" "cg_safe P ty inv content s0 \<sigma>"
  shows "cg_safe P ty inv content s0 \<sigma>'"
  using assms(3,4) by (induction rule: rtranclp_induct) (auto intro: step_safe [OF E])

end

lemma cg_init_safe:
  assumes "iv s" "mem_inv P cache" "copy_closed P ty (content s)" "\<forall>r\<in>set roots. typed ty r"
  shows "cg_safe P ty iv content s (cg_init E roots cache s)"
  using assms by (auto simp: cg_safe_def cg_init_def)

section \<open>Every run ends\<close>

text \<open>
  Runs are finite when the nodes below the roots are. A task commits at most one node of the
  universe, finds the successors of a node it committed at most once, and starts one task for
  each of them.
\<close>

definition cg_universe :: "ext \<Rightarrow> key set \<Rightarrow> descriptor list \<Rightarrow> bool" where
  "cg_universe P U roots \<longleftrightarrow> finite U \<and> FromOCI ` set roots \<subseteq> U \<and>
     (\<forall>d x. FromOCI d \<in> U \<and> cg_edge P d x \<longrightarrow> FromOCI x \<in> U)"

fun t_within :: "ext \<Rightarrow> key set \<Rightarrow> task \<Rightarrow> bool" where
  "t_within P U (T_root d) = (FromOCI d \<in> U)"
| "t_within P U (T_start p d) = (FromOCI d \<in> U)"
| "t_within P U (T_check d) = (FromOCI d \<in> U)"
| "t_within P U (T_find d) = (FromOCI d \<in> U)"
| "t_within P U (T_spawn d ss todo) =
     (FromOCI d \<in> U \<and> (\<forall>x\<in>set ss. cg_edge P d x) \<and> set todo \<subseteq> set ss)"
| "t_within P U (T_copy d) = (FromOCI d \<in> U)"

definition cg_within :: "ext \<Rightarrow> key set \<Rightarrow> 's cg_state \<Rightarrow> bool" where
  "cg_within P U st \<longleftrightarrow> mem_inv P (cg_cache st) \<and> list_all (t_within P U) (cg_tasks st)"

fun t_unfound :: "task \<Rightarrow> nat" where
  "t_unfound (T_check d) = 1"
| "t_unfound (T_find d) = 1"
| "t_unfound _ = 0"

fun t_weight :: "task \<Rightarrow> nat" where
  "t_weight (T_root d) = 5"
| "t_weight (T_start p d) = 4"
| "t_weight (T_check d) = 3"
| "t_weight (T_find d) = 2"
| "t_weight (T_spawn d ss todo) = 5 * length todo + 2"
| "t_weight (T_copy d) = 1"

definition cg_measure :: "key set \<Rightarrow> ('s cg_state \<times> 's cg_state) set" where
  "cg_measure U = inv_image (less_than <*lex*> less_than)
     (\<lambda>st. (2 * card (U - cg_committed st) + (\<Sum>t\<leftarrow>cg_tasks st. t_unfound t), \<Sum>t\<leftarrow>cg_tasks st. t_weight t))"

lemma t_weight_pos: "0 < t_weight t"
  by (cases t) simp_all

lemma cg_task_within:
  assumes "FindSuccessors (ce_opts E) = None" "cg_universe P U roots" "mem_inv P (cg_cache st)" "t_within P U t"
    and "cg_task P E st t = Some (ts, st')"
  shows "mem_inv P (cg_cache st') \<and> list_all (t_within P U) ts"
proof (cases t)
  case (T_find d)
  obtain y c where f: "cg_find P E (cg_cache st) d = (y, c)" by (cases "cg_find P E (cg_cache st) d")
  note F = cg_find_ok [OF assms(1,3) f]
  have "x \<in> set (removeForeignLayers ss) \<Longrightarrow> cg_edge P d x" if "y = Inr ss" for ss x
    using F(2) [OF that] by (auto simp: removeForeignLayers_filter cg_edge_def)
  with assms(4,5) T_find f F(1) show ?thesis by (auto simp: Let_def split: sum.splits if_splits)
next
  case (T_spawn d ss todo)
  have "FromOCI x \<in> U" if "x \<in> set todo" for x
  proof -
    have "cg_edge P d x" "FromOCI d \<in> U" using that T_spawn assms(4) by auto
    then show ?thesis using assms(2) unfolding cg_universe_def by blast
  qed
  with T_spawn assms(3-5) show ?thesis by (cases todo) (auto split: if_splits option.splits)
qed (use assms(3-5) in \<open>auto split: if_splits sum.splits bool.splits option.splits prod.splits\<close>)

lemma cg_step_within:
  assumes "FindSuccessors (ce_opts E) = None" "cg_universe P U roots" "cg_within P U st" "cg_step P E st st'"
  shows "cg_within P U st'"
  using assms(4)
proof cases
  case (run xs t ys ts st1)
  with assms(3) have "mem_inv P (cg_cache (st\<lparr>cg_tasks := xs @ ys\<rparr>))" "t_within P U t"
    by (simp_all add: cg_within_def)
  from cg_task_within [OF assms(1,2) this run(3)] show ?thesis
    using assms(3) run by (simp add: cg_within_def)
next
  case cancel
  with assms(3) show ?thesis by (auto simp: cg_within_def)
qed

text \<open>How the two parts of the measure change in a step of a task.\<close>

lemma cg_task_plain:
  assumes "cg_task P E st t = Some (ts, st')" "\<nexists>p d. t = T_start p d" "\<nexists>d ss todo. t = T_spawn d ss todo"
  shows "cg_committed st' = cg_committed st"
    "(\<Sum>t\<leftarrow>ts. t_unfound t) < t_unfound t
     \<or> (\<Sum>t\<leftarrow>ts. t_unfound t) = t_unfound t \<and> (\<Sum>t\<leftarrow>ts. t_weight t) < t_weight t"
proof -
  have "cg_committed st' = cg_committed st \<and> ((\<Sum>t\<leftarrow>ts. t_unfound t) < t_unfound t
     \<or> (\<Sum>t\<leftarrow>ts. t_unfound t) = t_unfound t \<and> (\<Sum>t\<leftarrow>ts. t_weight t) < t_weight t)"
  proof (cases t)
    case (T_root d)
    with assms(1) show ?thesis by (auto split: if_splits)
  next
    case (T_check d)
    show ?thesis
    proof (cases "st_Exists (ce_dst E) (cg_dst st) d")
      case (Inr b)
      with T_check assms(1) show ?thesis
        by (cases b; cases "run_hook (OnCopySkipped (ce_opts E)) (cg_cache st) d (cg_dst st)") (auto split: option.splits)
    qed (use T_check assms(1) in auto)
  next
    case (T_find d)
    obtain y c where "cg_find P E (cg_cache st) d = (y, c)" by (cases "cg_find P E (cg_cache st) d")
    with T_find assms(1) show ?thesis by (cases y) (auto simp: Let_def split: if_splits)
  next
    case (T_copy d)
    obtain y s where "cg_copy P E (cg_cache st) d (cg_dst st) = (y, s)"
      by (cases "cg_copy P E (cg_cache st) d (cg_dst st)")
    with T_copy assms(1) show ?thesis by (cases y) auto
  qed (use assms(2,3) in auto)
  then show "cg_committed st' = cg_committed st"
    "(\<Sum>t\<leftarrow>ts. t_unfound t) < t_unfound t
     \<or> (\<Sum>t\<leftarrow>ts. t_unfound t) = t_unfound t \<and> (\<Sum>t\<leftarrow>ts. t_weight t) < t_weight t" by blast+
qed

lemma cg_task_measure:
  assumes "t_within P U t" "finite U" "cg_task P E st t = Some (ts, st')"
  defines "a \<equiv> 2 * card (U - cg_committed st)" and "a' \<equiv> 2 * card (U - cg_committed st')"
  shows "a' + (\<Sum>t\<leftarrow>ts. t_unfound t) < a + t_unfound t
     \<or> a' + (\<Sum>t\<leftarrow>ts. t_unfound t) \<le> a + t_unfound t \<and> (\<Sum>t\<leftarrow>ts. t_weight t) < t_weight t"
proof -
  have le: "card (U - insert k (cg_committed st)) \<le> card (U - cg_committed st)" for k
    using assms(2) by (intro card_mono) auto
  show ?thesis
  proof (cases t)
    case (T_start p d)
    show ?thesis
    proof (cases "FromOCI d \<in> cg_committed st")
      case True
      with T_start assms(3) have "ts = []" "a' = a" by (auto simp: a_def a'_def)
      with T_start show ?thesis by simp
    next
      case False
      then have st': "ts = [T_check d]" "cg_committed st' = insert (FromOCI d) (cg_committed st)"
        using T_start assms(3) by auto
      have "card (U - insert (FromOCI d) (cg_committed st)) < card (U - cg_committed st)"
        using False assms(1,2) T_start by (intro psubset_card_mono) auto
      then show ?thesis using st' T_start by (simp add: a_def a'_def)
    qed
  next
    case (T_spawn d ss todo)
    have "a' \<le> a \<and> (\<Sum>t\<leftarrow>ts. t_unfound t) = 0 \<and> (\<Sum>t\<leftarrow>ts. t_weight t) < t_weight t"
    proof (cases todo)
      case Nil
      then show ?thesis using T_spawn assms(3) le by (auto simp: a_def a'_def split: if_splits option.splits)
    next
      case (Cons x rest)
      then show ?thesis using T_spawn assms(3) by (auto simp: a_def a'_def split: if_splits)
    qed
    then show ?thesis by linarith
  qed (use cg_task_plain [OF assms(3)] in \<open>auto simp: a_def a'_def\<close>)
qed

lemma cg_step_measure:
  assumes "cg_step P E st st'" "cg_within P U st" "finite U"
  shows "(st', st) \<in> cg_measure U"
  using assms(1)
proof cases
  case (run xs t ys ts st1)
  have "t_within P U t" using assms(2) run(2) by (simp add: cg_within_def)
  from cg_task_measure [OF this assms(3) run(3)] show ?thesis
    unfolding run(1) by (auto simp: cg_measure_def run(2))
next
  case (cancel xs t ys st1)
  then show ?thesis using t_weight_pos [of t] by (auto simp: cg_measure_def)
qed

lemma wf_cg_measure: "wf (cg_measure U)"
  unfolding cg_measure_def by (intro wf_inv_image wf_lex_prod wf_less_than)

lemma cg_init_within:
  "\<lbrakk>mem_inv P cache; cg_universe P U roots\<rbrakk> \<Longrightarrow> cg_within P U (cg_init E roots cache s)"
  by (auto simp: cg_within_def cg_init_def cg_universe_def list_all_iff)

lemma cg_runs_finite:
  assumes "FindSuccessors (ce_opts E) = None" "cg_universe P U roots" "mem_inv P cache"
  shows "\<not> (\<exists>f. f 0 = cg_init E roots cache s \<and> (\<forall>i. cg_step P E (f i) (f (Suc i))))"
proof
  assume "\<exists>f. f 0 = cg_init E roots cache s \<and> (\<forall>i. cg_step P E (f i) (f (Suc i)))"
  then obtain f where f: "f 0 = cg_init E roots cache s" "\<And>i. cg_step P E (f i) (f (Suc i))" by blast
  have "cg_within P U (f i)" for i
  proof (induction i)
    case 0
    show ?case unfolding f(1) by (rule cg_init_within [OF assms(3,2)])
  next
    case (Suc i)
    show ?case by (rule cg_step_within [OF assms(1,2) Suc f(2)])
  qed
  moreover have "finite U" using assms(2) by (simp add: cg_universe_def)
  ultimately have "\<forall>i. (f (Suc i), f i) \<in> cg_measure U"
    by (intro allI cg_step_measure [OF f(2)])
  with wf_cg_measure [unfolded wf_iff_no_infinite_down_chain] show False by blast
qed

section \<open>No run gets stuck\<close>

fun t_owns :: "task \<Rightarrow> key option" where
  "t_owns (T_root d) = None"
| "t_owns (T_start p d) = None"
| "t_owns (T_check d) = Some (FromOCI d)"
| "t_owns (T_find d) = Some (FromOCI d)"
| "t_owns (T_spawn d ss todo) = Some (FromOCI d)"
| "t_owns (T_copy d) = Some (FromOCI d)"

text \<open>
  As long as no task has failed, each committed node is done or has its task, each root and each
  successor that a task waits for is committed or has a task that will commit it. The permits in
  use are those of the tasks in their region.
\<close>

definition cg_live :: "descriptor list \<Rightarrow> nat \<Rightarrow> 's cg_state \<Rightarrow> bool" where
  "cg_live roots n st \<longleftrightarrow> cg_permits st + length (filter t_holds (cg_tasks st)) = n \<and> (cg_err st = None \<longrightarrow>
     (\<forall>k\<in>cg_committed st. k \<in> cg_done st \<or> Some k \<in> t_owns ` set (cg_tasks st)) \<and>
     (\<forall>r\<in>set roots. FromOCI r \<in> cg_committed st \<or> T_root r \<in> set (cg_tasks st)
        \<or> T_start None r \<in> set (cg_tasks st)) \<and>
     (\<forall>d ss todo x. T_spawn d ss todo \<in> set (cg_tasks st) \<and> x \<in> set ss \<longrightarrow> FromOCI x \<in> cg_committed st
        \<or> x \<in> set todo \<or> T_start (Some (FromOCI d)) x \<in> set (cg_tasks st)))"

text \<open>What one step of a task contributes to this.\<close>

definition t_live :: "task \<Rightarrow> 's cg_state \<Rightarrow> task list \<Rightarrow> 's cg_state \<Rightarrow> bool" where
  "t_live t st ts st' \<longleftrightarrow> cg_err st = None \<and> cg_committed st \<subseteq> cg_committed st' \<and> cg_done st \<subseteq> cg_done st'
     \<and> (\<forall>k\<in>cg_committed st'. k \<in> cg_committed st \<or> Some k \<in> t_owns ` set ts)
     \<and> (\<forall>k. t_owns t = Some k \<longrightarrow> k \<in> cg_done st' \<or> Some k \<in> t_owns ` set ts)
     \<and> (\<forall>r. t = T_root r \<longrightarrow> T_start None r \<in> set ts)
     \<and> (\<forall>p d. t = T_start p d \<longrightarrow> FromOCI d \<in> cg_committed st')
     \<and> (\<forall>d ss todo x. T_spawn d ss todo \<in> set ts \<and> x \<in> set ss \<longrightarrow> x \<in> set todo \<or>
         (\<exists>todo'. t = T_spawn d ss todo' \<and> (x \<in> set todo' \<longrightarrow> T_start (Some (FromOCI d)) x \<in> set ts)))"

definition t_permits :: "task \<Rightarrow> 's cg_state \<Rightarrow> task list \<Rightarrow> 's cg_state \<Rightarrow> bool" where
  "t_permits t st ts st' \<longleftrightarrow>
     cg_permits st' + length (filter t_holds ts) = cg_permits st + length (filter t_holds [t])"

lemma cg_task_live:
  assumes "cg_task P E st t = Some (ts, st')"
  shows "t_permits t st ts st' \<and> (cg_err st' = None \<longrightarrow> t_live t st ts st')"
proof (cases t)
  case (T_root d)
  with assms show ?thesis by (auto simp: t_permits_def t_live_def split: if_splits)
next
  case (T_start p d)
  with assms show ?thesis by (auto simp: t_permits_def t_live_def split: if_splits)
next
  case (T_check d)
  show ?thesis
  proof (cases "st_Exists (ce_dst E) (cg_dst st) d")
    case (Inl e)
    with T_check assms show ?thesis by (auto simp: t_permits_def)
  next
    case (Inr b)
    obtain e s where "run_hook (OnCopySkipped (ce_opts E)) (cg_cache st) d (cg_dst st) = (e, s)"
      by (cases "run_hook (OnCopySkipped (ce_opts E)) (cg_cache st) d (cg_dst st)")
    with Inr T_check assms show ?thesis
      by (cases b; cases e) (auto simp: t_permits_def t_live_def)
  qed
next
  case (T_find d)
  obtain y c where "cg_find P E (cg_cache st) d = (y, c)" by (cases "cg_find P E (cg_cache st) d")
  with T_find assms show ?thesis
    by (cases y) (auto simp: t_permits_def t_live_def Let_def split: if_splits)
next
  case (T_spawn d ss todo)
  show ?thesis
  proof (cases todo)
    case Nil
    with T_spawn assms show ?thesis
      by (auto simp: t_permits_def t_live_def split: if_splits option.splits)
  next
    case (Cons x rest)
    with T_spawn assms show ?thesis by (auto simp: t_permits_def t_live_def split: if_splits)
  qed
next
  case (T_copy d)
  obtain y s where "cg_copy P E (cg_cache st) d (cg_dst st) = (y, s)"
    by (cases "cg_copy P E (cg_cache st) d (cg_dst st)")
  with T_copy assms show ?thesis by (cases y) (auto simp: t_permits_def t_live_def)
qed

lemma cg_liveD:
  assumes "cg_live roots n st"
  shows "cg_permits st + length (filter t_holds (cg_tasks st)) = n"
    "cg_err st = None \<Longrightarrow> \<forall>k\<in>cg_committed st. k \<in> cg_done st \<or> Some k \<in> t_owns ` set (cg_tasks st)"
    "cg_err st = None \<Longrightarrow> \<forall>r\<in>set roots. FromOCI r \<in> cg_committed st \<or> T_root r \<in> set (cg_tasks st)
        \<or> T_start None r \<in> set (cg_tasks st)"
    "cg_err st = None \<Longrightarrow> \<forall>d ss todo x. T_spawn d ss todo \<in> set (cg_tasks st) \<and> x \<in> set ss \<longrightarrow>
        FromOCI x \<in> cg_committed st \<or> x \<in> set todo \<or> T_start (Some (FromOCI d)) x \<in> set (cg_tasks st)"
  using assms by (simp_all add: cg_live_def)

lemma cg_liveI:
  assumes "cg_permits st + length (filter t_holds (cg_tasks st)) = n"
    and "\<And>k. k \<in> cg_committed st \<Longrightarrow> k \<in> cg_done st \<or> Some k \<in> t_owns ` set (cg_tasks st)"
    and "\<And>r. r \<in> set roots \<Longrightarrow> FromOCI r \<in> cg_committed st \<or> T_root r \<in> set (cg_tasks st)
        \<or> T_start None r \<in> set (cg_tasks st)"
    and "\<And>d ss todo x. \<lbrakk>T_spawn d ss todo \<in> set (cg_tasks st); x \<in> set ss\<rbrakk> \<Longrightarrow>
        FromOCI x \<in> cg_committed st \<or> x \<in> set todo \<or> T_start (Some (FromOCI d)) x \<in> set (cg_tasks st)"
  shows "cg_live roots n st"
  unfolding cg_live_def by (intro conjI impI ballI allI; (elim conjE)?; (rule assms; assumption)?)

lemma cg_run_live:
  assumes "cg_live roots n st" "cg_tasks st = xs @ t # ys"
    and "t_permits t st ts st'" "cg_err st' = None \<Longrightarrow> t_live t st ts st'"
  shows "cg_live roots n (st'\<lparr>cg_tasks := xs @ ts @ ys\<rparr>)"
proof -
  have "cg_permits st + length (filter t_holds (xs @ t # ys)) = n"
    using cg_liveD(1) [OF assms(1)] assms(2) by simp
  then have permits: "cg_permits st' + length (filter t_holds (xs @ ts @ ys)) = n"
    using assms(3) by (auto simp: t_permits_def split: if_splits)
  show ?thesis
  proof (cases "cg_err st' = None")
    case False
    with permits show ?thesis by (auto simp: cg_live_def)
  next
    case True
    note t = assms(4) [OF True, unfolded t_live_def]
    have "cg_err st = None" using t by blast
    note L = cg_liveD(2-4) [OF assms(1) this, unfolded assms(2)]
    have "k \<in> cg_done st' \<or> Some k \<in> t_owns ` set (xs @ ts @ ys)" if "k \<in> cg_committed st'" for k
    proof (cases "k \<in> cg_committed st")
      case True
      with L(1) consider "k \<in> cg_done st" | "t_owns t = Some k" | "Some k \<in> t_owns ` set (xs @ ys)" by force
      then show ?thesis using t by cases auto
    next
      case False
      with t that have "Some k \<in> t_owns ` set ts" by blast
      then show ?thesis by auto
    qed
    moreover have "FromOCI r \<in> cg_committed st' \<or> T_root r \<in> set (xs @ ts @ ys) \<or> T_start None r \<in> set (xs @ ts @ ys)"
      if "r \<in> set roots" for r
      using L(2) [rule_format, OF that] t by auto
    moreover have "FromOCI x \<in> cg_committed st' \<or> x \<in> set todo \<or> T_start (Some (FromOCI d)) x \<in> set (xs @ ts @ ys)"
      if T: "T_spawn d ss todo \<in> set (xs @ ts @ ys)" and x: "x \<in> set ss" for d ss todo x
    proof -
      have keep: "T_start (Some (FromOCI d)) x \<in> set (xs @ t # ys) \<Longrightarrow>
          FromOCI x \<in> cg_committed st' \<or> T_start (Some (FromOCI d)) x \<in> set (xs @ ts @ ys)"
        using t by auto
      consider "T_spawn d ss todo \<in> set (xs @ t # ys)" | "T_spawn d ss todo \<in> set ts" using T by auto
      then show ?thesis
      proof cases
        case 1
        with L(3) x keep t show ?thesis by blast
      next
        case 2
        with t x consider "x \<in> set todo" | todo' where "t = T_spawn d ss todo'"
          "x \<in> set todo' \<longrightarrow> T_start (Some (FromOCI d)) x \<in> set ts" by blast
        then show ?thesis
        proof cases
          case 2
          then have "T_spawn d ss todo' \<in> set (xs @ t # ys)" by simp
          with L(3) x have "FromOCI x \<in> cg_committed st \<or> x \<in> set todo' \<or> T_start (Some (FromOCI d)) x \<in> set (xs @ t # ys)"
            by blast
          with 2 keep t show ?thesis by auto
        qed simp
      qed
    qed
    ultimately show ?thesis using permits by (intro cg_liveI) simp_all
  qed
qed

lemma cg_step_live:
  assumes "cg_step P E st st'" "cg_live roots n st"
  shows "cg_live roots n st'"
  using assms(1)
proof cases
  case (run xs t ys ts st1)
  from cg_task_live [OF run(3)] have "t_permits t st ts st1" "cg_err st1 = None \<Longrightarrow> t_live t st ts st1"
    by (auto simp: t_permits_def t_live_def)
  from cg_run_live [OF assms(2) run(2) this] show ?thesis by (simp add: run(1))
next
  case (cancel xs t ys st1)
  with assms(2) show ?thesis by (auto simp: cg_live_def)
qed

lemma cg_steps_live:
  "\<lbrakk>(cg_step P E)\<^sup>*\<^sup>* st st'; cg_live roots n st\<rbrakk> \<Longrightarrow> cg_live roots n st'"
  by (induction rule: rtranclp_induct) (auto intro: cg_step_live)

lemma cg_steps_within:
  "\<lbrakk>(cg_step P E)\<^sup>*\<^sup>* st st'; FindSuccessors (ce_opts E) = None; cg_universe P U roots; cg_within P U st\<rbrakk> \<Longrightarrow>
    cg_within P U st'"
  by (induction rule: rtranclp_induct) (auto intro: cg_step_within)

lemma cg_init_live: "cg_live roots (ce_concurrency E) (cg_init E roots cache s)"
proof -
  have "filter t_holds (map T_root roots) = []" by (induction roots) auto
  then show ?thesis by (simp add: cg_live_def cg_init_def image_iff)
qed

lemma ce_concurrency_pos: "0 < ce_concurrency E"
  by (simp add: ce_concurrency_def defaultConcurrency_def)

text \<open>Which tasks wait.\<close>

lemma cg_task_waits:
  assumes "cg_task P E st t = None"
  shows "\<not> t_holds t"
    "0 < cg_permits st \<Longrightarrow> \<exists>d ss. t = T_spawn d ss [] \<and> (list_ex (t_child (FromOCI d)) (cg_tasks st)
       \<or> (\<forall>x\<in>set ss. FromOCI x \<in> cg_committed st) \<and> (\<exists>x\<in>set ss. FromOCI x \<notin> cg_done st))"
proof -
  have "\<not> t_holds t \<and> (0 < cg_permits st \<longrightarrow> (\<exists>d ss. t = T_spawn d ss [] \<and> (list_ex (t_child (FromOCI d)) (cg_tasks st)
       \<or> (\<forall>x\<in>set ss. FromOCI x \<in> cg_committed st) \<and> (\<exists>x\<in>set ss. FromOCI x \<notin> cg_done st))))"
  proof (cases t)
    case (T_find d)
    obtain y c where "cg_find P E (cg_cache st) d = (y, c)" by (cases "cg_find P E (cg_cache st) d")
    with T_find assms show ?thesis by (cases y) (auto simp: Let_def split: if_splits)
  next
    case (T_spawn d ss todo)
    with assms show ?thesis
      by (cases todo) (auto split: if_splits option.splits simp: find_None_iff list_all_iff)
  qed (use assms in \<open>auto split: if_splits sum.splits bool.splits option.splits prod.splits\<close>)
  then show "\<not> t_holds t"
    "0 < cg_permits st \<Longrightarrow> \<exists>d ss. t = T_spawn d ss [] \<and> (list_ex (t_child (FromOCI d)) (cg_tasks st)
       \<or> (\<forall>x\<in>set ss. FromOCI x \<in> cg_committed st) \<and> (\<exists>x\<in>set ss. FromOCI x \<notin> cg_done st))"
    by blast+
qed

text \<open>The edges between the keys of a universe.\<close>

definition cg_rel :: "ext \<Rightarrow> key set \<Rightarrow> (key \<times> key) set" where
  "cg_rel P U = {(FromOCI x, FromOCI d) | d x. FromOCI d \<in> U \<and> cg_edge P d x}"

lemma wf_cg_rel:
  assumes "cg_universe P U roots" "acyclic (cg_rel P U)"
  shows "wf (cg_rel P U)"
proof -
  have "cg_rel P U \<subseteq> U \<times> U" using assms(1) unfolding cg_rel_def cg_universe_def by blast
  moreover have "finite (U \<times> U)" using assms(1) by (simp add: cg_universe_def)
  ultimately show ?thesis using assms(2) finite_subset finite_acyclic_wf by blast
qed

lemma cg_stuck_False:
  assumes live: "cg_live roots n st" "cg_err st = None" "0 < n"
    and within: "cg_within P U st" "cg_universe P U roots" "acyclic (cg_rel P U)"
    and "cg_tasks st \<noteq> []"
    and stuck: "\<And>xs t ys. cg_tasks st = xs @ t # ys \<Longrightarrow> cg_task P E (st\<lparr>cg_tasks := xs @ ys\<rparr>) t = None"
  shows False
proof -
  have idle: "\<not> t_holds t" if "t \<in> set (cg_tasks st)" for t
    using that stuck cg_task_waits(1) split_list by metis
  then have "filter t_holds (cg_tasks st) = []" by (simp add: filter_empty_conv)
  then have permits: "0 < cg_permits st" using cg_liveD(1) [OF live(1)] live(3) by simp
  have spawn: "\<exists>d ss. t = T_spawn d ss [] \<and> (\<exists>x\<in>set ss. FromOCI x \<in> cg_committed st \<and> FromOCI x \<notin> cg_done st)"
    if t: "t \<in> set (cg_tasks st)" for t
  proof -
    obtain xs ys where xs: "cg_tasks st = xs @ t # ys" using split_list [OF t] by blast
    have "\<not> t_child k t'" if "t' \<in> set (cg_tasks st)" for k t'
      using idle [OF that] by (cases t') (auto simp: t_child_def)
    then have "\<not> list_ex (t_child k) (xs @ ys)" for k using xs by (auto simp: list_ex_iff)
    then show ?thesis using cg_task_waits(2) [OF stuck [OF xs]] permits by auto
  qed
  let ?Q = "(\<lambda>t. the (t_owns t)) ` set (cg_tasks st)"
  obtain k where k: "k \<in> ?Q" "\<And>y. (y, k) \<in> cg_rel P U \<Longrightarrow> y \<notin> ?Q"
    using wfE_min' [OF wf_cg_rel [OF within(2,3)], of ?Q] assms(7) by auto
  then obtain t where t: "t \<in> set (cg_tasks st)" "k = the (t_owns t)" by blast
  from spawn [OF t(1)] obtain d ss x where d: "t = T_spawn d ss []" "x \<in> set ss"
    "FromOCI x \<in> cg_committed st" "FromOCI x \<notin> cg_done st" by blast
  have "FromOCI d \<in> U" "cg_edge P d x"
    using within(1) t(1) d(1,2) by (auto simp: cg_within_def list_all_iff)
  then have "(FromOCI x, k) \<in> cg_rel P U" using t(2) d(1) by (auto simp: cg_rel_def)
  moreover have "Some (FromOCI x) \<in> t_owns ` set (cg_tasks st)"
    using cg_liveD(2) [OF live(1,2)] d(3,4) by blast
  then obtain t' where "t' \<in> set (cg_tasks st)" "t_owns t' = Some (FromOCI x)" by (metis imageE)
  then have "FromOCI x \<in> ?Q" by (metis image_eqI option.sel)
  ultimately show False using k(2) by blast
qed

lemma cg_progress:
  assumes "cg_live roots n st" "0 < n" "cg_within P U st" "cg_universe P U roots" "acyclic (cg_rel P U)"
    and "cg_tasks st \<noteq> []"
  shows "\<exists>st'. cg_step P E st st'"
proof (cases "cg_err st = None")
  case False
  obtain t ys where "cg_tasks st = [] @ t # ys" using assms(6) by (cases "cg_tasks st") auto
  from cg_step.cancel [OF this False refl] show ?thesis by blast
next
  case True
  show ?thesis
  proof (rule ccontr)
    assume no: "\<not> ?thesis"
    have "cg_task P E (st\<lparr>cg_tasks := xs @ ys\<rparr>) t = None" if xs: "cg_tasks st = xs @ t # ys" for xs t ys
    proof (cases "cg_task P E (st\<lparr>cg_tasks := xs @ ys\<rparr>) t")
      case (Some r)
      then obtain ts st' where "cg_task P E (st\<lparr>cg_tasks := xs @ ys\<rparr>) t = Some (ts, st')" by (cases r) auto
      from cg_step.run [OF xs this] no show ?thesis by blast
    qed
    from cg_stuck_False [OF assms(1) True assms(2-6) this] show False .
  qed
qed

section \<open>A concrete copy\<close>

definition demo_env :: "cas_memory copy_env" where
  "demo_env = \<lparr>ce_src = demo_fetch, ce_src_exists = (\<lambda>_. Inr True), ce_dst = mem_storage demo_graph_ext,
     ce_mounter = None, ce_opts = DefaultCopyGraphOptions\<rparr>"

definition demo_U :: "key set" where
  "demo_U = FromOCI ` {demo_config, demo_layer, demo_manifest, demo_referrer}"

lemma demo_env_ok: "copy_env_ok demo_graph_ext demo_ty (mem_inv demo_graph_ext) mem_content demo_env"
  using demo_consistent
  by (simp add: copy_env_ok_def env_ok_def demo_env_def DefaultCopyGraphOptions_def hook_ok_def skip_ok_def
      mount_ok_def demo_fetch_def)

lemma demo_edge:
  assumes "cg_edge demo_graph_ext d x"
  shows "Digest d = ''sha256:M'' \<and> x \<in> {demo_config, demo_layer} \<or>
    Digest d = ''sha256:R'' \<and> x \<in> {demo_manifest, demo_config}"
proof -
  from assms obtain ss b where "x \<in> set ss" "dg_verify demo_graph_ext (Digest d) b"
    "decode_successors demo_graph_ext d b = Inr ss"
    by (auto simp: cg_edge_def cg_succs_def split: if_splits)
  then show ?thesis
    by (auto simp: decode_successors_def demo_graph_ext_def demo_ext_def demo_decode_def opt_list_def
        split: if_splits option.splits)
qed

lemma demo_universe: "cg_universe demo_graph_ext demo_U [demo_manifest]"
  using demo_edge unfolding cg_universe_def demo_U_def by fastforce

lemma demo_acyclic: "acyclic (cg_rel demo_graph_ext demo_U)"
proof (rule acyclic_subset [OF wf_acyclic [OF wf_measure]])
  let ?r = "\<lambda>k. if key_digest k = ''sha256:M'' then 1 else if key_digest k = ''sha256:R'' then 2 else (0 :: nat)"
  show "cg_rel demo_graph_ext demo_U \<subseteq> measure ?r"
    using demo_edge by (fastforce simp: cg_rel_def FromOCI_def demo_nodes)
qed

definition demo_copy :: "nat \<Rightarrow> cas_memory cg_state" where
  "demo_copy n = cg_run n demo_graph_ext demo_env (cg_init demo_env [demo_manifest] mem_New mem_New)"

lemma demo_copy_end: "cg_tasks (demo_copy 20) = []" "cg_err (demo_copy 20) = None"
  by code_simp+

lemma demo_copy_steps:
  "(cg_step demo_graph_ext demo_env)\<^sup>*\<^sup>* (cg_init demo_env [demo_manifest] mem_New mem_New) (demo_copy n)"
  unfolding demo_copy_def by (rule cg_run_steps)

lemma demo_start:
  "push_store demo_graph_ext (ce_dst demo_env) (mem_inv demo_graph_ext) mem_content"
  "copy_closed demo_graph_ext demo_ty (mem_content mem_New)" "\<forall>r\<in>set [demo_manifest]. typed demo_ty r"
  using mem.ps.push_store_axioms by (simp_all add: demo_env_def copy_closed_def mem_content_def mem_New_def typed_def)

section \<open>What copying a graph promises\<close>

lemma FetchAll_Inr_verified: "FetchAll P fetch x = Inr b \<Longrightarrow> dg_verify P (Digest x) b"
  by (auto simp: FetchAll_def ReadAll_Inr split: sum.splits)

lemma copy_safe_always:
  assumes "push_store P (ce_dst E) iv content" "copy_env_ok P ty iv content E"
    and "iv s" "mem_inv P cache" "copy_closed P ty (content s)" "\<forall>r\<in>set roots. typed ty r"
    and "(cg_step P E)\<^sup>*\<^sup>* (cg_init E roots cache s) \<sigma>"
  shows "cg_safe P ty iv content s \<sigma>"
proof -
  have "cg_safe P ty iv content s (cg_init E roots cache s)" using assms(3-6) by (rule cg_init_safe)
  with push_store.steps_safe [OF assms(1,2) refl assms(7)] show ?thesis by blast
qed

text \<open>In a closed destination everything below a stored node is stored, as in the source.\<close>

lemma copied_below:
  assumes "push_store P dst iv content" "consistent P ty" "iv s" "copy_closed P ty (content s)"
    and "content s r \<noteq> None" "typed ty r" "(cg_edge P)\<^sup>*\<^sup>* r x"
  shows "\<exists>b. content s x = Some b \<and> dg_verify P (Digest x) b \<and> (\<forall>b'. FetchAll P src x = Inr b' \<longrightarrow> b' = b)"
proof -
  from assms(7) have "content s x \<noteq> None \<and> typed ty x"
  proof (induction rule: rtranclp_induct)
    case base
    then show ?case using assms(5,6) by blast
  next
    case (step y z)
    then show ?case using copy_closedD [OF assms(4)] cg_edge_typed [OF assms(2)] by blast
  qed
  then obtain b where b: "content s x = Some b" by blast
  then have v: "dg_verify P (Digest x) b" using push_store.store_verified [OF assms(1,3)] by blast
  have "b' = b" if "FetchAll P src x = Inr b'" for b'
    using v assms(2) FetchAll_Inr_verified [OF that] unfolding consistent_def collision_free_def by blast
  with b v show ?thesis by blast
qed

text \<open>
  C3. At every moment of \<^verbatim>\<open>CopyGraph\<close>, for every interleaving of its goroutines and also after an
  error, the destination has with a manifest everything that the manifest refers to, foreign
  layers excepted, and it still has what it had before. The destination is any storage that
  keeps the contract \<open>push_store\<close>; it must have this property at the start, and hooks and mounting
  must keep its content.
\<close>

theorem copyGraph_closed:
  assumes "push_store P (ce_dst E) iv content" "copy_env_ok P ty iv content E"
    and "iv s" "mem_inv P cache" "copy_closed P ty (content s)" "\<forall>r\<in>set roots. typed ty r"
    and "(cg_step P E)\<^sup>*\<^sup>* (cg_init E roots cache s) \<sigma>"
  shows "copy_closed P ty (content (cg_dst \<sigma>)) \<and> (\<forall>x b. content s x = Some b \<longrightarrow> content (cg_dst \<sigma>) x = Some b)"
proof -
  note safe = copy_safe_always [OF assms]
  show ?thesis using cg_safeD(3,6) [OF safe] by blast
qed

theorem copyGraph_closed_witness:
  "copy_closed demo_graph_ext demo_ty (mem_content (cg_dst (demo_copy 9)))"
  using copyGraph_closed [OF demo_start(1) demo_env_ok mem_inv_empty mem_inv_empty demo_start(2,3) demo_copy_steps]
  by blast

text \<open>
  C2. When \<^verbatim>\<open>CopyGraph\<close> ends without an error, for every interleaving of its goroutines, the
  destination has every node that can be reached from the roots, foreign layers excepted, with
  content that matches its digest and that is the content of the source.
\<close>

theorem copyGraph_complete:
  assumes "push_store P (ce_dst E) iv content" "copy_env_ok P ty iv content E"
    and "iv s" "mem_inv P cache" "copy_closed P ty (content s)" "\<forall>r\<in>set roots. typed ty r"
    and "(cg_step P E)\<^sup>*\<^sup>* (cg_init E roots cache s) \<sigma>" "cg_tasks \<sigma> = []" "cg_err \<sigma> = None"
    and "r \<in> set roots" "(cg_edge P)\<^sup>*\<^sup>* r x"
  shows "\<exists>b. content (cg_dst \<sigma>) x = Some b \<and> dg_verify P (Digest x) b
     \<and> (\<forall>b'. FetchAll P (ce_src E) x = Inr b' \<longrightarrow> b' = b)"
proof -
  note D = cg_safeD [OF copy_safe_always [OF assms(1-7)]]
  have "cg_live roots (ce_concurrency E) \<sigma>" by (rule cg_steps_live [OF assms(7) cg_init_live])
  from cg_liveD(2,3) [OF this assms(9)] assms(8,10) have "FromOCI r \<in> cg_done \<sigma>" by auto
  then have "content (cg_dst \<sigma>) r \<noteq> None" by (rule D(5))
  from copied_below [OF assms(1) copy_env_okD(1) [OF assms(2)] D(1,3) this _ assms(11)] assms(6,10)
  show ?thesis by blast
qed

theorem copyGraph_complete_witness:
  "\<exists>b. mem_content (cg_dst (demo_copy 20)) demo_layer = Some b \<and> dg_verify demo_graph_ext (Digest demo_layer) b"
proof -
  have m: "IsManifest demo_manifest" by (simp add: demo_manifest_def IsManifest_def)
  then have "decode_successors demo_graph_ext demo_manifest ''M'' = Inr [demo_config, demo_layer]"
    using demo_Successors(1) by (simp add: Successors_eq)
  moreover have "dg_verify demo_graph_ext (Digest demo_manifest) ''M''"
    by (simp add: demo_manifest_def demo_graph_ext_def demo_ext_def)
  ultimately have "cg_succs demo_graph_ext demo_manifest [demo_config, demo_layer]"
    using m unfolding cg_succs_def by auto
  then have "cg_edge demo_graph_ext demo_manifest demo_layer"
    unfolding cg_edge_def
    by (intro exI [of _ "[demo_config, demo_layer]"]) (simp add: demo_layer_def IsForeignLayer_def media_type_defs)
  from copyGraph_complete [OF demo_start(1) demo_env_ok mem_inv_empty mem_inv_empty demo_start(2,3)
      demo_copy_steps demo_copy_end _ r_into_rtranclp [of "cg_edge demo_graph_ext", OF this]]
  show ?thesis by auto
qed



end
