(* ===== verification/Memory_Store.thy ===== *)
theory Memory_Store
  imports Graph_Memory Resolver_Memory
begin

text \<open>
  \<^verbatim>\<open>content/memory/memory.go\<close>: the memory store, made of a memory CAS, a memory resolver and
  a memory graph.

  Its invariant \<open>ms_inv\<close> links the parts: tags and indexed nodes have content, and every
  stored manifest that can be decoded is indexed. \<open>ms_step\<close> is one successful or failing
  call of a method that changes the store; the properties hold in every state that a
  sequence of calls reaches.
\<close>

record mstore =
  ms_storage :: cas_memory
  ms_resolver :: resolver
  ms_graph :: graph

definition ms_New :: mstore where
  "ms_New = \<lparr>ms_storage = mem_New, ms_resolver = resolver_NewMemory, ms_graph = graph_NewMemory\<rparr>"

definition ms_Fetch :: "mstore \<Rightarrow> descriptor \<Rightarrow> reader res" where
  "ms_Fetch s target = mem_Fetch (ms_storage s) target"

definition ms_Push :: "ext \<Rightarrow> mstore \<Rightarrow> descriptor \<Rightarrow> reader \<Rightarrow> unit res \<times> mstore" where
  "ms_Push P s expected reader = (case mem_Push P (ms_storage s) expected reader of
     (Inl e, m) \<Rightarrow> (Inl e, s\<lparr>ms_storage := m\<rparr>)
   | (Inr _, m) \<Rightarrow> (case graph_Index P (mem_Fetch m) (ms_graph s) expected of
       (x, g) \<Rightarrow> (x, s\<lparr>ms_storage := m, ms_graph := g\<rparr>)))"

definition ms_Exists :: "mstore \<Rightarrow> descriptor \<Rightarrow> bool res" where
  "ms_Exists s target = mem_Exists (ms_storage s) target"

definition ms_Resolve :: "mstore \<Rightarrow> string \<Rightarrow> descriptor res" where
  "ms_Resolve s reference = resolver_Resolve (ms_resolver s) reference"

definition ms_Tag :: "mstore \<Rightarrow> descriptor \<Rightarrow> string \<Rightarrow> unit res \<times> mstore" where
  "ms_Tag s desc reference = (case mem_Exists (ms_storage s) desc of
     Inl e \<Rightarrow> (Inl e, s)
   | Inr exists \<Rightarrow>
       if \<not> exists then (Inl ErrNotFound, s)
       else (Inr (), s\<lparr>ms_resolver := resolver_Tag (ms_resolver s) desc reference\<rparr>))"

definition ms_Predecessors :: "mstore \<Rightarrow> order \<Rightarrow> descriptor \<Rightarrow> descriptor list res" where
  "ms_Predecessors s ord node = Inr (graph_Predecessors (ms_graph s) ord node)"

section \<open>Reading the memory CAS\<close>

lemma ReadAllS_cong:
  "\<lbrakk>Digest d = Digest d'; Size d = Size d'\<rbrakk> \<Longrightarrow> ReadAllS P r d = ReadAllS P r d'"
  by (simp add: ReadAllS_def NewVerifyReader_def)

lemma mem_key_based: "key_based P (mem_Fetch m)"
  unfolding key_based_def
proof (intro allI impI)
  fix d d' assume "FromOCI d = FromOCI d'"
  moreover from this have "FetchAll P (mem_Fetch m) d = FetchAll P (mem_Fetch m) d'"
    using ReadAllS_cong [of d d']
    by (simp add: FetchAll_def mem_Fetch_def ReadAll_def FromOCI_def split: option.splits)
  ultimately show "Successors P (mem_Fetch m) d = Successors P (mem_Fetch m) d'"
    by (intro Successors_cong) (simp_all add: FromOCI_def)
qed

lemma mem_Successors:
  assumes "mem_inv P m"
  shows "Successors P (mem_Fetch m) d =
    (if IsManifest d then (case m (FromOCI d) of None \<Rightarrow> Inl ErrNotFound | Some b \<Rightarrow> decode_successors P d b)
     else Inr [])"
  by (simp add: Successors_eq mem_FetchAll [OF assms] split: option.splits)

lemma mem_Successors_mono:
  assumes "mem_inv P m" "mem_inv P m'" "m \<subseteq>\<^sub>m m'" "Successors P (mem_Fetch m) d = Inr ss"
  shows "Successors P (mem_Fetch m') d = Inr ss"
proof (cases "IsManifest d")
  case True
  with assms obtain b where "m (FromOCI d) = Some b" by (auto simp: mem_Successors split: option.splits)
  moreover from this assms(3) have "m' (FromOCI d) = Some b" by (metis domI map_le_def)
  ultimately show ?thesis using assms True by (simp add: mem_Successors)
qed (use assms in \<open>simp add: mem_Successors\<close>)

section \<open>The invariant\<close>

definition ms_inv :: "ext \<Rightarrow> mstore \<Rightarrow> bool" where
  "ms_inv P s \<longleftrightarrow> mem_inv P (ms_storage s)
     \<and> graph_inv P (mem_Fetch (ms_storage s)) (ms_graph s) \<and> r_ok (ms_resolver s)
     \<and> (\<forall>r d. ms_Resolve s r = Inr d \<longrightarrow> ms_storage s (FromOCI d) \<noteq> None)
     \<and> (\<forall>k. gm_get (g_nodes (ms_graph s)) k \<noteq> None \<longrightarrow> ms_storage s k \<noteq> None)
     \<and> (\<forall>d b ss. ms_storage s (FromOCI d) = Some b \<and> decode_successors P d b = Inr ss \<longrightarrow>
          gm_get (g_nodes (ms_graph s)) (FromOCI d) \<noteq> None)"

lemma ms_invD:
  assumes "ms_inv P s"
  shows "mem_inv P (ms_storage s)" "graph_inv P (mem_Fetch (ms_storage s)) (ms_graph s)"
    "r_ok (ms_resolver s)"
    "ms_Resolve s r = Inr d \<Longrightarrow> ms_storage s (FromOCI d) \<noteq> None"
    "gm_get (g_nodes (ms_graph s)) k \<noteq> None \<Longrightarrow> ms_storage s k \<noteq> None"
    "\<lbrakk>ms_storage s (FromOCI d) = Some b; decode_successors P d b = Inr ss\<rbrakk> \<Longrightarrow>
       gm_get (g_nodes (ms_graph s)) (FromOCI d) \<noteq> None"
  using assms unfolding ms_inv_def by blast+

lemma ms_inv_New: "ms_inv P ms_New"
  by (simp add: ms_inv_def ms_New_def)
    (simp add: mem_New_def graph_NewMemory_def ms_Resolve_def resolver_Resolve_def resolver_NewMemory_def)

lemma ms_Push_cases:
  obtains (fail) e where "ms_Push P s d r = (Inl e, s)" "mem_Push P (ms_storage s) d r = (Inl e, ms_storage s)"
  | (stored) b m g x where "ReadAll P r d = Inr b" "ms_storage s (FromOCI d) = None"
      "m = (ms_storage s)(FromOCI d \<mapsto> b)" "graph_index P (mem_Fetch m) (ms_graph s) d = (x, g)"
      "ms_Push P s d r = (map_sum id (\<lambda>_. ()) x, s\<lparr>ms_storage := m, ms_graph := g\<rparr>)"
proof (cases "mem_Push P (ms_storage s) d r")
  case (Pair x m)
  show thesis
  proof (cases x)
    case (Inl e)
    with Pair mem_Push_err [of P "ms_storage s" d r e m] fail show thesis by (simp add: ms_Push_def)
  next
    case (Inr u)
    with Pair obtain b where b: "ReadAll P r d = Inr b" "ms_storage s (FromOCI d) = None"
      "m = (ms_storage s)(FromOCI d \<mapsto> b)" by (auto simp: mem_Push_iff)
    obtain y g where "graph_index P (mem_Fetch m) (ms_graph s) d = (y, g)"
      by (cases "graph_index P (mem_Fetch m) (ms_graph s) d")
    with b Pair Inr stored [of b m y g] show thesis
      by (cases y) (simp_all add: ms_Push_def graph_Index_def)
  qed
qed

lemma ms_Push_inv:
  assumes "ms_inv P s"
  shows "ms_inv P (snd (ms_Push P s d r))"
proof (cases rule: ms_Push_cases [of P s d r])
  case (fail e)
  with assms show ?thesis by simp
next
  case (stored b m g x)
  note inv = assms [unfolded ms_inv_def]
  have le: "ms_storage s \<subseteq>\<^sub>m m" using stored(2,3) by (auto simp: map_le_def)
  have m: "mem_inv P m" using inv stored(1,3) by (auto simp: mem_inv_def ReadAll_Inr)
  have g0: "graph_inv P (mem_Fetch m) (ms_graph s)"
  proof (rule graph_inv_cong)
    show "graph_inv P (mem_Fetch (ms_storage s)) (ms_graph s)" using inv by blast
    fix k n assume "gm_get (g_nodes (ms_graph s)) k = Some n"
    with inv obtain ss where "Successors P (mem_Fetch (ms_storage s)) n = Inr ss"
      by (blast elim: graph_inv_node)
    with mem_Successors_mono [OF _ m le this] inv
    show "Successors P (mem_Fetch m) n = Successors P (mem_Fetch (ms_storage s)) n" by simp
  qed
  have g: "graph_inv P (mem_Fetch m) g"
    using graph_inv_index [OF mem_key_based g0, of d] stored(4) by simp
  have succ: "Successors P (mem_Fetch m) d = decode_successors P d b"
    using mem_Successors [OF m, of d] stored(3) by (simp add: decode_successors_leaf)
  have nodes: "gm_get (g_nodes g) k = (if k = FromOCI d \<and> (\<exists>ss. decode_successors P d b = Inr ss)
      then Some d else gm_get (g_nodes (ms_graph s)) k)" for k
  proof (cases "decode_successors P d b")
    case (Inl e)
    with stored(4) have "g = ms_graph s" by (simp add: graph_index_def succ)
    with Inl show ?thesis by simp
  next
    case (Inr ss)
    with stored(4) have "g = graph_add (ms_graph s) d ss" by (simp add: graph_index_def succ)
    with Inr show ?thesis by (simp add: graph_add_sel)
  qed
  have dec: "decode_successors P d' = decode_successors P d" if "FromOCI d' = FromOCI d" for d'
    using that by (intro decode_successors_cong) (simp add: FromOCI_def)
  have "gm_get (g_nodes g) (FromOCI d') \<noteq> None"
    if "m (FromOCI d') = Some b'" "decode_successors P d' b' = Inr ss" for d' b' ss
  proof (cases "FromOCI d' = FromOCI d")
    case True
    with that dec [OF True] stored(3) show ?thesis by (simp add: nodes)
  next
    case False
    with that(1) have "ms_storage s (FromOCI d') = Some b'" by (simp add: stored(3))
    with that(2) inv have "gm_get (g_nodes (ms_graph s)) (FromOCI d') \<noteq> None" by blast
    with False show ?thesis by (simp add: nodes)
  qed
  moreover have "m k \<noteq> None" if "gm_get (g_nodes g) k \<noteq> None" for k
  proof (cases "k = FromOCI d")
    case False
    with that have "gm_get (g_nodes (ms_graph s)) k \<noteq> None" by (simp add: nodes)
    with inv have "ms_storage s k \<noteq> None" by blast
    with False show ?thesis by (simp add: stored(3))
  qed (simp add: stored(3))
  moreover have "m (FromOCI d') \<noteq> None" if "ms_Resolve s reference = Inr d'" for reference d'
  proof -
    from inv that have "ms_storage s (FromOCI d') \<noteq> None" by blast
    then show ?thesis by (auto simp: stored(3))
  qed
  ultimately have "ms_inv P (s\<lparr>ms_storage := m, ms_graph := g\<rparr>)"
    using inv m g unfolding ms_inv_def ms_Resolve_def by simp
  with stored(5) show ?thesis by simp
qed

lemma ms_Tag_inv: "ms_inv P s \<Longrightarrow> ms_inv P (snd (ms_Tag s d r))"
  by (auto simp: ms_inv_def ms_Tag_def mem_Exists_def ms_Resolve_def rmem.resolve_tag r_ok_Tag
      split: if_splits)

text \<open>The states that calls of the methods reach from a new store.\<close>

inductive ms_step :: "ext \<Rightarrow> mstore \<Rightarrow> mstore \<Rightarrow> bool" for P where
  push: "ms_Push P s d r = (x, s') \<Longrightarrow> ms_step P s s'"
| tag: "ms_Tag s d reference = (x, s') \<Longrightarrow> ms_step P s s'"

definition ms_reachable :: "ext \<Rightarrow> mstore \<Rightarrow> bool" where
  "ms_reachable P s \<longleftrightarrow> (ms_step P)\<^sup>*\<^sup>* ms_New s"

lemma ms_step_inv: "\<lbrakk>ms_step P s s'; ms_inv P s\<rbrakk> \<Longrightarrow> ms_inv P s'"
  by (induction rule: ms_step.induct) (metis ms_Push_inv snd_conv, metis ms_Tag_inv snd_conv)

lemma ms_reachable_inv: "ms_reachable P s \<Longrightarrow> ms_inv P s"
  unfolding ms_reachable_def
  by (induction rule: rtranclp_induct) (auto intro: ms_inv_New ms_step_inv)

lemma ms_graph_decode:
  assumes "ms_inv P s" "gm_get (g_nodes (ms_graph s)) k = Some d"
  obtains b ss where "k = FromOCI d" "ms_storage s k = Some b" "decode_successors P d b = Inr ss"
    "Successors P (mem_Fetch (ms_storage s)) d = Inr ss"
proof -
  note inv = assms(1) [unfolded ms_inv_def]
  from inv have "graph_inv P (mem_Fetch (ms_storage s)) (ms_graph s)" by blast
  from this assms(2) obtain ss where k: "k = FromOCI d"
    and ss: "Successors P (mem_Fetch (ms_storage s)) d = Inr ss"
    by (rule graph_inv_node)
  from inv assms(2) obtain b where b: "ms_storage s k = Some b" by blast
  have "decode_successors P d b = Inr ss"
    using ss b k inv mem_Successors [of P "ms_storage s" d]
    by (simp add: decode_successors_leaf split: if_splits)
  with k b show thesis using ss by (rule that)
qed

section \<open>The memory store as a target\<close>

definition ms_target :: "ext \<Rightarrow> mstore storage" where
  "ms_target P = \<lparr>st_Fetch = ms_Fetch, st_Exists = ms_Exists, st_Push = ms_Push P\<rparr>"

definition ms_content :: "mstore \<Rightarrow> descriptor \<Rightarrow> bytes option" where
  "ms_content s = mem_content (ms_storage s)"

lemma ms_Push_storage:
  "snd (mem_Push P (ms_storage s) d r) = ms_storage (snd (ms_Push P s d r))"
  "ms_resolver (snd (ms_Push P s d r)) = ms_resolver s"
  by (simp_all add: ms_Push_def split: prod.splits sum.splits)

lemma ms_Push_fst:
  "fst (ms_Push P s d r) = Inr () \<Longrightarrow> fst (mem_Push P (ms_storage s) d r) = Inr ()"
  "\<lbrakk>fst (ms_Push P s d r) = Inl e; fst (mem_Push P (ms_storage s) d r) \<noteq> Inl e\<rbrakk> \<Longrightarrow>
     fst (mem_Push P (ms_storage s) d r) = Inr ()"
  by (auto simp: ms_Push_def split: prod.splits sum.splits)

interpretation mst: tag_store P "ms_target P" "ms_inv P" ms_content ms_Resolve ms_Tag for P
proof (unfold_locales, goal_cases)
  case 1 then show ?case by (simp add: ms_content_def mem_content_def)
next
  case 2 then show ?case by (simp add: ms_target_def ms_Exists_def ms_content_def mem_Exists_def mem_content_def)
next
  case 3 then show ?case using mem.content_verified [OF ms_invD(1)] by (auto simp: ms_content_def)
next
  case (4 s d r) then show ?case
    using mem.ps.store_adds [OF ms_invD(1), of P s d r]
    by (simp add: adds_def ms_target_def ms_content_def mem_storage_def ms_Push_storage)
next
  case (5 s d r s')
  then have "mem_Push P (ms_storage s) d r = (Inr (), ms_storage s')"
    using ms_Push_fst(1) [of P s d r] ms_Push_storage(1) [of P s d r] by (simp add: ms_target_def prod_eq_iff)
  then show ?case using mem.ps.store_ok [OF ms_invD(1) [OF 5(1)]] by (simp add: mem_storage_def ms_content_def)
next
  case (6 s d r s')
  then have "mem_Push P (ms_storage s) d r = (Inl ErrAlreadyExists, ms_storage s') \<or>
      mem_Push P (ms_storage s) d r = (Inr (), ms_storage s')"
    using ms_Push_fst(2) [of P s d r] ms_Push_storage(1) [of P s d r] by (auto simp: ms_target_def prod_eq_iff)
  then show ?case
    using mem.ps.store_ok [OF ms_invD(1) [OF 6(1)]] mem.ps.store_already [OF ms_invD(1) [OF 6(1)] _ 6(3)]
    by (auto simp: mem_storage_def ms_content_def)
next
  case 7 then show ?case by (simp add: ms_target_def ms_Push_inv)
next
  case 8 then show ?case
    by (auto simp: ms_Tag_def mem_Exists_def ms_Resolve_def rmem.resolve_tag split: if_splits)
next
  case 9 then show ?case by (rule ms_Tag_inv)
next
  case 10 then show ?case by (simp add: ms_Tag_def mem_Exists_def ms_content_def)
next
  case 11 then show ?case by (auto simp: ms_Tag_def mem_Exists_def split: if_splits)
next
  case 12 then show ?case by (auto simp: ms_Resolve_def ms_target_def ms_Push_storage)
qed

section \<open>What the memory store promises\<close>

text \<open>
  C13. In every state of a memory store that calls of its methods reach, a reference that
  resolves leads to content that is stored: it exists and fetching it returns bytes of the
  described size and digest.
\<close>

theorem ms_tags_have_content:
  assumes "ms_reachable P s" "ms_Resolve s reference = Inr d"
  shows "ms_Exists s d = Inr True \<and> (\<exists>b. FetchAll P (ms_Fetch s) d = Inr b
    \<and> int (length b) = Size d \<and> dg_verify P (Digest d) b)"
proof -
  have inv: "ms_inv P s" by (rule ms_reachable_inv [OF assms(1)])
  with assms(2) obtain b where b: "ms_storage s (FromOCI d) = Some b" and m: "mem_inv P (ms_storage s)"
    unfolding ms_inv_def by blast
  then have "FetchAll P (ms_Fetch s) d = Inr b"
    using mem_FetchAll [OF m, of d] by (simp add: ms_Fetch_def [abs_def])
  with mem_inv_FromOCI [OF m b] b show ?thesis by (simp add: ms_Exists_def mem_Exists_def)
qed

lemma ms_Predecessors_keys:
  assumes inv: "ms_inv P s" and "valid_order ord" "ms_Predecessors s ord node = Inr ps"
  shows "FromOCI ` set ps = {k. \<exists>d b ss. k = FromOCI d \<and> ms_storage s k = Some b
     \<and> decode_successors P d b = Inr ss \<and> FromOCI node \<in> FromOCI ` set ss}"
proof -
  let ?g = "ms_graph s"
  have gi: "graph_inv P (mem_Fetch (ms_storage s)) ?g" using inv by (simp add: ms_inv_def)
  have "g_ok ?g" using gi by (simp add: graph_inv_def)
  note preds = graph_Predecessors_set(1) [OF this assms(2), of node]
  have ps: "ps = graph_Predecessors ?g ord node" using assms(3) by (simp add: ms_Predecessors_def)
  have succs: "set (gset (g_succs ?g) k) = FromOCI ` set ss"
    if "gm_get (g_nodes ?g) k = Some d" "Successors P (mem_Fetch (ms_storage s)) d = Inr ss" for k d ss
    using gi that(1) by (rule graph_inv_node) (use that(2) in simp)
  show ?thesis (is "?L = ?R")
  proof (intro set_eqI iffI)
    fix k assume "k \<in> ?L"
    then obtain d k' where "k = FromOCI d" and k': "gm_get (g_nodes ?g) k' = Some d"
      "FromOCI node \<in> set (gset (g_succs ?g) k')"
      by (auto simp: ps preds)
    moreover from gi k'(1) have "k' = FromOCI d" by (rule graph_inv_node)
    ultimately have d: "k = FromOCI d" "gm_get (g_nodes ?g) k = Some d"
      "FromOCI node \<in> set (gset (g_succs ?g) k)" by simp_all
    from inv d(2) obtain b ss where b: "ms_storage s k = Some b" "decode_successors P d b = Inr ss"
      "Successors P (mem_Fetch (ms_storage s)) d = Inr ss"
      by (rule ms_graph_decode)
    from succs [OF d(2) b(3)] d(3) have "FromOCI node \<in> FromOCI ` set ss" by simp
    with d(1) b(1,2) show "k \<in> ?R" by (intro CollectI exI conjI)
  next
    fix k assume "k \<in> ?R"
    then obtain d b ss where d: "k = FromOCI d" "ms_storage s k = Some b"
      "decode_successors P d b = Inr ss" "FromOCI node \<in> FromOCI ` set ss" by blast
    with ms_invD(6) [OF inv] obtain n where n: "gm_get (g_nodes ?g) k = Some n" by blast
    from inv n obtain b' ss' where n': "k = FromOCI n" "ms_storage s k = Some b'"
      "decode_successors P n b' = Inr ss'" "Successors P (mem_Fetch (ms_storage s)) n = Inr ss'"
      by (rule ms_graph_decode)
    have "decode_successors P n = decode_successors P d"
      using n'(1) d(1) by (intro decode_successors_cong) (simp add: FromOCI_def)
    with d n' have "ss' = ss" by simp
    with succs [OF n n'(4)] d(4) n n'(1) show "k \<in> ?L" by (auto simp: ps preds)
  qed
qed

text \<open>
  C14. In every reachable state of a memory store, \<^verbatim>\<open>Predecessors\<close> of a descriptor returns
  exactly the stored manifests that list the descriptor among their successors, whether or
  not the descriptor itself is stored.
\<close>

theorem ms_Predecessors_exact:
  assumes "ms_reachable P s" "valid_order ord" "ms_Predecessors s ord node = Inr ps"
  shows "FromOCI ` set ps = {k. \<exists>d b ss. k = FromOCI d \<and> ms_storage s k = Some b
     \<and> decode_successors P d b = Inr ss \<and> FromOCI node \<in> FromOCI ` set ss}"
  by (rule ms_Predecessors_keys [OF ms_reachable_inv [OF assms(1)] assms(2,3)])

text \<open>
  A push that fails because the manifest cannot be decoded has stored the manifest: the
  error is returned, the content can be fetched, pushing it again fails with
  \<^verbatim>\<open>ErrAlreadyExists\<close>, and it is not in the predecessor index.
\<close>

lemma ms_Push_undecodable:
  assumes "ms_inv P s" "ms_storage s (FromOCI d) = None" "ReadAll P r d = Inr b"
    and "decode_successors P d b = Inl e" "ms_Push P s d r = (x, s')"
  shows "x = Inl e \<and> FetchAll P (ms_Fetch s') d = Inr b \<and> ms_graph s' = ms_graph s
    \<and> fst (ms_Push P s' d r') = Inl ErrAlreadyExists"
proof -
  have m: "mem_Push P (ms_storage s) d r = (Inr (), (ms_storage s)(FromOCI d \<mapsto> b))"
    using assms(2,3) by (simp add: mem_Push_new)
  have inv': "mem_inv P ((ms_storage s)(FromOCI d \<mapsto> b))"
    using ms_invD(1) [OF assms(1)] assms(3) by (auto simp: mem_inv_def ReadAll_Inr)
  have "Successors P (mem_Fetch ((ms_storage s)(FromOCI d \<mapsto> b))) d = Inl e"
    using mem_Successors [OF inv', of d] assms(4) decode_successors_leaf [of d P b]
    by (auto split: if_splits)
  with assms(5) m have x: "x = Inl e" "s' = s\<lparr>ms_storage := (ms_storage s)(FromOCI d \<mapsto> b)\<rparr>"
    by (auto simp: ms_Push_def graph_Index_def graph_index_def)
  then show ?thesis
    using mem_FetchAll [OF inv', of d]
    by (simp add: ms_Fetch_def [abs_def] ms_Push_def mem_Push_new)
qed

section \<open>A concrete store\<close>

definition demo_store :: mstore where
  "demo_store = snd (ms_Tag (snd (ms_Push demo_graph_ext ms_New demo_manifest (bytes_reader ''M'')))
     demo_manifest ''v1'')"

lemma demo_store_reachable: "ms_reachable demo_graph_ext demo_store"
proof -
  let ?s = "snd (ms_Push demo_graph_ext ms_New demo_manifest (bytes_reader ''M''))"
  have "ms_step demo_graph_ext ms_New ?s"
    using ms_step.push [OF prod.collapse [symmetric], of demo_graph_ext] .
  moreover have "ms_step demo_graph_ext ?s demo_store"
    unfolding demo_store_def using ms_step.tag [OF prod.collapse [symmetric]] .
  ultimately show ?thesis
    unfolding ms_reachable_def
    by (rule converse_rtranclp_into_rtranclp [OF _ r_into_rtranclp])
qed

lemma demo_store_storage:
  "ms_storage demo_store = [FromOCI demo_manifest \<mapsto> ''M'']"
  "ms_Resolve demo_store ''v1'' = Inr demo_manifest"
proof -
  have "ReadAll demo_graph_ext (bytes_reader ''M'') demo_manifest = Inr ''M''"
    by (simp add: ReadAll_Inr demo_graph_ext_def demo_ext_def demo_manifest_def)
  then have "ms_storage (snd (ms_Push demo_graph_ext ms_New demo_manifest (bytes_reader ''M'')))
      = [FromOCI demo_manifest \<mapsto> ''M'']"
    by (simp add: ms_Push_def mem_Push_new ms_New_def mem_New_def split: prod.split)
  then show "ms_storage demo_store = [FromOCI demo_manifest \<mapsto> ''M'']"
    "ms_Resolve demo_store ''v1'' = Inr demo_manifest"
    by (simp_all add: demo_store_def ms_Tag_def mem_Exists_def ms_Resolve_def rmem.resolve_tag)
qed

theorem ms_tags_have_content_witness: "ms_Exists demo_store demo_manifest = Inr True"
  using ms_tags_have_content [OF demo_store_reachable demo_store_storage(2)] by blast

theorem ms_Predecessors_exact_witness:
  "FromOCI demo_manifest \<in> FromOCI ` set (projr (ms_Predecessors demo_store rev_order demo_layer))"
proof -
  have "ms_Predecessors demo_store rev_order demo_layer
      = Inr (projr (ms_Predecessors demo_store rev_order demo_layer))"
    by (simp add: ms_Predecessors_def)
  note exact = ms_Predecessors_exact [OF demo_store_reachable valid_rev_order this]
  have "IsManifest demo_manifest" by (simp add: demo_manifest_def IsManifest_def)
  then have "decode_successors demo_graph_ext demo_manifest ''M'' = Inr [demo_config, demo_layer]"
    using demo_Successors(1) by (simp add: Successors_eq)
  then show ?thesis unfolding exact
    by (intro CollectI exI [of _ demo_manifest] exI [of _ "''M''"] exI [of _ "[demo_config, demo_layer]"])
      (simp add: demo_store_storage)
qed

lemma ms_Push_undecodable_witness:
  "fst (ms_Push demo_ext ms_New demo_manifest (bytes_reader ''M'')) = Inl ErrDecode"
proof -
  have "ReadAll demo_ext (bytes_reader ''M'') demo_manifest = Inr ''M''"
    by (simp add: ReadAll_Inr demo_ext_def demo_manifest_def)
  moreover have "decode_successors demo_ext demo_manifest ''M'' = Inl ErrDecode"
    by (simp add: decode_successors_def demo_ext_def demo_manifest_def)
  moreover have "ms_storage ms_New (FromOCI demo_manifest) = None"
    by (simp add: ms_New_def mem_New_def)
  ultimately show ?thesis
    using ms_Push_undecodable [OF ms_inv_New _ _ _ prod.collapse [symmetric]] by blast
qed

end
