(* ===== verification/Copy_Target.thy ===== *)
theory Copy_Target
  imports Copy_Graph Memory_Store
begin

text \<open>
  \<^verbatim>\<open>copy.go\<close>: \<^verbatim>\<open>Copy\<close> itself, which resolves the root, prepares the hooks that tag it at the
  destination, and copies the graph; with \<^verbatim>\<open>FetchReference\<close> of \<^verbatim>\<open>internal/registryutil/proxy.go\<close>
  and the interfaces of \<^verbatim>\<open>target.go\<close>.

  The optional interfaces of source and destination (\<^verbatim>\<open>registry.ReferenceFetcher\<close>,
  \<^verbatim>\<open>registry.ReferencePusher\<close>, \<^verbatim>\<open>registry.Mounter\<close>) are optional methods of the records below.
\<close>

record source =
  so_Fetch :: "descriptor \<Rightarrow> reader res"
  so_Exists :: "descriptor \<Rightarrow> bool res"
  so_Resolve :: "string \<Rightarrow> descriptor res"
  so_FetchReference :: "(string \<Rightarrow> (descriptor \<times> reader) res) option"

record 's target =
  tg_storage :: "'s storage"
  tg_Resolve :: "'s \<Rightarrow> string \<Rightarrow> descriptor res"
  tg_Tag :: "'s \<Rightarrow> descriptor \<Rightarrow> string \<Rightarrow> unit res \<times> 's"
  tg_PushReference :: "('s \<Rightarrow> descriptor \<Rightarrow> reader \<Rightarrow> string \<Rightarrow> unit res \<times> 's) option"
  tg_Mount :: "('s \<Rightarrow> descriptor \<Rightarrow> string \<Rightarrow> 's mount) option"

record 's CopyOptions =
  co_Graph :: "'s copy_opts"
  MapRoot :: "((descriptor \<Rightarrow> reader res) \<Rightarrow> descriptor \<Rightarrow> descriptor res) option"

definition DefaultCopyOptions :: "'s CopyOptions" where
  "DefaultCopyOptions = \<lparr>co_Graph = DefaultCopyGraphOptions, MapRoot = None\<rparr>"

definition WithTargetPlatform :: "ext \<Rightarrow> 's CopyOptions \<Rightarrow> platform option \<Rightarrow> 's CopyOptions" where
  "WithTargetPlatform P opts p = (case p of
     None \<Rightarrow> opts
   | Some _ \<Rightarrow>
       let mapRoot = MapRoot opts
       in opts\<lparr>MapRoot := Some (\<lambda>src root.
            case (case mapRoot of None \<Rightarrow> Inr root | Some f \<Rightarrow> f src root) of
              Inl e \<Rightarrow> Inl e
            | Inr root \<Rightarrow> SelectManifest P src root p)\<rparr>)"

definition copy_proxy :: "ext \<Rightarrow> source \<Rightarrow> 's copy_opts \<Rightarrow> cas_memory proxy" where
  "copy_proxy P src opts =
     (let n = MaxMetadataBytes opts;
          n = (if n \<le> 0 then defaultCopyMaxMetadataBytes else n)
      in NewProxyWithLimit (so_Fetch src) (so_Exists src) (mem_storage P) n)"

section \<open>Resolving the root\<close>

text \<open>
  \<^verbatim>\<open>FetchReference\<close> of the reference proxy followed by \<^verbatim>\<open>content.Successors\<close> and \<^verbatim>\<open>Close\<close>, as
  \<^verbatim>\<open>resolveRoot\<close> calls them. Content that is not a manifest is not read: the push to the cache
  then sees an empty stream.
\<close>

definition FetchReference :: "ext \<Rightarrow> cas_memory proxy \<Rightarrow> cas_memory \<Rightarrow> descriptor \<Rightarrow> reader \<Rightarrow>
    descriptor list res \<times> cas_memory" where
  "FetchReference P px c root rc =
     (case st_Exists (px_Cache px) c root of
        Inl e \<Rightarrow> (Inl e, c)
      | Inr True \<Rightarrow>
          if IsManifest root
          then (case ReadAll P rc root of
                  Inl e \<Rightarrow> (Inl e, c)
                | Inr b \<Rightarrow> (decode_successors P root b, c))
          else (Inr [], c)
      | Inr False \<Rightarrow>
          if IsManifest root
          then (case tee_ReadAll P px c root rc of
                  (Inl e, c) \<Rightarrow> (Inl e, c)
                | (Inr b, c) \<Rightarrow> (decode_successors P root b, c))
          else (Inr [], snd (st_Push (px_Cache px) c root (bytes_reader []))))"

definition resolveRoot :: "ext \<Rightarrow> source \<Rightarrow> string \<Rightarrow> cas_memory proxy \<Rightarrow> cas_memory \<Rightarrow>
    descriptor res \<times> cas_memory" where
  "resolveRoot P src srcRef px c = (case so_FetchReference src of
     None \<Rightarrow> (so_Resolve src srcRef, c)
   | Some fetchReference \<Rightarrow> (case fetchReference srcRef of
       Inl e \<Rightarrow> (Inl e, c)
     | Inr (root, rc) \<Rightarrow> (case FetchReference P px c root rc of
         (Inl e, c) \<Rightarrow> (Inl e, c)
       | (Inr _, c) \<Rightarrow> (Inr root, c))))"

section \<open>Hooks for the root\<close>

definition copyCachedNodeWithReference :: "cas_memory proxy \<Rightarrow>
    ('s \<Rightarrow> descriptor \<Rightarrow> reader \<Rightarrow> string \<Rightarrow> unit res \<times> 's) \<Rightarrow> cas_memory \<Rightarrow> descriptor \<Rightarrow> string \<Rightarrow> 's \<Rightarrow>
    error option \<times> 's" where
  "copyCachedNodeWithReference px push c desc dstRef s = (case FetchCached px c desc of
     Inl e \<Rightarrow> (Some e, s)
   | Inr rc \<Rightarrow> (case push s desc rc dstRef of
       (Inl e, s) \<Rightarrow> if e \<noteq> ErrAlreadyExists then (Some e, s) else (None, s)
     | (Inr _, s) \<Rightarrow> (None, s)))"

text \<open>\<open>PreCopy\<close>, \<open>PostCopy\<close> and \<open>OnCopySkipped\<close> as \<^verbatim>\<open>prepareCopy\<close> sets them.\<close>

definition push_PreCopy :: "cas_memory proxy \<Rightarrow> ('s \<Rightarrow> descriptor \<Rightarrow> reader \<Rightarrow> string \<Rightarrow> unit res \<times> 's) \<Rightarrow>
    string \<Rightarrow> descriptor \<Rightarrow> 's copy_opts \<Rightarrow> 's hook" where
  "push_PreCopy px push dstRef root opts c desc s = (case run_hook (PreCopy opts) c desc s of
     (Some e, s) \<Rightarrow> (Some e, s)
   | (None, s) \<Rightarrow>
       if \<not> Equal desc root then (None, s)
       else case copyCachedNodeWithReference px push c desc dstRef s of
         (Some e, s) \<Rightarrow> (Some e, s)
       | (None, s) \<Rightarrow> (case run_hook (PostCopy opts) c desc s of
           (Some e, s) \<Rightarrow> (Some e, s)
         | (None, s) \<Rightarrow> (Some SkipNode, s)))"

definition res_err :: "unit res \<times> 's \<Rightarrow> error option \<times> 's" where
  "res_err x = (case x of (Inl e, s) \<Rightarrow> (Some e, s) | (Inr _, s) \<Rightarrow> (None, s))"

definition tag_PostCopy :: "('s \<Rightarrow> descriptor \<Rightarrow> string \<Rightarrow> unit res \<times> 's) \<Rightarrow> string \<Rightarrow> descriptor \<Rightarrow> 's copy_opts \<Rightarrow>
    's hook" where
  "tag_PostCopy tag dstRef root opts c desc s =
     (case (if Equal desc root then res_err (tag s root dstRef) else (None, s)) of
        (Some e, s) \<Rightarrow> (Some e, s)
      | (None, s) \<Rightarrow> run_hook (PostCopy opts) c desc s)"

definition root_OnCopySkipped :: "cas_memory proxy \<Rightarrow> 's target \<Rightarrow> string \<Rightarrow> descriptor \<Rightarrow> 's copy_opts \<Rightarrow> 's hook" where
  "root_OnCopySkipped px dst dstRef root opts c desc s =
     (if \<not> Equal desc root then run_hook (OnCopySkipped opts) c desc s
      else case tg_PushReference dst of
        Some push \<Rightarrow> copyCachedNodeWithReference px push c desc dstRef s
      | None \<Rightarrow> (case run_hook (OnCopySkipped opts) c desc s of
          (Some e, s) \<Rightarrow> (Some e, s)
        | (None, s) \<Rightarrow> res_err (tg_Tag dst s root dstRef)))"

definition prepareCopy :: "cas_memory proxy \<Rightarrow> 's target \<Rightarrow> string \<Rightarrow> descriptor \<Rightarrow> 's copy_opts \<Rightarrow> 's copy_opts" where
  "prepareCopy px dst dstRef root opts =
     (let opts' = (case tg_PushReference dst of
            Some push \<Rightarrow> opts\<lparr>PreCopy := Some (push_PreCopy px push dstRef root opts)\<rparr>
          | None \<Rightarrow> opts\<lparr>PostCopy := Some (tag_PostCopy (tg_Tag dst) dstRef root opts)\<rparr>)
      in opts'\<lparr>OnCopySkipped := Some (root_OnCopySkipped px dst dstRef root opts)\<rparr>)"

section \<open>Copy\<close>

text \<open>
  \<^verbatim>\<open>Copy\<close> up to the call of \<^verbatim>\<open>copyGraph\<close>: the root, what the traversal gets and the cache. A nil
  source or destination is \<open>None\<close>.
\<close>

definition copy_env_of :: "cas_memory proxy \<Rightarrow> source \<Rightarrow> 's target \<Rightarrow> string \<Rightarrow> descriptor \<Rightarrow> 's copy_opts \<Rightarrow> 's copy_env" where
  "copy_env_of px src dst dstRef root opts = \<lparr>ce_src = so_Fetch src, ce_src_exists = so_Exists src,
     ce_dst = tg_storage dst, ce_mounter = tg_Mount dst, ce_opts = prepareCopy px dst dstRef root opts\<rparr>"

definition Copy_start :: "ext \<Rightarrow> source option \<Rightarrow> string \<Rightarrow> 's target option \<Rightarrow> string \<Rightarrow> 's CopyOptions \<Rightarrow>
    (descriptor \<times> 's copy_env \<times> cas_memory) res" where
  "Copy_start P src srcRef dst dstRef opts = (case src of
     None \<Rightarrow> Inl (ErrOther ''nil source target'')
   | Some src \<Rightarrow> (case dst of
       None \<Rightarrow> Inl (ErrOther ''nil destination target'')
     | Some dst \<Rightarrow>
         let dstRef = (if dstRef = [] then srcRef else dstRef);
             px = copy_proxy P src (co_Graph opts)
         in case resolveRoot P src srcRef px mem_New of
           (Inl e, c) \<Rightarrow> Inl e
         | (Inr root, c) \<Rightarrow>
             (case (case MapRoot opts of
                      None \<Rightarrow> Inr root
                    | Some mapRoot \<Rightarrow> mapRoot (FetchCached px c) root) of
                Inl e \<Rightarrow> Inl e
              | Inr root \<Rightarrow> Inr (root, copy_env_of px src dst dstRef root (co_Graph opts), c))))"

text \<open>
  What a call of \<^verbatim>\<open>Copy\<close> may return, with the state of the destination at that moment. After an
  error of some task the call may return before all of them have ended: \<^verbatim>\<open>syncutil.Go\<close> does not
  wait when it cannot start a task.
\<close>

inductive Copy :: "ext \<Rightarrow> source option \<Rightarrow> string \<Rightarrow> 's target option \<Rightarrow> string \<Rightarrow> 's CopyOptions \<Rightarrow> 's \<Rightarrow>
    descriptor res \<Rightarrow> 's \<Rightarrow> bool" for P src srcRef dst dstRef opts s where
  not_started: "Copy_start P src srcRef dst dstRef opts = Inl e \<Longrightarrow> Copy P src srcRef dst dstRef opts s (Inl e) s"
| failed: "\<lbrakk>Copy_start P src srcRef dst dstRef opts = Inr (root, E, c);
     (cg_step P E)\<^sup>*\<^sup>* (cg_init E [root] c s) \<sigma>; cg_err \<sigma> = Some e\<rbrakk> \<Longrightarrow>
     Copy P src srcRef dst dstRef opts s (Inl e) (cg_dst \<sigma>)"
| copied: "\<lbrakk>Copy_start P src srcRef dst dstRef opts = Inr (root, E, c);
     (cg_step P E)\<^sup>*\<^sup>* (cg_init E [root] c s) \<sigma>; cg_tasks \<sigma> = []; cg_err \<sigma> = None\<rbrakk> \<Longrightarrow>
     Copy P src srcRef dst dstRef opts s (Inr root) (cg_dst \<sigma>)"

lemma Copy_start_Inr:
  assumes "Copy_start P src srcRef dst dstRef opts = Inr (root, E, c)"
  obtains so d root0 where "src = Some so" "dst = Some d"
    "resolveRoot P so srcRef (copy_proxy P so (co_Graph opts)) mem_New = (Inr root0, c)"
    "MapRoot opts = None \<Longrightarrow> root0 = root"
    "E = copy_env_of (copy_proxy P so (co_Graph opts)) so d (if dstRef = [] then srcRef else dstRef) root (co_Graph opts)"
proof -
  obtain so where so: "src = Some so" using assms by (cases src) (auto simp: Copy_start_def)
  obtain d where d: "dst = Some d" using assms so by (cases dst) (auto simp: Copy_start_def)
  obtain x c' where r: "resolveRoot P so srcRef (copy_proxy P so (co_Graph opts)) mem_New = (x, c')"
    by (cases "resolveRoot P so srcRef (copy_proxy P so (co_Graph opts)) mem_New")
  obtain root0 where "x = Inr root0" using assms so d r by (cases x) (auto simp: Copy_start_def Let_def)
  with assms so d r that [of so d root0] show thesis
    by (auto simp: Copy_start_def Let_def split: option.splits sum.splits)
qed

section \<open>The cache after resolving\<close>

lemma tee_ReadAll_inv:
  assumes "mem_inv P c" "tee_ReadAll P (NewProxyWithLimit fetch ex (mem_storage P) n) c d rc = (x, c')"
  shows "mem_inv P c'"
proof -
  let ?cache = "LimitStorage (mem_storage P) n"
  have "\<exists>b. c' = snd (st_Push ?cache c d (bytes_reader b))"
    using assms(2)
    by (auto simp: tee_ReadAll_def NewProxyWithLimit_def NewProxy_def Let_def simp del: LimitStorage_sel split: prod.splits)
  then show ?thesis using limmem.lim.push_inv [OF assms(1)] by metis
qed

lemma copy_proxy_eq:
  "copy_proxy P so opts = NewProxyWithLimit (so_Fetch so) (so_Exists so) (mem_storage P)
     (if MaxMetadataBytes opts \<le> 0 then defaultCopyMaxMetadataBytes else MaxMetadataBytes opts)"
  by (simp add: copy_proxy_def)

lemma copy_proxy_Cache:
  "\<exists>n. px_Cache (copy_proxy P so opts) = LimitStorage (mem_storage P) n"
  by (auto simp: copy_proxy_eq NewProxyWithLimit_def NewProxy_def)

lemma FetchReference_inv:
  assumes "mem_inv P c" "FetchReference P (copy_proxy P so opts) c root rc = (x, c')"
  shows "mem_inv P c'"
proof -
  obtain n where n: "px_Cache (copy_proxy P so opts) = LimitStorage (mem_storage P) n" using copy_proxy_Cache by blast
  consider "c' = c" | y where "tee_ReadAll P (copy_proxy P so opts) c root rc = (y, c')"
    | "c' = snd (st_Push (LimitStorage (mem_storage P) n) c root (bytes_reader []))"
    using assms(2) n
    by (auto simp: FetchReference_def simp del: LimitStorage_sel split: sum.splits bool.splits if_splits prod.splits)
  then show ?thesis
  proof cases
    case 2
    then show ?thesis using tee_ReadAll_inv [OF assms(1)] unfolding copy_proxy_eq by blast
  next
    case 3
    then show ?thesis using limmem.lim.push_inv [OF assms(1)] by metis
  qed (use assms(1) in simp)
qed

lemma resolveRoot_inv:
  assumes "resolveRoot P so srcRef (copy_proxy P so opts) mem_New = (x, c)"
  shows "mem_inv P c"
proof (cases "so_FetchReference so")
  case None
  with assms show ?thesis by (auto simp: resolveRoot_def)
next
  case (Some f)
  show ?thesis
  proof (cases "f srcRef")
    case (Inl e)
    with assms Some show ?thesis by (auto simp: resolveRoot_def)
  next
    case (Inr y)
    obtain root rc where y: "y = (root, rc)" by (cases y)
    obtain z c1 where "FetchReference P (copy_proxy P so opts) mem_New root rc = (z, c1)"
      by (cases "FetchReference P (copy_proxy P so opts) mem_New root rc")
    with assms Some Inr y FetchReference_inv [OF mem_inv_empty this] show ?thesis
      by (auto simp: resolveRoot_def split: sum.splits)
  qed
qed

section \<open>What the caller has to provide\<close>

definition tagged :: "('s \<Rightarrow> string \<Rightarrow> descriptor res) \<Rightarrow> string \<Rightarrow> descriptor \<Rightarrow> 's \<Rightarrow> bool" where
  "tagged resolve r d s \<longleftrightarrow> (\<exists>x. resolve s r = Inr x \<and> Equal x d)"

definition hook_keeps :: "('s \<Rightarrow> bool) \<Rightarrow> 's hook option \<Rightarrow> bool" where
  "hook_keeps T h \<longleftrightarrow> (\<forall>f c d s. h = Some f \<and> T s \<longrightarrow> T (snd (f c d s)))"

definition mount_keeps :: "('s \<Rightarrow> bool) \<Rightarrow> ('s \<Rightarrow> descriptor \<Rightarrow> string \<Rightarrow> 's mount) option \<Rightarrow> bool" where
  "mount_keeps T m \<longleftrightarrow> (\<forall>f s d r. m = Some f \<and> T s \<longrightarrow> (case f s d r of
     Mounted s' \<Rightarrow> T s' | MountFailed e s' \<Rightarrow> T s' | MountContent k \<Rightarrow> (\<forall>c s. T s \<longrightarrow> T (snd (k c s)))))"

text \<open>
  What \<^verbatim>\<open>PushReference\<close> of the destination promises: a push that succeeds or finds the content
  has stored it under the reference, and another one leaves the references alone.
\<close>

definition pushref_ok :: "('s \<Rightarrow> bool) \<Rightarrow> ('s \<Rightarrow> descriptor \<Rightarrow> bytes option) \<Rightarrow> 's target \<Rightarrow> bool" where
  "pushref_ok iv content dst \<longleftrightarrow> (\<forall>push s d rd r x s'. tg_PushReference dst = Some push \<and> iv s
     \<and> push s d rd r = (x, s') \<and> snd (rd_stream rd) \<noteq> ErrAlreadyExists \<longrightarrow>
       iv s' \<and> adds content d s s' \<and> x \<noteq> Inl SkipNode \<and> x \<noteq> Inl skipSource
       \<and> (if x = Inr () \<or> x = Inl ErrAlreadyExists then content s' d \<noteq> None \<and> tagged (tg_Resolve dst) r d s'
          else tg_Resolve dst s' = tg_Resolve dst s))"

text \<open>
  The hooks keep the contract of the graph copy, the reference that \<^verbatim>\<open>Copy\<close> has set and do not ask
  to skip the root. A root that is not a manifest is not mounted.
\<close>

definition copy_input_ok :: "('s \<Rightarrow> bool) \<Rightarrow> ('s \<Rightarrow> descriptor \<Rightarrow> bytes option) \<Rightarrow> source \<Rightarrow> 's target \<Rightarrow>
    string \<Rightarrow> descriptor \<Rightarrow> 's copy_opts \<Rightarrow> bool" where
  "copy_input_ok iv content src dst ref root opts \<longleftrightarrow>
     (let T = (\<lambda>s. iv s \<and> tagged (tg_Resolve dst) ref root s)
      in env_ok iv content \<lparr>ce_src = so_Fetch src, ce_src_exists = so_Exists src, ce_dst = tg_storage dst,
           ce_mounter = tg_Mount dst, ce_opts = opts\<rparr>
       \<and> hook_keeps T (PreCopy opts) \<and> hook_keeps T (PostCopy opts) \<and> hook_keeps T (OnCopySkipped opts)
       \<and> hook_keeps T (OnMounted opts) \<and> mount_keeps T (tg_Mount dst) \<and> pushref_ok iv content dst
       \<and> (\<forall>f c d s. PreCopy opts = Some f \<and> Equal d root \<longrightarrow> fst (f c d s) \<noteq> Some SkipNode)
       \<and> (\<forall>d. so_Fetch src d \<noteq> Inl SkipNode)
       \<and> FindSuccessors opts = None \<and> (IsManifest root \<or> MountFrom opts = None))"

lemma run_hook_keeps: "\<lbrakk>hook_keeps T h; T s; run_hook h c d s = (e, s')\<rbrakk> \<Longrightarrow> T s'"
  unfolding hook_keeps_def run_hook_def by (cases h) (auto, metis snd_conv)

lemma copy_inputD:
  assumes "copy_input_ok iv content src dst ref root opts"
  defines "T \<equiv> \<lambda>s. iv s \<and> tagged (tg_Resolve dst) ref root s"
  shows "env_ok iv content \<lparr>ce_src = so_Fetch src, ce_src_exists = so_Exists src, ce_dst = tg_storage dst,
           ce_mounter = tg_Mount dst, ce_opts = opts\<rparr>"
    "hook_keeps T (PreCopy opts)" "hook_keeps T (PostCopy opts)" "hook_keeps T (OnCopySkipped opts)"
    "hook_keeps T (OnMounted opts)" "mount_keeps T (tg_Mount dst)" "pushref_ok iv content dst"
    "\<lbrakk>Equal d root; run_hook (PreCopy opts) c d s = (e, s')\<rbrakk> \<Longrightarrow> e \<noteq> Some SkipNode"
    "FindSuccessors opts = None" "IsManifest root \<or> MountFrom opts = None" "so_Fetch src d \<noteq> Inl SkipNode"
proof -
  note a = assms(1) [unfolded copy_input_ok_def Let_def, folded T_def]
  show "env_ok iv content \<lparr>ce_src = so_Fetch src, ce_src_exists = so_Exists src, ce_dst = tg_storage dst,
           ce_mounter = tg_Mount dst, ce_opts = opts\<rparr>"
    "hook_keeps T (PreCopy opts)" "hook_keeps T (PostCopy opts)" "hook_keeps T (OnCopySkipped opts)"
    "hook_keeps T (OnMounted opts)" "mount_keeps T (tg_Mount dst)" "pushref_ok iv content dst"
    "FindSuccessors opts = None" "so_Fetch src d \<noteq> Inl SkipNode"
    using a by blast+
  from a show "IsManifest root \<or> MountFrom opts = None" by (elim conjE)
  show "e \<noteq> Some SkipNode" if "Equal d root" "run_hook (PreCopy opts) c d s = (e, s')"
  proof (cases "PreCopy opts")
    case None
    with that show ?thesis by (simp add: run_hook_def)
  next
    case (Some f)
    with a that(1) have "fst (f c d s) \<noteq> Some SkipNode" by blast
    with that(2) Some show ?thesis by (auto simp: run_hook_def)
  qed
qed

section \<open>The prepared hooks\<close>

lemma FetchCached_eq:
  "FetchCached (copy_proxy P so opts) c d = (case c (FromOCI d) of
     None \<Rightarrow> so_Fetch so d | Some b \<Rightarrow> Inr (bytes_reader b))"
  by (cases "c (FromOCI d)")
    (simp_all add: FetchCached_def copy_proxy_eq NewProxyWithLimit_def NewProxy_def mem_storage_def mem_Exists_def
      mem_Fetch_def)

lemma FetchCached_cases:
  assumes "FetchCached (copy_proxy P so opts) c d = x"
  obtains "so_Fetch so d = x" | b where "x = Inr (bytes_reader b)"
  using assms by (auto simp: FetchCached_eq split: option.splits)

text \<open>Pushing a cached node with a reference.\<close>

lemma pushref_hook:
  assumes "copy_input_ok iv content so dst ref root opts" "tg_PushReference dst = Some push" "iv s"
    and "copyCachedNodeWithReference (copy_proxy P so opts) push c d r s = (e, s')"
  shows "iv s' \<and> adds content d s s' \<and> e \<noteq> Some SkipNode \<and> e \<noteq> Some skipSource
     \<and> (if e = None then content s' d \<noteq> None \<and> tagged (tg_Resolve dst) r d s'
        else tg_Resolve dst s' = tg_Resolve dst s)"
proof -
  note D = copy_inputD [OF assms(1)]
  note E = env_okD(7,8) [OF D(1), of d, simplified]
  show ?thesis
  proof (cases "FetchCached (copy_proxy P so opts) c d")
    case (Inl err)
    then have "so_Fetch so d = Inl err" by (cases rule: FetchCached_cases) auto
    with Inl assms(3,4) E(1) D(11) [of d] show ?thesis
      by (auto simp: copyCachedNodeWithReference_def adds_refl)
  next
    case (Inr rc)
    then have "snd (rd_stream rc) \<noteq> ErrAlreadyExists"
      by (cases rule: FetchCached_cases) (use E(2) in auto)
    moreover obtain x s1 where p: "push s d rc r = (x, s1)" by (cases "push s d rc r")
    ultimately have "iv s1 \<and> adds content d s s1 \<and> x \<noteq> Inl SkipNode \<and> x \<noteq> Inl skipSource
       \<and> (if x = Inr () \<or> x = Inl ErrAlreadyExists then content s1 d \<noteq> None \<and> tagged (tg_Resolve dst) r d s1
          else tg_Resolve dst s1 = tg_Resolve dst s)"
      using D(7) assms(2,3) unfolding pushref_ok_def by blast
    with assms(4) Inr p show ?thesis
      by (cases x) (auto simp: copyCachedNodeWithReference_def split: if_splits)
  qed
qed

lemma tagged_cong: "tg_Resolve dst s' = tg_Resolve dst s \<Longrightarrow> tagged (tg_Resolve dst) r d s' = tagged (tg_Resolve dst) r d s"
  by (simp add: tagged_def)

lemma tagged_Equal: "\<lbrakk>tagged f r d s; Equal d d'\<rbrakk> \<Longrightarrow> tagged f r d' s"
  unfolding tagged_def using Equal_trans by blast

lemma push_PreCopy_cases:
  assumes "push_PreCopy px push ref root opts c d s = (e, s')"
  obtains (user) e' where "run_hook (PreCopy opts) c d s = (Some e', s')" "e = Some e'"
    | (other) "run_hook (PreCopy opts) c d s = (None, s')" "\<not> Equal d root" "e = None"
    | (fail) e' s1 where "run_hook (PreCopy opts) c d s = (None, s1)" "Equal d root"
        "copyCachedNodeWithReference px push c d ref s1 = (Some e', s')" "e = Some e'"
    | (pushed) e' s1 s2 where "run_hook (PreCopy opts) c d s = (None, s1)" "Equal d root"
        "copyCachedNodeWithReference px push c d ref s1 = (None, s2)" "run_hook (PostCopy opts) c d s2 = (e', s')"
        "e = (case e' of None \<Rightarrow> Some SkipNode | Some e' \<Rightarrow> Some e')"
proof -
  obtain e1 s1 where 1: "run_hook (PreCopy opts) c d s = (e1, s1)" by (cases "run_hook (PreCopy opts) c d s")
  obtain e2 s2 where 2: "copyCachedNodeWithReference px push c d ref s1 = (e2, s2)"
    by (cases "copyCachedNodeWithReference px push c d ref s1")
  obtain e3 s3 where 3: "run_hook (PostCopy opts) c d s2 = (e3, s3)" by (cases "run_hook (PostCopy opts) c d s2")
  show thesis
    using assms that 1 2 3 unfolding push_PreCopy_def
    by (cases e1; cases e2; cases e3) (auto split: if_splits)
qed

lemma push_PreCopy_ok:
  assumes "copy_input_ok iv content so dst ref root opts" "tg_PushReference dst = Some push" "iv s"
    and "push_PreCopy (copy_proxy P so opts) push ref root opts c d s = (e, s')"
  shows "iv s' \<and> adds content d s s' \<and> e \<noteq> Some skipSource \<and> (e = Some SkipNode \<longrightarrow> content s' d \<noteq> None)
     \<and> (tagged (tg_Resolve dst) ref root s \<longrightarrow> tagged (tg_Resolve dst) ref root s')
     \<and> (Equal d root \<longrightarrow> e \<noteq> None \<and> (e = Some SkipNode \<longrightarrow> tagged (tg_Resolve dst) ref root s'))"
proof -
  note D = copy_inputD [OF assms(1)]
  note E = env_okD(1-3) [OF D(1), simplified]
  note pre = run_hook_ok [OF E(1) assms(3)] and post = run_hook_ok [OF E(3)]
  show ?thesis
    using assms(4)
  proof (cases rule: push_PreCopy_cases)
    case (user e')
    then show ?thesis
      using pre [OF user(1)] run_hook_skip [OF E(2) assms(3), of c d s'] run_hook_keeps [OF D(2) _ user(1)] assms(3)
        D(8) [OF _ user(1)] by auto
  next
    case other
    then show ?thesis using pre [OF other(1)] run_hook_keeps [OF D(2) _ other(1)] assms(3) by auto
  next
    case (fail e' s1)
    note H = pre [OF fail(1)]
    note R = pushref_hook [OF assms(1,2) H(1) fail(3)]
    show ?thesis
      using R H fail run_hook_keeps [OF D(2) _ fail(1)] assms(3) adds_trans [OF H(2)] tagged_cong [of dst s' s1]
      by auto
  next
    case (pushed e' s1 s2)
    note H = pre [OF pushed(1)]
    note R = pushref_hook [OF assms(1,2) H(1) pushed(3)]
    then have s2: "iv s2" "adds content d s1 s2" "content s2 d \<noteq> None" "tagged (tg_Resolve dst) ref root s2"
      using tagged_Equal pushed(2) by auto
    note Q = post [OF s2(1) pushed(4)]
    have "tagged (tg_Resolve dst) ref root s'" using run_hook_keeps [OF D(3) _ pushed(4)] s2 by blast
    then show ?thesis
      using Q pushed(5) adds_trans [OF adds_trans [OF H(2) s2(2)] Q(2)] adds_mono [OF Q(2) s2(3)]
      by (cases e') (auto simp: skipSource_def)
  qed
qed

text \<open>A predicate on the destination that pushes, hooks and mounting keep is kept by copying a node.\<close>

lemma copyNode_keeps:
  assumes "T s" "\<And>s rd. T s \<Longrightarrow> T (snd (st_Push dst s d rd))"
    and h: "hook_keeps T (PreCopy opts)" "hook_keeps T (PostCopy opts)"
    and "copyNode fetch dst opts c d s = (x, s')"
  shows "T s'"
proof -
  obtain e1 s1 where 1: "run_hook (PreCopy opts) c d s = (e1, s1)" by (cases "run_hook (PreCopy opts) c d s")
  obtain y s2 where 2: "doCopyNode fetch dst d s1 = (y, s2)" by (cases "doCopyNode fetch dst d s1")
  obtain e3 s3 where 3: "run_hook (PostCopy opts) c d s2 = (e3, s3)" by (cases "run_hook (PostCopy opts) c d s2")
  have T1: "T s1" by (rule run_hook_keeps [OF h(1) assms(1) 1])
  have "s2 = s1 \<or> (\<exists>rd z. st_Push dst s1 d rd = (z, s2))"
    using 2 by (auto simp: doCopyNode_def split: sum.splits prod.splits if_splits)
  with T1 assms(2) [OF T1] have T2: "T s2" by (metis snd_conv)
  have T3: "T s3" by (rule run_hook_keeps [OF h(2) T2 3])
  show ?thesis using assms(5) 1 2 3 T1 T2 T3
    by (cases e1; cases y; cases e3) (auto simp: copyNode_def split: if_splits)
qed

lemma mount_loop_keeps:
  assumes h: "hook_keeps T (PreCopy (ce_opts E))" "hook_keeps T (PostCopy (ce_opts E))"
      "hook_keeps T (OnMounted (ce_opts E))" "mount_keeps T (Some f)"
  shows "\<lbrakk>T s; mount_loop E c f d rs s = (x, s')\<rbrakk> \<Longrightarrow> T s'"
proof (induction rs arbitrary: s)
  case Nil
  obtain e1 s1 where 1: "run_hook (PostCopy (ce_opts E)) c d s = (e1, s1)" by (cases "run_hook (PostCopy (ce_opts E)) c d s")
  with Nil(2) run_hook_keeps [OF h(2) Nil(1) 1] show ?case by (cases e1) auto
next
  case (Cons r rest)
  have m: "case f s d r of Mounted s' \<Rightarrow> T s' | MountFailed e s' \<Rightarrow> T s' | MountContent k \<Rightarrow> \<forall>c s. T s \<longrightarrow> T (snd (k c s))"
    using h(4) Cons.prems(1) unfolding mount_keeps_def by blast
  have mounted: "T s'" if "T s1" "(case run_hook (OnMounted (ce_opts E)) c d s1 of
      (Some e, s) \<Rightarrow> (Inl e, s) | (None, s) \<Rightarrow> (Inr (), s)) = (x, s')" for s1
  proof -
    obtain e2 s2 where 2: "run_hook (OnMounted (ce_opts E)) c d s1 = (e2, s2)"
      by (cases "run_hook (OnMounted (ce_opts E)) c d s1")
    with that(2) run_hook_keeps [OF h(3) that(1) 2] show ?thesis by (cases e2) auto
  qed
  show ?case
  proof (cases "f s d r")
    case (Mounted s1)
    with m mounted [of s1] Cons.prems(2) show ?thesis by simp
  next
    case (MountFailed e s1)
    with m mounted [of s1] Cons.prems(2) show ?thesis by (auto split: if_splits)
  next
    case (MountContent k)
    obtain ct s1 where c: "(if rest \<noteq> [] then (Inl skipSource, s)
         else case run_hook (PreCopy (ce_opts E)) c d s of
           (Some e, s) \<Rightarrow> (Inl e, s) | (None, s) \<Rightarrow> (ce_src E d, s)) = (ct, s1)" by fastforce
    obtain e0 s0 where 0: "run_hook (PreCopy (ce_opts E)) c d s = (e0, s0)" by (cases "run_hook (PreCopy (ce_opts E)) c d s")
    have "T s1" using c 0 run_hook_keeps [OF h(1) Cons.prems(1) 0] Cons.prems(1)
      by (cases e0) (auto split: if_splits)
    moreover obtain y s2 where k: "k ct s1 = (y, s2)" by (cases "k ct s1")
    ultimately have T2: "T s2" using m MountContent by (simp, metis snd_conv)
    have "mount_loop E c f d (r # rest) s = (case k ct s1 of
        (Inl e, s) \<Rightarrow> if e \<noteq> skipSource then (Inl e, s) else mount_loop E c f d rest s
      | (Inr _, s) \<Rightarrow> mount_loop E c f d rest s)"
      using MountContent c by (simp add: Let_def)
    with Cons.prems(2) k T2 Cons.IH [OF T2] show ?thesis by (cases y) (auto split: if_splits)
  qed
qed

lemma cg_copy_keeps:
  assumes "T s" "\<And>s rd. T s \<Longrightarrow> T (snd (st_Push (ce_dst E) s d rd))"
    and h: "hook_keeps T (PreCopy (ce_opts E))" "hook_keeps T (PostCopy (ce_opts E))"
      "hook_keeps T (OnMounted (ce_opts E))" "mount_keeps T (ce_mounter E)"
    and "cg_copy P E c d s = (x, s')"
  shows "T s'"
proof -
  consider fetch where "copyNode fetch (ce_dst E) (ce_opts E) c d s = (x, s')" | "s' = s"
    | f rs where "ce_mounter E = Some f" "mount_loop E c f d rs s = (x, s')"
    using assms(7)
    by (auto simp: cg_copy_def mountOrCopyNode_def Let_def split: sum.splits bool.splits option.splits if_splits)
  then show ?thesis
  proof cases
    case 1
    show ?thesis by (rule copyNode_keeps [where T = T, OF assms(1,2) h(1,2) 1])
  next
    case (3 f rs)
    then show ?thesis using mount_loop_keeps [OF h(1-3) _ assms(1) 3(2)] h(4) by simp
  qed (use assms(1) in simp)
qed

lemma res_err_cases:
  assumes "res_err x = (e, s)"
  obtains "x = (Inr (), s)" "e = None" | e' where "x = (Inl e', s)" "e = Some e'"
  using assms by (auto simp: res_err_def split: prod.splits sum.splits)

lemma prepareCopy_sel [simp]:
  "MaxMetadataBytes (prepareCopy px dst ref root opts) = MaxMetadataBytes opts"
  "MountFrom (prepareCopy px dst ref root opts) = MountFrom opts"
  "OnMounted (prepareCopy px dst ref root opts) = OnMounted opts"
  "FindSuccessors (prepareCopy px dst ref root opts) = FindSuccessors opts"
  "OnCopySkipped (prepareCopy px dst ref root opts) = Some (root_OnCopySkipped px dst ref root opts)"
  "PreCopy (prepareCopy px dst ref root opts) = (case tg_PushReference dst of
     None \<Rightarrow> PreCopy opts | Some push \<Rightarrow> Some (push_PreCopy px push ref root opts))"
  "PostCopy (prepareCopy px dst ref root opts) = (case tg_PushReference dst of
     None \<Rightarrow> Some (tag_PostCopy (tg_Tag dst) ref root opts) | Some push \<Rightarrow> PostCopy opts)"
  by (simp_all add: prepareCopy_def Let_def split: option.splits)

context tag_store
begin

lemma res_tag_ok:
  assumes "inv s" "res_err (tag s root ref) = (e, s')"
  shows "inv s'" "adds content d s s'" "e \<noteq> Some skipSource" "e = None \<Longrightarrow> tagged resolve ref root s'"
    "tagged resolve ref root s \<Longrightarrow> tagged resolve ref root s'"
proof -
  have "inv s' \<and> content s' = content s"
    using assms(2)
    by (cases rule: res_err_cases)
      (use tag_inv [OF assms(1), of root ref] tag_content [OF assms(1), of root ref] in auto)
  then show "inv s'" "adds content d s s'" by (auto simp: adds_def)
  show "e = None \<Longrightarrow> tagged resolve ref root s'"
    using assms(2) by (cases rule: res_err_cases) (use tag_ok [OF assms(1)] in \<open>auto simp: tagged_def\<close>)
  show "e \<noteq> Some skipSource"
    using assms(2) by (cases rule: res_err_cases) (use tag_err [OF assms(1)] in \<open>auto simp: skipSource_def\<close>)
  show "tagged resolve ref root s \<Longrightarrow> tagged resolve ref root s'"
    using assms(2)
  proof (cases rule: res_err_cases)
    case 1
    then show ?thesis using tag_ok [OF assms(1)] by (auto simp: tagged_def)
  next
    case (2 e')
    then show "tagged resolve ref root s \<Longrightarrow> ?thesis" using tag_err [OF assms(1) 2(1)] by simp
  qed
qed

lemma tag_PostCopy_ok:
  assumes "copy_input_ok inv content so dst ref root opts" "tg_Resolve dst = resolve" "inv s"
    and "tag_PostCopy tag ref root opts c d s = (e, s')"
  shows "inv s' \<and> adds content d s s' \<and> e \<noteq> Some skipSource
     \<and> (tagged resolve ref root s \<longrightarrow> tagged resolve ref root s')
     \<and> (Equal d root \<and> e = None \<longrightarrow> tagged resolve ref root s')"
proof -
  note D = copy_inputD [OF assms(1), unfolded assms(2)]
  note post = run_hook_ok [OF env_okD(3) [OF D(1), simplified]] and keep = run_hook_keeps [OF D(3)]
  show ?thesis
  proof (cases "Equal d root")
    case False
    then have "run_hook (PostCopy opts) c d s = (e, s')" using assms(4) by (simp add: tag_PostCopy_def)
    with post [OF assms(3) this] keep [OF _ this] assms(3) False show ?thesis by blast
  next
    case True
    obtain e1 s1 where 1: "res_err (tag s root ref) = (e1, s1)" by (cases "res_err (tag s root ref)")
    note R = res_tag_ok [OF assms(3) 1]
    show ?thesis
    proof (cases e1)
      case (Some e2)
      with assms(4) True 1 R show ?thesis by (auto simp: tag_PostCopy_def)
    next
      case None
      then have h: "run_hook (PostCopy opts) c d s1 = (e, s')" using assms(4) True 1 by (simp add: tag_PostCopy_def)
      note Q = post [OF R(1) h]
      have "tagged resolve ref root s'" using keep [OF _ h] R(1,4) None by blast
      with Q adds_trans [OF R(2) Q(2)] show ?thesis by blast
    qed
  qed
qed

lemma root_OnCopySkipped_ok:
  assumes "copy_input_ok inv content so dst ref root opts" "tg_Resolve dst = resolve" "tg_Tag dst = tag" "inv s"
    and "root_OnCopySkipped (copy_proxy P so opts) dst ref root opts c d s = (e, s')"
  shows "inv s' \<and> adds content d s s' \<and> e \<noteq> Some skipSource
     \<and> (tagged resolve ref root s \<longrightarrow> tagged resolve ref root s')
     \<and> (Equal d root \<and> e = None \<longrightarrow> tagged resolve ref root s')"
proof -
  note D = copy_inputD [OF assms(1), unfolded assms(2)]
  note skip = run_hook_ok [OF env_okD(4) [OF D(1), simplified]] and keep = run_hook_keeps [OF D(4)]
  obtain e1 s1 where 1: "run_hook (OnCopySkipped opts) c d s = (e1, s1)"
    by (cases "run_hook (OnCopySkipped opts) c d s")
  note H = skip [OF assms(4) 1] and K = keep [OF _ 1]
  show ?thesis
  proof (cases "Equal d root")
    case False
    with assms(5) 1 H K assms(4) show ?thesis by (auto simp: root_OnCopySkipped_def)
  next
    case True
    show ?thesis
    proof (cases "tg_PushReference dst")
      case (Some push)
      with assms(5) True have "copyCachedNodeWithReference (copy_proxy P so opts) push c d ref s = (e, s')"
        by (simp add: root_OnCopySkipped_def)
      from pushref_hook [OF assms(1) Some assms(4) this, unfolded assms(2)] True show ?thesis
        by (cases e) (auto simp: tagged_def intro: Equal_trans)
    next
      case None
      show ?thesis
      proof (cases e1)
        case (Some e2)
        with assms(4,5) 1 True None H K show ?thesis by (auto simp: root_OnCopySkipped_def)
      next
        case n: None
        then have r: "res_err (tag s1 root ref) = (e, s')"
          using assms(3,5) 1 True None by (simp add: root_OnCopySkipped_def)
        note R = res_tag_ok [OF H(1) r]
        show ?thesis using R K assms(4) adds_trans [OF H(2) R(2)] by blast
      qed
    qed
  qed
qed

lemma prepared_env_ok:
  assumes "copy_input_ok inv content so dst ref root opts" "tg_Resolve dst = resolve" "tg_Tag dst = tag"
  shows "env_ok inv content (copy_env_of (copy_proxy P so opts) so dst ref root opts)"
proof -
  note D = copy_inputD [OF assms(1)]
  note E = env_okD [OF D(1), simplified]
  let ?opts = "prepareCopy (copy_proxy P so opts) dst ref root opts"
  have pre: "hook_ok inv content (PreCopy ?opts) \<and> skip_ok inv content (PreCopy ?opts)"
  proof (cases "tg_PushReference dst")
    case None
    with E(1,2) show ?thesis by simp
  next
    case (Some push)
    show ?thesis
      unfolding hook_ok_def skip_ok_def prepareCopy_sel Some by (auto dest: push_PreCopy_ok [OF assms(1) Some])
  qed
  have post: "hook_ok inv content (PostCopy ?opts)"
  proof (cases "tg_PushReference dst")
    case None
    show ?thesis
      unfolding hook_ok_def prepareCopy_sel None assms(3) by (auto dest: tag_PostCopy_ok [OF assms(1,2)])
  next
    case (Some push)
    with E(3) show ?thesis by simp
  qed
  have skip: "hook_ok inv content (OnCopySkipped ?opts)"
    unfolding hook_ok_def prepareCopy_sel by (auto dest: root_OnCopySkipped_ok [OF assms])
  show ?thesis
    unfolding env_ok_def using pre post skip E(5-8) by (simp add: copy_env_of_def del: prepareCopy_sel(5-7))
qed

lemma prepared_keeps:
  assumes "copy_input_ok inv content so dst ref root opts" "tg_Resolve dst = resolve" "tg_Tag dst = tag"
  defines "T \<equiv> \<lambda>s. inv s \<and> tagged resolve ref root s"
    and "opts' \<equiv> prepareCopy (copy_proxy P so opts) dst ref root opts"
  shows "hook_keeps T (PreCopy opts')" "hook_keeps T (PostCopy opts')" "hook_keeps T (OnCopySkipped opts')"
proof -
  note D = copy_inputD(2-4) [OF assms(1), unfolded assms(2), folded T_def]
  show "hook_keeps T (PreCopy opts')"
  proof (cases "tg_PushReference dst")
    case None
    with D(1) show ?thesis by (simp add: opts'_def)
  next
    case (Some push)
    show ?thesis
      unfolding hook_keeps_def opts'_def prepareCopy_sel Some T_def
      using push_PreCopy_ok [OF assms(1) Some _ prod.collapse [symmetric], unfolded assms(2)] by simp
  qed
  show "hook_keeps T (PostCopy opts')"
  proof (cases "tg_PushReference dst")
    case None
    show ?thesis
      unfolding hook_keeps_def opts'_def prepareCopy_sel None T_def assms(3)
      using tag_PostCopy_ok [OF assms(1,2) _ prod.collapse [symmetric]] by simp
  next
    case (Some push)
    with D(2) show ?thesis by (simp add: opts'_def)
  qed
  show "hook_keeps T (OnCopySkipped opts')"
    unfolding hook_keeps_def opts'_def prepareCopy_sel T_def
    using root_OnCopySkipped_ok [OF assms(1-3) _ prod.collapse [symmetric]] by simp
qed

text \<open>Copying the root sets the reference.\<close>

lemma copyNode_root:
  assumes "copy_input_ok inv content so dst ref root opts" "tg_Resolve dst = resolve" "tg_Tag dst = tag"
    and "inv s" "Equal d root" "\<And>rc. fetch d = Inr rc \<Longrightarrow> snd (rd_stream rc) \<noteq> ErrAlreadyExists"
    and "copyNode fetch st (prepareCopy (copy_proxy P so opts) dst ref root opts) c d s = (Inr (), s')"
  shows "tagged resolve ref root s'"
proof -
  note D = copy_inputD [OF assms(1)]
  show ?thesis
  proof (cases "tg_PushReference dst")
    case (Some push)
    obtain e s1 where 1: "push_PreCopy (copy_proxy P so opts) push ref root opts c d s = (e, s1)"
      by (cases "push_PreCopy (copy_proxy P so opts) push ref root opts c d s")
    from push_PreCopy_ok [OF assms(1) Some assms(4) 1, unfolded assms(2)] assms(5)
    have "e \<noteq> None" "e = Some SkipNode \<Longrightarrow> tagged resolve ref root s1" by blast+
    with assms(7) Some 1 show ?thesis by (auto simp: copyNode_def run_hook_def split: if_splits)
  next
    case None
    obtain e1 s1 where 1: "run_hook (PreCopy opts) c d s = (e1, s1)" by (cases "run_hook (PreCopy opts) c d s")
    obtain y s2 where 2: "doCopyNode fetch st d s1 = (y, s2)" by (cases "doCopyNode fetch st d s1")
    obtain e3 s3 where 3: "tag_PostCopy tag ref root opts c d s2 = (e3, s3)" by (cases "tag_PostCopy tag ref root opts c d s2")
    have "e1 \<noteq> Some SkipNode" by (rule D(8) [OF assms(5) 1])
    with assms(7) None 1 2 3 have "e3 = None" "s' = s3"
      by (auto simp: copyNode_def run_hook_def assms(3) split: option.splits if_splits sum.splits)
    moreover have "inv s1" by (rule run_hook_ok(1) [OF env_okD(1) [OF D(1), simplified] assms(4) 1])
    then have "inv s2" using doCopyNode_ok(1) [OF _ 2 assms(6)] by blast
    ultimately show ?thesis using tag_PostCopy_ok [OF assms(1,2) _ 3] assms(5) by blast
  qed
qed

lemma cg_copy_root:
  assumes "copy_input_ok inv content so dst ref root opts" "tg_Resolve dst = resolve" "tg_Tag dst = tag" "tg_storage dst = st"
    and "inv s" "Equal d root"
    and "cg_copy P (copy_env_of (copy_proxy P so opts) so dst ref root opts) c d s = (Inr (), s')"
  shows "tagged resolve ref root s'"
proof -
  let ?E = "copy_env_of (copy_proxy P so opts) so dst ref root opts"
  note D = copy_inputD [OF assms(1)]
  have m: "IsManifest d = IsManifest root" using assms(6) by (simp add: Equal_def IsManifest_def)
  have "mountOrCopyNode ?E c d s = copyNode (so_Fetch so) st (ce_opts ?E) c d s"
    using D(10) m assms(4) by (auto simp: mountOrCopyNode_def copy_env_of_def Let_def split: option.splits)
  then obtain fetch where f: "copyNode fetch st (ce_opts ?E) c d s = (Inr (), s')"
    "fetch = so_Fetch so \<or> fetch = st_Fetch (px_Cache (ce_proxy P ?E)) c"
    using assms(4,7) by (auto simp: cg_copy_def Let_def copy_env_of_def split: sum.splits bool.splits)
  have "snd (rd_stream rc) \<noteq> ErrAlreadyExists" if "fetch d = Inr rc" for rc
    using f(2) that env_okD(8) [OF D(1), of d rc]
    by (auto simp: ce_proxy_def NewProxyWithLimit_def NewProxy_def Let_def mem_storage_def mem_Fetch_def
        split: option.splits)
  from copyNode_root [OF assms(1-3,5,6) this] f(1) show ?thesis by (simp add: copy_env_of_def)
qed

lemma step_tagged:
  assumes "copy_input_ok inv content so dst ref root opts" "tg_Resolve dst = resolve" "tg_Tag dst = tag" "tg_storage dst = st"
    and H: "\<forall>d. typed ty d \<and> Digest d = ref \<longrightarrow> Equal d root"
    and safe: "cg_safe P ty inv content s0 \<sigma>"
  defines "E \<equiv> copy_env_of (copy_proxy P so opts) so dst ref root opts"
  assumes "cg_step P E \<sigma> \<sigma>'" "FromOCI root \<in> cg_done \<sigma> \<longrightarrow> tagged resolve ref root (cg_dst \<sigma>)"
  shows "FromOCI root \<in> cg_done \<sigma>' \<longrightarrow> tagged resolve ref root (cg_dst \<sigma>')"
  using assms(8)
proof cases
  case (cancel xs t ys \<sigma>1)
  with assms(9) show ?thesis by (simp split: if_splits)
next
  case (run xs t ys ts \<sigma>1)
  define T where "T \<equiv> \<lambda>s. inv s \<and> tagged resolve ref root s"
  note S = cg_safeD [OF safe]
  note D = copy_inputD(5,6) [OF assms(1), unfolded assms(2), folded T_def]
  note K = prepared_keeps [OF assms(1-3), folded T_def]
  have sel: "ce_opts E = prepareCopy (copy_proxy P so opts) dst ref root opts" "ce_dst E = st" "ce_mounter E = tg_Mount dst"
    by (simp_all add: E_def copy_env_of_def assms(4))
  have push: "T (snd (st_Push st s d rd))" if Ts: "T s" "typed ty d" for s d rd
  proof -
    have s: "inv s" using Ts(1) by (simp add: T_def)
    obtain x where x: "resolve s ref = Inr x" "Equal x root" using Ts(1) by (auto simp: T_def tagged_def)
    from push_resolve [OF s x(1), of d rd] H Ts(2) x(2) Equal_trans
    have "tagged resolve ref root (snd (st_Push st s d rd))" unfolding tagged_def by metis
    with store_inv [OF s] show ?thesis by (simp add: T_def)
  qed
  from run(3) have "FromOCI root \<in> cg_done \<sigma>1 \<longrightarrow> tagged resolve ref root (cg_dst \<sigma>1)"
  proof (cases rule: cg_task_dst)
    case none
    with assms(9) show ?thesis by simp
  next
    case (skipped d e)
    then have h: "root_OnCopySkipped (copy_proxy P so opts) dst ref root opts (cg_cache \<sigma>) d (cg_dst \<sigma>) = (e, cg_dst \<sigma>1)"
      by (simp add: sel(1) run_hook_def)
    from root_OnCopySkipped_ok [OF assms(1-3) S(1) h] skipped(3) assms(9) show ?thesis
      by (auto simp: FromOCI_eq_iff dest: Equal_sym split: if_splits)
  next
    case (copied d y)
    then have c: "cg_copy P E (cg_cache \<sigma>) d (cg_dst \<sigma>) = (y, cg_dst \<sigma>1)" by simp
    have d: "typed ty d" using S(4) [of t] run(2) copied(1) by simp
    have "T (cg_dst \<sigma>1)" if "T (cg_dst \<sigma>)"
      by (rule cg_copy_keeps [where T = T, OF that _ _ _ _ _ c]) (use push d K D in \<open>simp_all add: sel del: prepareCopy_sel(5-7)\<close>)
    moreover have "tagged resolve ref root (cg_dst \<sigma>1)" if "y = Inr ()" "Equal d root"
      using cg_copy_root [OF assms(1-4) S(1) that(2)] c that(1) unfolding E_def by blast
    ultimately show ?thesis using copied(3) assms(9) S(1)
      by (auto simp: FromOCI_eq_iff T_def dest: Equal_sym split: if_splits)
  qed
  with run(1) show ?thesis by simp
qed

lemma steps_tagged:
  assumes "copy_input_ok inv content so dst ref root opts" "tg_Resolve dst = resolve" "tg_Tag dst = tag" "tg_storage dst = st"
    and H: "\<forall>d. typed ty d \<and> Digest d = ref \<longrightarrow> Equal d root"
    and E: "consistent P ty" "E = copy_env_of (copy_proxy P so opts) so dst ref root opts"
    and start: "inv s" "mem_inv P c" "copy_closed P ty (content s)" "typed ty root"
    and "(cg_step P E)\<^sup>*\<^sup>* (cg_init E [root] c s) \<sigma>"
  shows "copy_env_ok P ty inv content E \<and> cg_safe P ty inv content s \<sigma>
     \<and> (FromOCI root \<in> cg_done \<sigma> \<longrightarrow> tagged resolve ref root (cg_dst \<sigma>))"
proof -
  have ok: "copy_env_ok P ty inv content E"
    using prepared_env_ok [OF assms(1-3)] E copy_inputD(9) [OF assms(1)]
    by (simp add: copy_env_ok_def copy_env_of_def)
  have st: "ce_dst E = st" by (simp add: E(2) copy_env_of_def assms(4))
  have safe0: "cg_safe P ty inv content s (cg_init E [root] c s)"
    using start by (intro cg_init_safe) auto
  from assms(12) have "cg_safe P ty inv content s \<sigma> \<and> (FromOCI root \<in> cg_done \<sigma> \<longrightarrow> tagged resolve ref root (cg_dst \<sigma>))"
  proof (induction rule: rtranclp_induct)
    case base
    with safe0 show ?case by (simp add: cg_init_def)
  next
    case (step \<sigma>1 \<sigma>2)
    with step_safe [OF ok st step(2)] step_tagged [OF assms(1-4) H _ step(2) [unfolded E(2)]] show ?case by blast
  qed
  with ok show ?thesis by blast
qed

end

section \<open>A concrete copy\<close>

definition demo_source :: source where
  "demo_source = \<lparr>so_Fetch = demo_fetch, so_Exists = (\<lambda>_. Inr True),
     so_Resolve = (\<lambda>r. if r = ''v1'' then Inr demo_manifest else Inl ErrNotFound), so_FetchReference = None\<rparr>"

definition demo_target :: "mstore target" where
  "demo_target = \<lparr>tg_storage = ms_target demo_graph_ext, tg_Resolve = ms_Resolve, tg_Tag = ms_Tag,
     tg_PushReference = None, tg_Mount = None\<rparr>"

definition demo_Copy_env :: "mstore copy_env" where
  "demo_Copy_env = copy_env_of (copy_proxy demo_graph_ext demo_source (DefaultCopyGraphOptions :: mstore copy_opts)) demo_source demo_target
     ''v1'' demo_manifest DefaultCopyGraphOptions"

definition demo_Copy :: "mstore cg_state" where
  "demo_Copy = cg_run 20 demo_graph_ext demo_Copy_env (cg_init demo_Copy_env [demo_manifest] mem_New ms_New)"

lemma demo_Copy_end: "cg_tasks demo_Copy = []" "cg_err demo_Copy = None"
  by code_simp+

lemma demo_Copy_start:
  "Copy_start demo_graph_ext (Some demo_source) ''v1'' (Some demo_target) [] DefaultCopyOptions
     = Inr (demo_manifest, demo_Copy_env, mem_New)"
  by (simp add: Copy_start_def resolveRoot_def DefaultCopyOptions_def demo_Copy_env_def)
    (simp add: demo_source_def)

lemma demo_Copy_run:
  "Copy demo_graph_ext (Some demo_source) ''v1'' (Some demo_target) [] DefaultCopyOptions ms_New
     (Inr demo_manifest) (cg_dst demo_Copy)"
proof (rule Copy.copied [OF demo_Copy_start])
  show "(cg_step demo_graph_ext demo_Copy_env)\<^sup>*\<^sup>* (cg_init demo_Copy_env [demo_manifest] mem_New ms_New) demo_Copy"
    unfolding demo_Copy_def by (rule cg_run_steps)
qed (rule demo_Copy_end)+

lemma demo_input_ok:
  "copy_input_ok (ms_inv demo_graph_ext) ms_content demo_source demo_target r demo_manifest DefaultCopyGraphOptions"
  by (simp add: copy_input_ok_def env_ok_def hook_ok_def skip_ok_def mount_ok_def hook_keeps_def mount_keeps_def
      pushref_ok_def demo_source_def demo_target_def DefaultCopyGraphOptions_def demo_fetch_def Let_def)

lemma demo_typed_ref: "\<forall>d. typed demo_ty d \<and> Digest d = ''v1'' \<longrightarrow> Equal d demo_manifest"
proof (intro allI impI, elim conjE)
  fix d assume "typed demo_ty d" "Digest d = ''v1''"
  then have "FromOCI d = FromOCI demo_referrer" by (simp add: typed_def demo_ty_def)
  with \<open>Digest d = _\<close> show "Equal d demo_manifest" by (simp add: FromOCI_def demo_referrer_def)
qed

section \<open>What Copy promises\<close>



end
