(* ===== verification/Extended_Copy.thy ===== *)
theory Extended_Copy
  imports Copy_Target
begin

text \<open>
  \<^verbatim>\<open>extendedcopy.go\<close> and \<^verbatim>\<open>internal/copyutil/stack.go\<close>: copying a node with everything that refers
  to it. \<^verbatim>\<open>findRoots\<close> is a depth-first search over predecessors with an explicit stack, and may run
  for ever on an infinite graph: it is a partial function. The two filters replace the function
  that finds predecessors.

  \<^verbatim>\<open>json.Decoder.Decode\<close> on a stream is a parameter of the functions that use it, as is the
  matching of a regular expression.
\<close>

record graph_source = source +
  so_Predecessors :: "descriptor \<Rightarrow> descriptor list res"
  so_Referrers :: "(descriptor \<Rightarrow> string \<Rightarrow> descriptor list list res) option"

type_synonym find_predecessors = "graph_source \<Rightarrow> descriptor \<Rightarrow> descriptor list res"

record 's ext_opts =
  eo_Graph :: "'s copy_opts"
  Depth :: int
  FindPredecessors :: "find_predecessors option"

definition DefaultExtendedCopyGraphOptions :: "'s ext_opts" where
  "DefaultExtendedCopyGraphOptions = \<lparr>eo_Graph = DefaultCopyGraphOptions, Depth = 0, FindPredecessors = None\<rparr>"

section \<open>Filters\<close>

record decoders =
  dec_annotations :: "reader \<Rightarrow> (string, string) gomap option res"
  dec_artifact :: "reader \<Rightarrow> artifact res"
  dec_manifest :: "reader \<Rightarrow> manifest res"

definition fetchAnnotations :: "decoders \<Rightarrow> (descriptor \<Rightarrow> reader res) \<Rightarrow> descriptor \<Rightarrow> (string, string) gomap res" where
  "fetchAnnotations J fetch desc = (case fetch desc of
     Inl e \<Rightarrow> Inl e
   | Inr rc \<Rightarrow> (case dec_annotations J rc of
       Inl e \<Rightarrow> Inl e
     | Inr None \<Rightarrow> Inr []
     | Inr (Some annotations) \<Rightarrow> Inr annotations))"

definition fetchArtifactType :: "decoders \<Rightarrow> (descriptor \<Rightarrow> reader res) \<Rightarrow> descriptor \<Rightarrow> string res" where
  "fetchArtifactType J fetch desc = (case fetch desc of
     Inl e \<Rightarrow> Inl e
   | Inr rc \<Rightarrow>
       if MediaType desc = spec_MediaTypeArtifactManifest
       then (case dec_artifact J rc of Inl e \<Rightarrow> Inl e | Inr manifest \<Rightarrow> Inr (a_ArtifactType manifest))
       else if MediaType desc = oci_MediaTypeImageManifest
       then (case dec_manifest J rc of Inl e \<Rightarrow> Inl e | Inr manifest \<Rightarrow> Inr (MediaType (m_Config manifest)))
       else Inr [])"

text \<open>
  The parts that both filters share: the candidates, which have been filtered already when they
  come from the Referrers API, and the loop over the others, which fills in what the descriptor
  does not have.
\<close>

definition candidates :: "(descriptor \<Rightarrow> bool) \<Rightarrow> find_predecessors option \<Rightarrow> graph_source \<Rightarrow> descriptor \<Rightarrow>
    (bool \<times> descriptor list) res" where
  "candidates keep fp src desc = (case fp of
     None \<Rightarrow> (case so_Referrers src of
         Some rf \<Rightarrow> (case rf desc [] of
             Inl e \<Rightarrow> Inl e
           | Inr pages \<Rightarrow> Inr (True, concat (map (filter keep) pages)))
       | None \<Rightarrow> (case so_Predecessors src desc of Inl e \<Rightarrow> Inl e | Inr ps \<Rightarrow> Inr (False, ps)))
   | Some f \<Rightarrow> (case f src desc of Inl e \<Rightarrow> Inl e | Inr ps \<Rightarrow> Inr (False, ps)))"

fun keep_loop :: "(descriptor \<Rightarrow> descriptor res) \<Rightarrow> (descriptor \<Rightarrow> bool) \<Rightarrow> descriptor list \<Rightarrow> descriptor list \<Rightarrow>
    descriptor list res" where
  "keep_loop fill keep kept [] = Inr kept"
| "keep_loop fill keep kept (p # ps) = (case fill p of
     Inl e \<Rightarrow> Inl e
   | Inr p \<Rightarrow> keep_loop fill keep (if keep p then kept @ [p] else kept) ps)"

definition filter_predecessors :: "(descriptor \<Rightarrow> bool) \<Rightarrow> (graph_source \<Rightarrow> descriptor \<Rightarrow> descriptor res) \<Rightarrow>
    find_predecessors option \<Rightarrow> find_predecessors" where
  "filter_predecessors keep fill fp src desc = (case candidates keep fp src desc of
     Inl e \<Rightarrow> Inl e
   | Inr (True, predecessors) \<Rightarrow> Inr predecessors
   | Inr (False, predecessors) \<Rightarrow> keep_loop (fill src) keep [] predecessors)"

definition annotation_keep :: "string \<Rightarrow> (string \<Rightarrow> bool) option \<Rightarrow> descriptor \<Rightarrow> bool" where
  "annotation_keep k regex desc =
     (case (case Annotations desc of None \<Rightarrow> None | Some an \<Rightarrow> gm_get an k) of
        None \<Rightarrow> False
      | Some val \<Rightarrow> (case regex of None \<Rightarrow> True | Some matches \<Rightarrow> matches val))"

definition annotation_fill :: "decoders \<Rightarrow> graph_source \<Rightarrow> descriptor \<Rightarrow> descriptor res" where
  "annotation_fill J src p =
     (if Annotations p = None \<and> MediaType p \<in> {docker_MediaTypeManifest, oci_MediaTypeImageManifest,
        docker_MediaTypeManifestList, oci_MediaTypeImageIndex, spec_MediaTypeArtifactManifest}
      then (case fetchAnnotations J (so_Fetch src) p of
              Inl e \<Rightarrow> Inl e
            | Inr annotations \<Rightarrow> Inr (p\<lparr>Annotations := Some annotations\<rparr>))
      else Inr p)"

definition FilterAnnotation :: "decoders \<Rightarrow> 's ext_opts \<Rightarrow> string \<Rightarrow> (string \<Rightarrow> bool) option \<Rightarrow> 's ext_opts" where
  "FilterAnnotation J opts k regex = opts\<lparr>FindPredecessors :=
     Some (filter_predecessors (annotation_keep k regex) (annotation_fill J) (FindPredecessors opts))\<rparr>"

definition artifactType_fill :: "decoders \<Rightarrow> graph_source \<Rightarrow> descriptor \<Rightarrow> descriptor res" where
  "artifactType_fill J src p =
     (if ArtifactType p = [] \<and> MediaType p \<in> {spec_MediaTypeArtifactManifest, oci_MediaTypeImageManifest}
      then (case fetchArtifactType J (so_Fetch src) p of
              Inl e \<Rightarrow> Inl e
            | Inr artifactType \<Rightarrow> Inr (p\<lparr>ArtifactType := artifactType\<rparr>))
      else Inr p)"

definition FilterArtifactType :: "decoders \<Rightarrow> 's ext_opts \<Rightarrow> (string \<Rightarrow> bool) option \<Rightarrow> 's ext_opts" where
  "FilterArtifactType J opts regex = (case regex of
     None \<Rightarrow> opts
   | Some matches \<Rightarrow> opts\<lparr>FindPredecessors :=
       Some (filter_predecessors (\<lambda>desc. matches (ArtifactType desc)) (artifactType_fill J) (FindPredecessors opts))\<rparr>)"

lemma keep_loop_iff:
  "keep_loop fill keep kept ps = Inr qs \<longleftrightarrow>
     (\<exists>rs. list_all2 (\<lambda>p r. fill p = Inr r) ps rs \<and> qs = kept @ filter keep rs)"
proof (induction ps arbitrary: kept)
  case (Cons p ps)
  show ?case
  proof (cases "fill p")
    case (Inr r)
    with Cons show ?thesis by (auto simp: list_all2_Cons1)
  qed (auto simp: list_all2_Cons1)
qed auto

section \<open>The stack\<close>

text \<open>The slice of the stack, with its top at the end.\<close>

type_synonym node_info = "descriptor \<times> int"

definition stack_Push :: "node_info list \<Rightarrow> node_info \<Rightarrow> node_info list" where
  "stack_Push s i = s @ [i]"

definition stack_Pop :: "node_info list \<Rightarrow> (node_info \<times> node_info list) option" where
  "stack_Pop s = (if s = [] then None else Some (s ! (length s - 1), take (length s - 1) s))"

lemma stack_Pop_simps [simp]: "stack_Pop [] = None" "stack_Pop (s @ [i]) = Some (i, s)"
  by (simp_all add: stack_Pop_def)

lemma stack_Pop_Some: "stack_Pop s = Some (i, s') \<longleftrightarrow> s = s' @ [i]"
  by (cases s rule: rev_cases) auto

lemma stack_pushes: "foldl stack_Push s is = s @ is"
  by (induction "is" arbitrary: s) (simp_all add: stack_Push_def)

section \<open>Finding the roots\<close>

definition addRoot :: "key \<Rightarrow> descriptor \<Rightarrow> (key, descriptor) gomap \<Rightarrow> (key, descriptor) gomap" where
  "addRoot k val m = (if gm_get m k = None then gm_put k val m else m)"

partial_function (option) find_loop :: "(descriptor \<Rightarrow> descriptor list res) \<Rightarrow> int \<Rightarrow> key set \<Rightarrow>
    (key, descriptor) gomap \<Rightarrow> node_info list \<Rightarrow> (key, descriptor) gomap res option" where
  "find_loop fp depth visited rootMap stack = (case stack_Pop stack of
     None \<Rightarrow> Some (Inr rootMap)
   | Some ((currentNode, d), stack) \<Rightarrow>
       let currentKey = FromOCI currentNode
       in if currentKey \<in> visited then find_loop fp depth visited rootMap stack
          else let visited = insert currentKey visited
            in if depth > 0 \<and> d = depth
               then find_loop fp depth visited (addRoot currentKey currentNode rootMap) stack
               else case fp currentNode of
                 Inl e \<Rightarrow> Some (Inl e)
               | Inr predecessors \<Rightarrow>
                   if predecessors = []
                   then find_loop fp depth visited (addRoot currentKey currentNode rootMap) stack
                   else find_loop fp depth visited rootMap
                     (foldl stack_Push stack
                       (map (\<lambda>p. (p, d + 1)) (filter (\<lambda>p. FromOCI p \<notin> visited) predecessors))))"

definition eo_predecessors :: "graph_source \<Rightarrow> 's ext_opts \<Rightarrow> descriptor \<Rightarrow> descriptor list res" where
  "eo_predecessors src opts = (case FindPredecessors opts of None \<Rightarrow> so_Predecessors src | Some f \<Rightarrow> f src)"

definition findRoots :: "order \<Rightarrow> graph_source \<Rightarrow> descriptor \<Rightarrow> 's ext_opts \<Rightarrow> descriptor list res option" where
  "findRoots ord src node opts =
     map_option (map_sum id (\<lambda>rootMap. map snd (range_list ord rootMap)))
       (find_loop (eo_predecessors src opts) (Depth opts) {} [] (stack_Push [] (node, 0)))"

lemma find_loop_simps [simp]:
  "find_loop fp depth visited rootMap [] = Some (Inr rootMap)"
  "FromOCI n \<in> visited \<Longrightarrow> find_loop fp depth visited rootMap (stack @ [(n, d)]) = find_loop fp depth visited rootMap stack"
  "\<lbrakk>FromOCI n \<notin> visited; depth > 0; d = depth\<rbrakk> \<Longrightarrow> find_loop fp depth visited rootMap (stack @ [(n, d)]) =
     find_loop fp depth (insert (FromOCI n) visited) (addRoot (FromOCI n) n rootMap) stack"
  "\<lbrakk>FromOCI n \<notin> visited; \<not> (depth > 0 \<and> d = depth); fp n = Inl e\<rbrakk> \<Longrightarrow>
     find_loop fp depth visited rootMap (stack @ [(n, d)]) = Some (Inl e)"
  "\<lbrakk>FromOCI n \<notin> visited; \<not> (depth > 0 \<and> d = depth); fp n = Inr []\<rbrakk> \<Longrightarrow>
     find_loop fp depth visited rootMap (stack @ [(n, d)]) =
     find_loop fp depth (insert (FromOCI n) visited) (addRoot (FromOCI n) n rootMap) stack"
  by (subst find_loop.simps, auto simp: Let_def)+

lemma find_loop_preds:
  "\<lbrakk>FromOCI n \<notin> visited; \<not> (depth > 0 \<and> d = depth); fp n = Inr ps; ps \<noteq> []\<rbrakk> \<Longrightarrow>
     find_loop fp depth visited rootMap (stack @ [(n, d)]) = find_loop fp depth (insert (FromOCI n) visited) rootMap
       (stack @ map (\<lambda>p. (p, d + 1)) (filter (\<lambda>p. FromOCI p \<notin> insert (FromOCI n) visited) ps))"
  by (subst find_loop.simps) (auto simp: Let_def stack_pushes)

text \<open>The search ends when finitely many nodes can be found.\<close>

definition up_closed :: "(descriptor \<Rightarrow> descriptor list res) \<Rightarrow> key set \<Rightarrow> bool" where
  "up_closed fp U \<longleftrightarrow> finite U \<and> (\<forall>d ps p. FromOCI d \<in> U \<and> fp d = Inr ps \<and> p \<in> set ps \<longrightarrow> FromOCI p \<in> U)"

text \<open>
  What a search without a depth limit finds: \<open>up_step\<close> goes from a node to a predecessor. The
  predecessors of a node depend on its key only.
\<close>

definition up_step :: "(descriptor \<Rightarrow> descriptor list res) \<Rightarrow> key \<Rightarrow> key \<Rightarrow> bool" where
  "up_step fp k k' \<longleftrightarrow> (\<exists>d ps p. k = FromOCI d \<and> fp d = Inr ps \<and> p \<in> set ps \<and> k' = FromOCI p)"

definition fp_keys :: "(descriptor \<Rightarrow> descriptor list res) \<Rightarrow> bool" where
  "fp_keys fp \<longleftrightarrow> (\<forall>d d'. FromOCI d = FromOCI d' \<longrightarrow> fp d = fp d')"

definition find_inv :: "(descriptor \<Rightarrow> descriptor list res) \<Rightarrow> key \<Rightarrow> key set \<Rightarrow> (key, descriptor) gomap \<Rightarrow>
    node_info list \<Rightarrow> bool" where
  "find_inv fp k0 visited rootMap stack \<longleftrightarrow>
     (let todo = FromOCI ` fst ` set stack
      in gm_ok rootMap \<and> (\<forall>k d. gm_get rootMap k = Some d \<longrightarrow> FromOCI d = k)
       \<and> (\<forall>k. gm_get rootMap k \<noteq> None \<longleftrightarrow> k \<in> visited \<and> (\<nexists>k'. up_step fp k k'))
       \<and> k0 \<in> visited \<union> todo \<and> (\<forall>k \<in> visited \<union> todo. (up_step fp)\<^sup>*\<^sup>* k0 k)
       \<and> (\<forall>k\<in>visited. \<forall>k'. up_step fp k k' \<longrightarrow> k' \<in> visited \<union> todo))"

lemma up_step_Inr: "\<lbrakk>fp_keys fp; fp n = Inr ps\<rbrakk> \<Longrightarrow> up_step fp (FromOCI n) k \<longleftrightarrow> k \<in> FromOCI ` set ps"
  unfolding up_step_def fp_keys_def by (metis (no_types, lifting) image_iff sum.inject(2))

lemma addRoot_simps [simp]:
  "gm_ok m \<Longrightarrow> gm_ok (addRoot k d m)"
  "gm_get (addRoot k d m) k' = (if k' = k \<and> gm_get m k = None then Some d else gm_get m k')"
  by (simp_all add: addRoot_def)

lemma find_inv_skip:
  assumes "find_inv fp k0 visited rootMap (stack @ [(n, d)])" "FromOCI n \<in> visited"
  shows "find_inv fp k0 visited rootMap stack"
proof -
  have eq: "visited \<union> FromOCI ` fst ` set (stack @ [(n, d)]) = visited \<union> FromOCI ` fst ` set stack"
    using assms(2) by auto
  show ?thesis using assms(1) unfolding find_inv_def Let_def eq .
qed

lemma find_inv_root:
  assumes "find_inv fp k0 visited rootMap (stack @ [(n, d)])" "FromOCI n \<notin> visited" "fp_keys fp" "fp n = Inr []"
  shows "find_inv fp k0 (insert (FromOCI n) visited) (addRoot (FromOCI n) n rootMap) stack"
proof -
  have eq: "visited \<union> FromOCI ` fst ` set (stack @ [(n, d)]) = insert (FromOCI n) visited \<union> FromOCI ` fst ` set stack"
    by auto
  have none: "\<not> up_step fp (FromOCI n) k'" for k' using up_step_Inr [OF assms(3,4)] by simp
  note I = assms(1) [unfolded find_inv_def Let_def eq]
  from I assms(2) have "gm_get rootMap (FromOCI n) = None" by auto
  with I none show ?thesis unfolding find_inv_def Let_def by auto
qed

lemma find_inv_preds:
  assumes "find_inv fp k0 visited rootMap (stack @ [(n, d)])" "FromOCI n \<notin> visited" "fp_keys fp"
    and "fp n = Inr ps" "ps \<noteq> []"
  shows "find_inv fp k0 (insert (FromOCI n) visited) rootMap
    (stack @ map (\<lambda>p. (p, d + 1)) (filter (\<lambda>p. FromOCI p \<notin> insert (FromOCI n) visited) ps))"
proof -
  let ?V = "insert (FromOCI n) visited"
  let ?st = "stack @ map (\<lambda>p. (p, d + 1)) (filter (\<lambda>p. FromOCI p \<notin> ?V) ps)"
  have eq: "?V \<union> FromOCI ` fst ` set ?st = ?V \<union> FromOCI ` fst ` set stack \<union> FromOCI ` set ps"
    by (auto simp: image_image image_Un)
  have eq0: "visited \<union> FromOCI ` fst ` set (stack @ [(n, d)]) = ?V \<union> FromOCI ` fst ` set stack" by auto
  note up = up_step_Inr [OF assms(3,4)]
  note I = assms(1) [unfolded find_inv_def Let_def eq0]
  have n: "(up_step fp)\<^sup>*\<^sup>* k0 (FromOCI n)" using I by blast
  have ps: "(up_step fp)\<^sup>*\<^sup>* k0 k" if "k \<in> FromOCI ` set ps" for k
    using rtranclp.rtrancl_into_rtrancl [OF n] up that by blast
  have nonroot: "\<exists>k'. up_step fp (FromOCI n) k'" using up assms(5) by (cases ps) auto
  show ?thesis unfolding find_inv_def Let_def eq
  proof (intro conjI)
    show "gm_ok rootMap" "\<forall>k d. gm_get rootMap k = Some d \<longrightarrow> FromOCI d = k" using I by blast+
    have "gm_get rootMap k \<noteq> None \<longleftrightarrow> k \<in> visited \<and> (\<nexists>k'. up_step fp k k')" for k using I by blast
    then show "\<forall>k. (gm_get rootMap k \<noteq> None) = (k \<in> ?V \<and> (\<nexists>k'. up_step fp k k'))" using nonroot by blast
    show "k0 \<in> ?V \<union> FromOCI ` fst ` set stack \<union> FromOCI ` set ps" using I by blast
    show "\<forall>k\<in>?V \<union> FromOCI ` fst ` set stack \<union> FromOCI ` set ps. (up_step fp)\<^sup>*\<^sup>* k0 k" using I ps by blast
    have "k' \<in> ?V \<union> FromOCI ` fst ` set stack" if "k \<in> visited" "up_step fp k k'" for k k' using I that by blast
    then show "\<forall>k\<in>?V. \<forall>k'. up_step fp k k' \<longrightarrow> k' \<in> ?V \<union> FromOCI ` fst ` set stack \<union> FromOCI ` set ps"
      using up by blast
  qed
qed

lemma find_loop_result:
  assumes "up_closed fp U" "FromOCI ` fst ` set stack \<subseteq> U"
  shows "\<exists>r. find_loop fp depth visited rootMap stack = Some r \<and>
    (fp_keys fp \<and> depth \<le> 0 \<and> find_inv fp k0 visited rootMap stack \<longrightarrow> (\<forall>m. r = Inr m \<longrightarrow> (\<exists>V. find_inv fp k0 V m [])))"
    (is "?P visited rootMap stack")
  using assms(2)
proof (induction "(card (U - visited), length stack)" arbitrary: visited rootMap stack
    rule: wf_induct_rule [OF wf_lex_prod [OF wf_less_than wf_less_than]])
  case (1 visited stack rootMap)
  have U: "finite U" using assms(1) by (simp add: up_closed_def)
  show ?case
  proof (cases stack rule: rev_cases)
    case Nil
    then show ?thesis by auto
  next
    case (snoc st nd)
    obtain n d where nd: "nd = (n, d)" by (cases nd)
    have n: "FromOCI n \<in> U" and st: "FromOCI ` fst ` set st \<subseteq> U" using 1(2) snoc nd by auto
    show ?thesis
    proof (cases "FromOCI n \<in> visited")
      case True
      have "?P visited rootMap st" by (rule 1(1)) (use snoc st in auto)
      then show ?thesis unfolding snoc nd find_loop_simps(2) [OF True]
        using find_inv_skip [OF _ True, where fp = fp and rootMap = rootMap and stack = st and d = d] by blast
    next
      case False
      have "card (U - insert (FromOCI n) visited) < card (U - visited)"
        using U n False by (intro psubset_card_mono) auto
      then have go: "?P (insert (FromOCI n) visited) m st'" if "FromOCI ` fst ` set st' \<subseteq> U" for m st'
        using that by (intro 1(1)) auto
      consider "depth > 0 \<and> d = depth" | e where "\<not> (depth > 0 \<and> d = depth)" "fp n = Inl e"
        | "\<not> (depth > 0 \<and> d = depth)" "fp n = Inr []" | ps where "\<not> (depth > 0 \<and> d = depth)" "fp n = Inr ps" "ps \<noteq> []"
        by (cases "fp n") auto
      then show ?thesis
      proof cases
        case 1
        then show ?thesis using go [OF st, of "addRoot (FromOCI n) n rootMap"] False snoc nd by auto
      next
        case (2 e)
        then show ?thesis using False snoc nd by auto
      next
        case 3
        note I = find_inv_root [where fp = fp and n = n and d = d and rootMap = rootMap and stack = st and ?k0.0 = k0]
        show ?thesis
          using go [OF st, of "addRoot (FromOCI n) n rootMap"] I [OF _ False _ 3(2)]
          unfolding snoc nd find_loop_simps(5) [where fp = fp and n = n, OF False 3] by blast
      next
        case (4 ps)
        have U': "FromOCI ` fst ` set (st @ map (\<lambda>p. (p, d + 1)) (filter Q ps)) \<subseteq> U" for Q
          using st 4(2) assms(1) n unfolding up_closed_def by auto
        note I = find_inv_preds [where fp = fp and n = n and d = d and rootMap = rootMap and stack = st and ?k0.0 = k0]
        show ?thesis
          using go [OF U'] I [OF _ False _ 4(2,3)]
          unfolding snoc nd find_loop_preds [where fp = fp and n = n, OF False 4] by blast
      qed
    qed
  qed
qed

lemma findRoots_result:
  assumes "up_closed (eo_predecessors src opts) U" "FromOCI node \<in> U" "fp_keys (eo_predecessors src opts)"
    and "valid_order ord"
  shows "\<exists>r. findRoots ord src node opts = Some r \<and> (\<forall>roots. r = Inr roots \<and> Depth opts \<le> 0 \<longrightarrow>
     FromOCI ` set roots = {k. (up_step (eo_predecessors src opts))\<^sup>*\<^sup>* (FromOCI node) k
       \<and> (\<nexists>k'. up_step (eo_predecessors src opts) k k')} \<and> distinct (map FromOCI roots))"
proof -
  let ?fp = "eo_predecessors src opts" and ?k = "FromOCI node"
  have "find_inv ?fp ?k {} [] [(node, 0)]" by (simp add: find_inv_def Let_def)
  with find_loop_result [OF assms(1), of "[(node, 0)]" "Depth opts" "{}" "[]" ?k] assms(2,3)
  obtain r where r: "find_loop ?fp (Depth opts) {} [] [(node, 0)] = Some r"
    "\<And>m. \<lbrakk>r = Inr m; Depth opts \<le> 0\<rbrakk> \<Longrightarrow> \<exists>V. find_inv ?fp ?k V m []" by auto
  have "FromOCI ` set (map snd (range_list ord m)) = {k. (up_step ?fp)\<^sup>*\<^sup>* ?k k \<and> (\<nexists>k'. up_step ?fp k k')}
      \<and> distinct (map FromOCI (map snd (range_list ord m)))" (is "?R (map snd (range_list ord m))") if V: "find_inv ?fp ?k V m []" for V m
  proof -
    note I = V [unfolded find_inv_def Let_def, simplified]
    have V: "V = {k. (up_step ?fp)\<^sup>*\<^sup>* ?k k}"
    proof (intro set_eqI iffI)
      fix k assume "k \<in> {k. (up_step ?fp)\<^sup>*\<^sup>* ?k k}"
      then have "(up_step ?fp)\<^sup>*\<^sup>* ?k k" by simp
      then show "k \<in> V" by (induction rule: rtranclp_induct) (use I in auto)
    qed (use I in auto)
    have snd: "FromOCI (snd x) = fst x" if "x \<in> set m" for x
      using I that gm_get_in_set [of m "fst x" "snd x"] by auto
    then have keys: "map FromOCI (map snd (range_list ord m)) = map fst (range_list ord m)" using assms(4) by simp
    have "fst ` set m = {k. gm_get m k \<noteq> None}" using gm_in_keys [of _ m] by auto
    also have "\<dots> = {k. (up_step ?fp)\<^sup>*\<^sup>* ?k k \<and> (\<nexists>k'. up_step ?fp k k')}" using I V by auto
    finally have *: "set (map fst (range_list ord m)) = {k. (up_step ?fp)\<^sup>*\<^sup>* ?k k \<and> (\<nexists>k'. up_step ?fp k k')}"
      using assms(4) by simp
    have "distinct (map fst m)" using I by (simp add: gm_ok_def)
    moreover have "mset (map fst (range_list ord m)) = mset (map fst m)" using mset_range_list [OF assms(4), of m] by simp
    ultimately have "distinct (map fst (range_list ord m))" using mset_eq_imp_distinct_iff by blast
    with * keys show ?thesis by (metis list.set_map)
  qed
  with r(2) have "?R (map snd (range_list ord m))" if "r = Inr m" "Depth opts \<le> 0" for m using that by blast
  moreover have "findRoots ord src node opts = Some (map_sum id (\<lambda>m. map snd (range_list ord m)) r)"
    using r(1) by (simp add: findRoots_def stack_Push_def)
  ultimately show ?thesis by (cases r) auto
qed

section \<open>Extended copy\<close>

text \<open>
  The outer \<^verbatim>\<open>syncutil.Go\<close> of \<^verbatim>\<open>ExtendedCopyGraph\<close> gives back its permit before it copies the graph of
  a root, so its tasks start as the task of a root of \<open>cg_init\<close>; the roots share the limiter, the
  tracker and the cache.
\<close>

definition ext_env :: "graph_source \<Rightarrow> 's target \<Rightarrow> 's ext_opts \<Rightarrow> 's copy_env" where
  "ext_env src dst opts = \<lparr>ce_src = so_Fetch src, ce_src_exists = so_Exists src, ce_dst = tg_storage dst,
     ce_mounter = tg_Mount dst, ce_opts = eo_Graph opts\<rparr>"

inductive ExtendedCopyGraph :: "ext \<Rightarrow> order \<Rightarrow> graph_source \<Rightarrow> 's target \<Rightarrow> descriptor \<Rightarrow> 's ext_opts \<Rightarrow> 's \<Rightarrow>
    unit res \<Rightarrow> 's \<Rightarrow> bool" for P ord src dst node opts s where
  no_roots: "findRoots ord src node opts = Some (Inl e) \<Longrightarrow> ExtendedCopyGraph P ord src dst node opts s (Inl e) s"
| ext_failed: "\<lbrakk>findRoots ord src node opts = Some (Inr roots); E = ext_env src dst opts;
     (cg_step P E)\<^sup>*\<^sup>* (cg_init E roots mem_New s) \<sigma>; cg_err \<sigma> = Some e\<rbrakk> \<Longrightarrow>
     ExtendedCopyGraph P ord src dst node opts s (Inl e) (cg_dst \<sigma>)"
| ext_copied: "\<lbrakk>findRoots ord src node opts = Some (Inr roots); E = ext_env src dst opts;
     (cg_step P E)\<^sup>*\<^sup>* (cg_init E roots mem_New s) \<sigma>; cg_tasks \<sigma> = []; cg_err \<sigma> = None\<rbrakk> \<Longrightarrow>
     ExtendedCopyGraph P ord src dst node opts s (Inr ()) (cg_dst \<sigma>)"

inductive ExtendedCopy :: "ext \<Rightarrow> order \<Rightarrow> graph_source option \<Rightarrow> string \<Rightarrow> 's target option \<Rightarrow> string \<Rightarrow> 's ext_opts \<Rightarrow>
    's \<Rightarrow> descriptor res \<Rightarrow> 's \<Rightarrow> bool" for P ord where
  nil_source: "ExtendedCopy P ord None srcRef dst dstRef opts s (Inl (ErrOther ''nil source graph target'')) s"
| nil_target: "ExtendedCopy P ord (Some src) srcRef None dstRef opts s (Inl (ErrOther ''nil destination target'')) s"
| not_resolved: "so_Resolve src srcRef = Inl e \<Longrightarrow>
     ExtendedCopy P ord (Some src) srcRef (Some dst) dstRef opts s (Inl e) s"
| not_copied: "\<lbrakk>so_Resolve src srcRef = Inr node; ExtendedCopyGraph P ord src dst node opts s (Inl e) s'\<rbrakk> \<Longrightarrow>
     ExtendedCopy P ord (Some src) srcRef (Some dst) dstRef opts s (Inl e) s'"
| not_tagged: "\<lbrakk>so_Resolve src srcRef = Inr node; ExtendedCopyGraph P ord src dst node opts s (Inr ()) s';
     tg_Tag dst s' node (if dstRef = [] then srcRef else dstRef) = (Inl e, s'')\<rbrakk> \<Longrightarrow>
     ExtendedCopy P ord (Some src) srcRef (Some dst) dstRef opts s (Inl e) s''"
| ext_tagged: "\<lbrakk>so_Resolve src srcRef = Inr node; ExtendedCopyGraph P ord src dst node opts s (Inr ()) s';
     tg_Tag dst s' node (if dstRef = [] then srcRef else dstRef) = (Inr (), s'')\<rbrakk> \<Longrightarrow>
     ExtendedCopy P ord (Some src) srcRef (Some dst) dstRef opts s (Inr node) s''"

text \<open>
  What the predecessors of the source have to be: each of them refers to the node, and there are
  finitely many below and above it, without a cycle.
\<close>

definition preds_ok :: "ext \<Rightarrow> (string \<Rightarrow> key) \<Rightarrow> key set \<Rightarrow> (descriptor \<Rightarrow> descriptor list res) \<Rightarrow> bool" where
  "preds_ok P ty U fp \<longleftrightarrow> up_closed fp U \<and> fp_keys fp \<and> acyclic (cg_rel P U) \<and>
     (\<forall>d ps p. fp d = Inr ps \<and> p \<in> set ps \<longrightarrow> typed ty p \<and> (\<exists>x. FromOCI x = FromOCI d \<and> cg_edge P p x))"

inductive_cases ExtendedCopyGraph_InrE: "ExtendedCopyGraph P ord src dst node opts s (Inr u) s'"

inductive_cases ExtendedCopy_InrE: "ExtendedCopy P ord (Some src) srcRef (Some dst) dstRef opts s (Inr node) s'"

lemma preds_okD:
  assumes "preds_ok P ty U fp"
  shows "up_closed fp U" "fp_keys fp" "acyclic (cg_rel P U)"
    "up_step fp k k' \<Longrightarrow> \<exists>p x. k' = FromOCI p \<and> k = FromOCI x \<and> typed ty p \<and> cg_edge P p x"
proof -
  show "up_closed fp U" "fp_keys fp" "acyclic (cg_rel P U)" using assms unfolding preds_ok_def by blast+
  assume "up_step fp k k'"
  then obtain d ps p where "k = FromOCI d" "fp d = Inr ps" "p \<in> set ps" "k' = FromOCI p" unfolding up_step_def by blast
  moreover from this(2,3) obtain x where "typed ty p" "FromOCI x = FromOCI d" "cg_edge P p x"
    using assms unfolding preds_ok_def by blast
  ultimately show "\<exists>p x. k' = FromOCI p \<and> k = FromOCI x \<and> typed ty p \<and> cg_edge P p x" by metis
qed

lemma up_step_within: "\<lbrakk>up_closed fp U; k \<in> U; (up_step fp)\<^sup>*\<^sup>* k k'\<rbrakk> \<Longrightarrow> k' \<in> U"
proof (rotate_tac 2, induction rule: rtranclp_induct)
  case (step y z)
  then show ?case unfolding up_closed_def up_step_def by blast
qed

lemma wf_up:
  assumes "preds_ok P ty U fp"
  shows "wf {(k', k). k \<in> U \<and> up_step fp k k'}"
proof -
  let ?R = "{(k', k). k \<in> U \<and> up_step fp k k'}"
  have R: "?R \<subseteq> (cg_rel P U)\<inverse>"
  proof (rule subrelI)
    fix k' k assume "(k', k) \<in> ?R"
    then have k: "k \<in> U" "up_step fp k k'" by auto
    moreover have "k' \<in> U" using k preds_okD(1) [OF assms] unfolding up_closed_def up_step_def by blast
    ultimately show "(k', k) \<in> (cg_rel P U)\<inverse>" using preds_okD(4) [OF assms] unfolding cg_rel_def by blast
  qed
  have "?R \<subseteq> U \<times> U" using preds_okD(1) [OF assms] unfolding up_closed_def up_step_def by blast
  then have "finite ?R" using preds_okD(1) [OF assms] unfolding up_closed_def by (meson finite_SigmaI finite_subset)
  moreover have "acyclic ?R" using acyclic_subset [OF _ R] preds_okD(3) [OF assms] by (simp add: acyclic_converse)
  ultimately show ?thesis by (rule finite_acyclic_wf)
qed

text \<open>Once the roots are stored, everything from which they were found is.\<close>

lemma above_stored:
  assumes "preds_ok P ty U fp" "copy_closed P ty C" "\<And>d d'. FromOCI d = FromOCI d' \<Longrightarrow> C d = C d'"
    and roots: "\<And>d. \<lbrakk>(up_step fp)\<^sup>*\<^sup>* k0 (FromOCI d); \<nexists>k'. up_step fp (FromOCI d) k'\<rbrakk> \<Longrightarrow> C d \<noteq> None"
    and "k0 \<in> U" "(up_step fp)\<^sup>*\<^sup>* k0 (FromOCI d)"
  shows "C d \<noteq> None"
  using assms(6)
proof (induction "FromOCI d" arbitrary: d rule: wf_induct_rule [OF wf_up [OF assms(1)]])
  case 1
  show ?case
  proof (cases "\<exists>k'. up_step fp (FromOCI d) k'")
    case False
    with roots 1(2) show ?thesis by blast
  next
    case True
    then obtain p x where p: "up_step fp (FromOCI d) (FromOCI p)" "FromOCI d = FromOCI x" "typed ty p" "cg_edge P p x"
      using preds_okD(4) [OF assms(1)] by blast
    have U: "FromOCI d \<in> U" by (rule up_step_within [OF preds_okD(1) [OF assms(1)] assms(5) 1(2)])
    have "C p \<noteq> None" using 1(1) [of p] p(1) U rtranclp.rtrancl_into_rtrancl [OF 1(2) p(1)] by blast
    then have "C x \<noteq> None" using copy_closedD [OF assms(2) p(3) _ p(4)] by blast
    then show ?thesis using assms(3) [OF p(2)] by simp
  qed
qed

section \<open>Concrete graphs\<close>

text \<open>
  The referrer of the concrete graph refers to its manifest. The second source is for a limit of
  two: the node \<open>n\<close> has the predecessors \<open>x\<close> and \<open>q\<close>, \<open>q\<close> has \<open>x\<close>, and \<open>x\<close> has \<open>y\<close>.
\<close>

definition demo_preds :: "descriptor \<Rightarrow> descriptor list res" where
  "demo_preds d = Inr (if FromOCI d = FromOCI demo_manifest then [demo_referrer] else [])"

definition demo_graph_source :: graph_source where
  "demo_graph_source = source.extend demo_source \<lparr>so_Predecessors = demo_preds, so_Referrers = None\<rparr>"

definition demo_ext_env :: "mstore copy_env" where
  "demo_ext_env = ext_env demo_graph_source demo_target DefaultExtendedCopyGraphOptions"

definition demo_ExtendedCopy :: "mstore cg_state" where
  "demo_ExtendedCopy = cg_run 30 demo_graph_ext demo_ext_env (cg_init demo_ext_env [demo_referrer] mem_New ms_New)"

lemma demo_ExtendedCopy_end: "cg_tasks demo_ExtendedCopy = []" "cg_err demo_ExtendedCopy = None"
  by code_simp+

lemma demo_ext_sel [simp]:
  "so_Predecessors demo_graph_source = demo_preds" "so_Fetch demo_graph_source = demo_fetch"
  "so_Resolve demo_graph_source ''v1'' = Inr demo_manifest"
  "eo_predecessors demo_graph_source DefaultExtendedCopyGraphOptions = demo_preds"
  by (simp_all add: demo_graph_source_def source.defs demo_source_def eo_predecessors_def
      DefaultExtendedCopyGraphOptions_def)

lemma demo_findRoots:
  "findRoots id_order demo_graph_source demo_manifest (DefaultExtendedCopyGraphOptions :: mstore ext_opts)
     = Some (Inr [demo_referrer])"
proof -
  have ne: "FromOCI demo_referrer \<noteq> FromOCI demo_manifest" by (simp add: demo_nodes FromOCI_def)
  have "find_loop demo_preds 0 {} [] ([] @ [(demo_manifest, 0)])
      = find_loop demo_preds 0 {FromOCI demo_manifest} [] ([] @ [(demo_referrer, 1)])"
    using ne by (subst find_loop_preds [where ps = "[demo_referrer]"]) (simp_all add: demo_preds_def)
  also have "\<dots> = Some (Inr [(FromOCI demo_referrer, demo_referrer)])"
    using ne by (subst find_loop_simps(5)) (simp_all add: demo_preds_def addRoot_def)
  finally have "find_loop demo_preds 0 {} [] [(demo_manifest, 0)] = Some (Inr [(FromOCI demo_referrer, demo_referrer)])"
    by simp
  then show ?thesis
    by (simp add: findRoots_def stack_Push_def) (simp add: DefaultExtendedCopyGraphOptions_def)
qed

lemma demo_preds_ok: "preds_ok demo_graph_ext demo_ty demo_U demo_preds"
proof -
  have m: "IsManifest demo_referrer" by (simp add: demo_referrer_def IsManifest_def)
  then have "decode_successors demo_graph_ext demo_referrer ''R'' = Inr [demo_manifest, demo_config]"
    using demo_Successors(2) by (simp add: Successors_eq)
  moreover have "dg_verify demo_graph_ext (Digest demo_referrer) ''R''"
    by (simp add: demo_referrer_def demo_graph_ext_def demo_ext_def)
  ultimately have "cg_succs demo_graph_ext demo_referrer [demo_manifest, demo_config]"
    using m unfolding cg_succs_def by auto
  then have "cg_edge demo_graph_ext demo_referrer demo_manifest" unfolding cg_edge_def
    by (intro exI [of _ "[demo_manifest, demo_config]"]) (simp add: demo_manifest_def IsForeignLayer_def media_type_defs)
  then show ?thesis
    using demo_acyclic by (auto simp: preds_ok_def up_closed_def fp_keys_def demo_preds_def demo_U_def typed_def)
qed

definition depth_node :: "string \<Rightarrow> descriptor" where
  "depth_node name = plain_desc oci_MediaTypeImageManifest name 1"

definition depth_preds :: "descriptor \<Rightarrow> descriptor list res" where
  "depth_preds d = Inr (if Digest d = ''n'' then [depth_node ''x'', depth_node ''q'']
     else if Digest d = ''q'' then [depth_node ''x''] else if Digest d = ''x'' then [depth_node ''y''] else [])"

section \<open>What extended copy promises\<close>

text \<open>
  C6. \<^verbatim>\<open>findRoots\<close> returns on every finite graph, and without a depth limit it returns exactly the
  nodes above the given one, itself included, that have no predecessors, each of them once.
\<close>

theorem findRoots_exact:
  assumes "up_closed (eo_predecessors src opts) U" "FromOCI node \<in> U" "fp_keys (eo_predecessors src opts)"
    and "valid_order ord"
  shows "\<exists>r. findRoots ord src node opts = Some r \<and> (\<forall>roots. r = Inr roots \<and> Depth opts \<le> 0 \<longrightarrow>
     FromOCI ` set roots = {k. (up_step (eo_predecessors src opts))\<^sup>*\<^sup>* (FromOCI node) k
       \<and> (\<nexists>k'. up_step (eo_predecessors src opts) k k')} \<and> distinct (map FromOCI roots))"
  by (rule findRoots_result [OF assms])

theorem findRoots_exact_witness:
  "\<exists>r. findRoots rev_order demo_graph_source demo_manifest (DefaultExtendedCopyGraphOptions :: mstore ext_opts) = Some r"
  using findRoots_exact [of demo_graph_source "DefaultExtendedCopyGraphOptions :: mstore ext_opts" demo_U demo_manifest
      rev_order] preds_okD(1,2) [OF demo_preds_ok] by (simp add: demo_U_def) blast

text \<open>
  With a depth limit \<^verbatim>\<open>findRoots\<close> may stop too early: a node that is first found at the limit,
  on a long way, is not searched again when it is found on a shorter way, so that nodes within
  the limit are missed. Here \<open>y\<close> is two steps above \<open>n\<close>, but the only root is \<open>x\<close>.
\<close>

lemma findRoots_depth_misses:
  "find_loop depth_preds 2 {} [] [(depth_node ''n'', 0)]
     = Some (Inr [(FromOCI (depth_node ''x''), depth_node ''x'')])
   \<and> up_step depth_preds (FromOCI (depth_node ''n'')) (FromOCI (depth_node ''x''))
   \<and> up_step depth_preds (FromOCI (depth_node ''x'')) (FromOCI (depth_node ''y''))"
proof (intro conjI)
  have ne: "FromOCI (depth_node a) = FromOCI (depth_node b) \<longleftrightarrow> a = b" for a b by (simp add: depth_node_def FromOCI_def)
  have p: "depth_preds (depth_node ''n'') = Inr [depth_node ''x'', depth_node ''q'']"
    "depth_preds (depth_node ''q'') = Inr [depth_node ''x'']" "depth_preds (depth_node ''x'') = Inr [depth_node ''y'']"
    by (simp_all add: depth_preds_def depth_node_def)
  have "find_loop depth_preds 2 {} [] ([] @ [(depth_node ''n'', 0)])
      = find_loop depth_preds 2 {FromOCI (depth_node ''n'')} [] ([(depth_node ''x'', 1)] @ [(depth_node ''q'', 1)])"
    by (subst find_loop_preds [where fp = depth_preds and n = "depth_node m" for m, OF _ _ p(1)]) (simp_all add: ne)
  also have "\<dots> = find_loop depth_preds 2 {FromOCI (depth_node ''q''), FromOCI (depth_node ''n'')} []
      ([(depth_node ''x'', 1)] @ [(depth_node ''x'', 2)])"
    by (subst find_loop_preds [where fp = depth_preds and n = "depth_node m" for m, OF _ _ p(2)]) (simp_all add: ne)
  also have "\<dots> = find_loop depth_preds 2 {FromOCI (depth_node ''x''), FromOCI (depth_node ''q''), FromOCI (depth_node ''n'')}
      [(FromOCI (depth_node ''x''), depth_node ''x'')] ([] @ [(depth_node ''x'', 1)])"
    by (subst find_loop_simps(3)) (simp_all add: ne addRoot_def)
  also have "\<dots> = Some (Inr [(FromOCI (depth_node ''x''), depth_node ''x'')])"
    by (subst find_loop_simps(2)) simp_all
  finally show "find_loop depth_preds 2 {} [] [(depth_node ''n'', 0)]
     = Some (Inr [(FromOCI (depth_node ''x''), depth_node ''x'')])" by simp
  show "up_step depth_preds (FromOCI (depth_node ''n'')) (FromOCI (depth_node ''x''))"
    "up_step depth_preds (FromOCI (depth_node ''x'')) (FromOCI (depth_node ''y''))"
    unfolding up_step_def using p by fastforce+
qed

text \<open>
  C5. When \<^verbatim>\<open>ExtendedCopy\<close> returns a node, without a depth limit, the destination resolves the
  destination reference to it, and has the node, every node that refers to it directly or
  indirectly, and everything below them, with the content of the source.
\<close>

theorem ExtendedCopy_correct:
  assumes "tag_store P (tg_storage dst) iv content (tg_Resolve dst) (tg_Tag dst)"
    and "copy_env_ok P ty iv content (ext_env src dst opts)" "iv s" "copy_closed P ty (content s)"
    and "preds_ok P ty U (eo_predecessors src opts)" "FromOCI node \<in> U" "typed ty node" "Depth opts \<le> 0" "valid_order ord"
    and "ExtendedCopy P ord (Some src) srcRef (Some dst) dstRef opts s (Inr node) s'"
  shows "tagged (tg_Resolve dst) (if dstRef = [] then srcRef else dstRef) node s'
    \<and> (\<forall>p x. (up_step (eo_predecessors src opts))\<^sup>*\<^sup>* (FromOCI node) (FromOCI p) \<and> typed ty p \<and> (cg_edge P)\<^sup>*\<^sup>* p x \<longrightarrow>
        (\<exists>b. content s' x = Some b \<and> dg_verify P (Digest x) b \<and> (\<forall>b'. FetchAll P (so_Fetch src) x = Inr b' \<longrightarrow> b' = b)))"
proof -
  let ?fp = "eo_predecessors src opts" and ?E = "ext_env src dst opts"
  from assms(10) obtain s1 where s1: "ExtendedCopyGraph P ord src dst node opts s (Inr ()) s1"
    "tg_Tag dst s1 node (if dstRef = [] then srcRef else dstRef) = (Inr (), s')"
    by (rule ExtendedCopy_InrE)
  from s1(1) obtain roots \<sigma> where R: "findRoots ord src node opts = Some (Inr roots)"
    "(cg_step P ?E)\<^sup>*\<^sup>* (cg_init ?E roots mem_New s) \<sigma>" "cg_tasks \<sigma> = []" "cg_err \<sigma> = None" "s1 = cg_dst \<sigma>"
    by (rule ExtendedCopyGraph_InrE) blast
  note pok = preds_okD [OF assms(5)]
  from findRoots_result [OF pok(1) assms(6) pok(2) assms(9)] R(1) assms(8)
  have roots: "FromOCI ` set roots = {k. (up_step ?fp)\<^sup>*\<^sup>* (FromOCI node) k \<and> (\<nexists>k'. up_step ?fp k k')}" by auto
  have up_typed: "typed ty d" if "(up_step ?fp)\<^sup>*\<^sup>* (FromOCI node) (FromOCI d)" for d
    using that
  proof (cases rule: rtranclp.cases)
    case rtrancl_refl
    then show ?thesis using assms(7) typed_cong [of d node] by simp
  next
    case (rtrancl_into_rtrancl k)
    from pok(4) [OF rtrancl_into_rtrancl(2)] obtain p where "FromOCI d = FromOCI p" "typed ty p" by blast
    then show ?thesis by (rule typed_cong)
  qed
  have ps: "push_store P (ce_dst ?E) iv content"
    using tag_store.axioms(1) [OF assms(1)] by (simp add: ext_env_def)
  have "typed ty r" if "r \<in> set roots" for r using up_typed roots that by blast
  then have "\<forall>r\<in>set roots. typed ty r" by blast
  note D = cg_safeD [OF copy_safe_always [OF ps assms(2,3) mem_inv_empty assms(4) this R(2)]]
  have "cg_live roots (ce_concurrency ?E) \<sigma>" by (rule cg_steps_live [OF R(2) cg_init_live])
  from cg_liveD(2,3) [OF this R(4)] R(3) have fin: "FromOCI r \<in> cg_done \<sigma>" if "r \<in> set roots" for r using that by auto
  have stored: "content s1 d \<noteq> None" if "(up_step ?fp)\<^sup>*\<^sup>* (FromOCI node) (FromOCI d)" "\<nexists>k'. up_step ?fp (FromOCI d) k'" for d
  proof -
    have "FromOCI d \<in> FromOCI ` set roots" unfolding roots using that by blast
    then obtain r where "r \<in> set roots" "FromOCI d = FromOCI r" by blast
    with fin [of r] have "FromOCI d \<in> cg_done \<sigma>" by simp
    then show ?thesis unfolding R(5) by (rule D(5))
  qed
  have s': "content s' = content s1"
    using tag_store.tag_content [OF assms(1) D(1), of node "if dstRef = [] then srcRef else dstRef"] s1(2) R(5) by simp
  have "\<exists>b. content s' x = Some b \<and> dg_verify P (Digest x) b \<and> (\<forall>b'. FetchAll P (so_Fetch src) x = Inr b' \<longrightarrow> b' = b)"
    if p: "(up_step ?fp)\<^sup>*\<^sup>* (FromOCI node) (FromOCI p)" "typed ty p" "(cg_edge P)\<^sup>*\<^sup>* p x" for p x
  proof -
    have "content s1 p \<noteq> None"
      by (rule above_stored [OF assms(5) D(3) [folded R(5)] push_store.store_key [OF ps] stored assms(6) p(1)])
    from copied_below [OF ps copy_env_okD(1) [OF assms(2)] D(1,3) [folded R(5)] this p(2,3)] s' show ?thesis by simp
  qed
  moreover have "tagged (tg_Resolve dst) (if dstRef = [] then srcRef else dstRef) node s'"
    using tag_store.tag_ok [OF assms(1) D(1) [folded R(5)] s1(2)] by (simp add: tagged_def)
  ultimately show ?thesis by blast
qed

lemma demo_ext_env_ok: "copy_env_ok demo_graph_ext demo_ty (ms_inv demo_graph_ext) ms_content
    (ext_env demo_graph_source demo_target DefaultExtendedCopyGraphOptions)"
  using demo_consistent copy_inputD(1) [OF demo_input_ok]
  by (simp add: copy_env_ok_def ext_env_def DefaultExtendedCopyGraphOptions_def demo_graph_source_def source.defs)
    (simp add: DefaultCopyGraphOptions_def)

lemma demo_ext_tag: "fst (ms_Tag (cg_dst demo_ExtendedCopy) demo_manifest ''v1'') = Inr ()"
  by code_simp

lemma demo_ext_run:
  "ExtendedCopy demo_graph_ext id_order (Some demo_graph_source) ''v1'' (Some demo_target) []
     (DefaultExtendedCopyGraphOptions :: mstore ext_opts) ms_New (Inr demo_manifest)
     (snd (ms_Tag (cg_dst demo_ExtendedCopy) demo_manifest ''v1''))"
proof (rule ext_tagged)
  show "ExtendedCopyGraph demo_graph_ext id_order demo_graph_source demo_target demo_manifest
      (DefaultExtendedCopyGraphOptions :: mstore ext_opts) ms_New (Inr ()) (cg_dst demo_ExtendedCopy)"
    by (rule ext_copied [OF demo_findRoots refl _ demo_ExtendedCopy_end, folded demo_ext_env_def])
      (simp only: demo_ExtendedCopy_def demo_ext_env_def cg_run_steps)
  show "tg_Tag demo_target (cg_dst demo_ExtendedCopy) demo_manifest (if [] = [] then ''v1'' else []) =
      (Inr (), snd (ms_Tag (cg_dst demo_ExtendedCopy) demo_manifest ''v1''))"
    using demo_ext_tag by (simp add: demo_target_def prod_eq_iff)
qed simp

theorem ExtendedCopy_correct_witness:
  "\<exists>b. ms_content (snd (ms_Tag (cg_dst demo_ExtendedCopy) demo_manifest ''v1'')) demo_referrer = Some b"
proof -
  have t: "tag_store demo_graph_ext (tg_storage demo_target) (ms_inv demo_graph_ext) ms_content (tg_Resolve demo_target)
      (tg_Tag demo_target)" by (simp add: demo_target_def mst.tag_store_axioms)
  have c: "copy_closed demo_graph_ext demo_ty (ms_content ms_New)"
    using demo_start(2) by (simp add: ms_content_def ms_New_def)
  have U: "FromOCI demo_manifest \<in> demo_U" "typed demo_ty demo_manifest" "typed demo_ty demo_referrer"
    by (simp_all add: demo_U_def typed_def)
  have pok: "preds_ok demo_graph_ext demo_ty demo_U
      (eo_predecessors demo_graph_source (DefaultExtendedCopyGraphOptions :: mstore ext_opts))"
    using demo_preds_ok by simp
  have d: "Depth (DefaultExtendedCopyGraphOptions :: mstore ext_opts) \<le> 0" by (simp add: DefaultExtendedCopyGraphOptions_def)
  have "up_step demo_preds (FromOCI demo_manifest) (FromOCI demo_referrer)"
    unfolding up_step_def
    by (intro exI [of _ demo_manifest] exI [of _ "[demo_referrer]"] exI [of _ demo_referrer]) (simp add: demo_preds_def)
  then have "(up_step demo_preds)\<^sup>*\<^sup>* (FromOCI demo_manifest) (FromOCI demo_referrer)" by (rule r_into_rtranclp)
  with ExtendedCopy_correct [OF t demo_ext_env_ok ms_inv_New c pok U(1,2) d valid_id_order demo_ext_run] U(3)
    rtranclp.rtrancl_refl [of "cg_edge demo_graph_ext" demo_referrer]
  show ?thesis by simp blast
qed

text \<open>
  Without the Referrers API, \<^verbatim>\<open>FilterArtifactType\<close> judges an image manifest by the media type of
  its config and ignores its own artifact type, by which \<^verbatim>\<open>registry.Referrers\<close> lists it: a referrer
  with a matching artifact type is dropped.
\<close>

lemma FilterArtifactType_drops_referrer:
  assumes "MediaType p = oci_MediaTypeImageManifest" "ArtifactType p = []" "so_Fetch src p = Inr rc"
    and "rd_stream rc = (b, EOF)" "ReadAll P rc p = Inr b" "un_manifest P b = Some m" "dec_manifest J rc = Inr m"
    and "m_Subject m = Some desc" "IsManifest desc" "m_ArtifactType m = at" "at \<noteq> []"
    and "matches at" "\<not> matches (MediaType (m_Config m))"
    and "so_Referrers src = None" "so_Predecessors src desc = Inr [p]" "FindPredecessors opts = None"
  shows "eo_predecessors src (FilterArtifactType J opts (Some matches)) desc = Inr []
    \<and> Referrers P None (so_Fetch src) (so_Predecessors src) desc at
        = Inr [p\<lparr>ArtifactType := at, Annotations := m_Annotations m\<rparr>]"
proof
  have "artifactType_fill J src p = Inr (p\<lparr>ArtifactType := MediaType (m_Config m)\<rparr>)"
    using assms(1-3,7) by (simp add: artifactType_fill_def fetchArtifactType_def media_type_defs)
  then show "eo_predecessors src (FilterArtifactType J opts (Some matches)) desc = Inr []"
    using assms(13-16)
    by (simp add: eo_predecessors_def FilterArtifactType_def filter_predecessors_def candidates_def)
  have "FetchAll P (so_Fetch src) p = Inr b" using assms(3,5) by (simp add: FetchAll_def)
  then have "referrer_of P (so_Fetch src) desc p = Inr (Some (p\<lparr>ArtifactType := at, Annotations := m_Annotations m\<rparr>))"
    using assms(1,6,8,10,11) by (simp add: referrer_of_def Let_def)
  then show "Referrers P None (so_Fetch src) (so_Predecessors src) desc at
        = Inr [p\<lparr>ArtifactType := at, Annotations := m_Annotations m\<rparr>]"
    using assms(9,15) by (simp add: Referrers_def)
qed

definition demo_decoders :: decoders where
  "demo_decoders = \<lparr>dec_annotations = (\<lambda>_. Inl ErrDecode), dec_artifact = (\<lambda>_. Inl ErrDecode),
     dec_manifest = (\<lambda>rc. case demo_decode (fst (rd_stream rc)) of None \<Rightarrow> Inl ErrDecode | Some m \<Rightarrow> Inr m)\<rparr>"

lemma FilterArtifactType_drops_referrer_witness:
  "eo_predecessors demo_graph_source (FilterArtifactType demo_decoders (DefaultExtendedCopyGraphOptions :: mstore ext_opts)
     (Some (\<lambda>t. t = ''sbom''))) demo_manifest = Inr []"
proof -
  define m where "m = \<lparr>m_MediaType = oci_MediaTypeImageManifest, m_ArtifactType = ''sbom'', m_Config = demo_config,
    m_Layers = [], m_Subject = Some demo_manifest, m_Annotations = None\<rparr>"
  have rc: "so_Fetch demo_graph_source demo_referrer = Inr (bytes_reader ''R'')"
    by (simp add: demo_fetch_def demo_referrer_def)
  have "demo_decode ''R'' = Some m" by (simp add: demo_decode_def m_def)
  moreover have "ReadAll demo_graph_ext (bytes_reader ''R'') demo_referrer = Inr ''R''"
    by (simp add: ReadAll_Inr demo_graph_ext_def demo_ext_def demo_referrer_def)
  moreover have "so_Referrers demo_graph_source = None" by (simp add: demo_graph_source_def source.defs)
  ultimately show ?thesis
    by (intro conjunct1 [OF FilterArtifactType_drops_referrer [where p = demo_referrer and rc = "bytes_reader ''R''"
          and b = "''R''" and m = m and at = "''sbom''" and P = demo_graph_ext]])
      (simp_all add: rc m_def demo_nodes demo_decoders_def demo_graph_ext_def demo_preds_def IsManifest_def
        DefaultExtendedCopyGraphOptions_def media_type_defs plain_desc_def demo_fetch_def)
qed

end
