(* ===== verification/Scopes.thy ===== *)
theory Scopes
  imports Go_Strings Reference "HOL-Library.List_Lexorder" "HOL-Library.Product_Lexorder"
    "HOL-Library.Char_ord"
begin

text \<open>
  \<^verbatim>\<open>registry/remote/auth/scope.go\<close>: the scopes of bearer tokens. \<^verbatim>\<open>cleanActions\<close> removes duplicates
  from a sorted slice in place, and \<^verbatim>\<open>CleanScopes\<close> merges scopes through nested maps, whose iteration
  orders are arguments. Both are compared with reference definitions. The scopes of a context are
  a record of its two kinds of keys.
\<close>

definition ScopeRegistryCatalog :: string where
  "ScopeRegistryCatalog = ''registry:catalog:*''"

section \<open>Actions\<close>

text \<open>The loop over the sorted actions; None is the early return of the wildcard.\<close>

function clean_loop :: "nat \<Rightarrow> nat \<Rightarrow> string list \<Rightarrow> (nat \<times> string list) option" where
  "clean_loop i n actions =
     (if i \<ge> length actions then Some (n, actions)
      else if actions ! i = ''*'' then None
      else if actions ! i \<noteq> actions ! n
        then let n = n + 1
          in clean_loop (i + 1) n (if n \<noteq> i then actions[n := actions ! i] else actions)
      else clean_loop (i + 1) n actions)"
  by pat_completeness auto
termination
  by (relation "measure (\<lambda>(i, n, actions). length actions - i)") (auto simp: Let_def)

declare clean_loop.simps [simp del]

definition cleanActions :: "string list \<Rightarrow> string list" where
  "cleanActions actions =
     (if length actions = 0 then []
      else if length actions = 1 then (if actions ! 0 = [] then [] else actions)
      else case clean_loop 0 0 (sort actions) of
        None \<Rightarrow> [''*'']
      | Some (n, actions) \<Rightarrow>
          let n = n + 1
          in if actions ! 0 = [] then (if n = 1 then [] else take (n - 1) (drop 1 actions))
             else take n actions)"

definition clean_actions_spec :: "string list \<Rightarrow> string list" where
  "clean_actions_spec actions =
     (if ''*'' \<in> set actions then [''*''] else sorted_list_of_set (set actions - {[]}))"

text \<open>
  The first \<open>n + 1\<close> elements are the distinct elements of the first \<open>i\<close> ones, in order; the rest has
  not changed.
\<close>

lemma clean_loop_result:
  assumes "sorted xs" "length as = length xs" "n < i \<or> i = 0 \<and> n = 0" "i \<le> length xs" "xs \<noteq> []"
    and "drop i as = drop i xs" "0 < i \<Longrightarrow> sorted_wrt (<) (take (n + 1) as)" "0 < i \<Longrightarrow> set (take (n + 1) as) = set (take i xs)"
    and "''*'' \<notin> set (take i xs)"
  shows "(''*'' \<in> set xs \<longrightarrow> clean_loop i n as = None) \<and>
    (''*'' \<notin> set xs \<longrightarrow> (\<exists>m bs. clean_loop i n as = Some (m, bs) \<and> m < length bs \<and> length bs = length xs
       \<and> sorted_wrt (<) (take (m + 1) bs) \<and> set (take (m + 1) bs) = set xs))"
  using assms(2-9)
proof (induction i n as rule: clean_loop.induct)
  case (1 i n as)
  show ?case
  proof (cases "i < length xs")
    case False
    with 1(4,5) have i: "i = length xs" by simp
    with 1(6) have "0 < i" by simp
    moreover have "clean_loop i n as = Some (n, as)" using i 1(3) clean_loop.simps [of i n as] by simp
    ultimately show ?thesis using 1(3,4,8,9,10) i by auto
  next
    case True
    have as_i: "as ! i = xs ! i" using 1(7) True 1(3) by (metis nth_via_drop Cons_nth_drop_Suc)
    have len: "length as = length xs" using 1(3) .
    have take_i: "take (i + 1) xs = take i xs @ [xs ! i]" using True by (simp add: take_Suc_conv_app_nth)
    show ?thesis
    proof (cases "xs ! i = ''*''")
      case star: True
      then have "''*'' \<in> set xs" using True by (metis nth_mem)
      with star True as_i len show ?thesis by (simp add: clean_loop.simps [of i])
    next
      case star: False
      have drop: "drop (i + 1) as = drop (i + 1) xs" using 1(7) by (metis add.commute drop_drop)
      have nostar: "''*'' \<notin> set (take (i + 1) xs)" using 1(10) star take_i by simp
      show ?thesis
      proof (cases "as ! i = as ! n")
        case same: True
        have loop: "clean_loop i n as = clean_loop (i + 1) n as"
          using same star True as_i len by (simp add: clean_loop.simps [of i])
        have n: "0 < i \<Longrightarrow> as ! n \<in> set (take (n + 1) as)" using 1(4) len True
          by (auto simp: in_set_conv_nth intro!: exI [of _ n])
        have "sorted_wrt (<) (take (n + 1) as) \<and> set (take (n + 1) as) = set (take (i + 1) xs)"
        proof (cases "i = 0")
          case i0: True
          then have "n = 0" using 1(4) by auto
          then show ?thesis using i0 take_i as_i len True by (auto simp: take_Suc_conv_app_nth)
        next
          case False
          then show ?thesis using 1(8,9) n take_i same as_i by auto
        qed
        with "1.IH"(2) [OF _ _ _ len] show ?thesis
          unfolding loop using star same as_i True len 1(4) 1(6) drop nostar by auto
      next
        case diff: False
        then have i0: "0 < i" "n < i" using 1(4) by auto
        let ?as = "if n + 1 \<noteq> i then as[n + 1 := as ! i] else as"
        have loop: "clean_loop i n as = clean_loop (i + 1) (n + 1) ?as"
          using diff star True as_i len by (simp add: clean_loop.simps [of i] Let_def)
        have n1: "n + 1 < length as" using i0 True len by simp
        have take_n: "take (n + 2) ?as = take (n + 1) as @ [as ! i]"
          using n1 by (auto simp: take_Suc_conv_app_nth numeral_2_eq_2)
        have drop': "drop (i + 1) ?as = drop (i + 1) xs" using drop i0 by simp
        have le: "x \<le> xs ! i" if "x \<in> set (take i xs)" for x
          using that assms(1) True by (auto simp: in_set_conv_nth sorted_iff_nth_mono)
        have n_in: "as ! n \<in> set (take (n + 1) as)" using n1 by (auto simp: in_set_conv_nth intro!: exI [of _ n])
        have last: "x \<le> as ! n" if "x \<in> set (take (n + 1) as)" for x
        proof -
          have "take (n + 1) as = take n as @ [as ! n]" using n1 by (simp add: take_Suc_conv_app_nth)
          with 1(8) [OF i0(1)] that show ?thesis by (auto simp: sorted_wrt_append)
        qed
        have "as ! n < as ! i" using le n_in 1(9) [OF i0(1)] diff as_i by (metis order_le_less)
        with last 1(8) [OF i0(1)] have "sorted_wrt (<) (take (n + 2) ?as)"
          unfolding take_n by (auto simp: sorted_wrt_append intro: le_less_trans)
        moreover have "set (take (n + 2) ?as) = set (take (i + 1) xs)"
          unfolding take_n take_i using 1(9) [OF i0(1)] as_i by simp
        ultimately show ?thesis
          unfolding loop using "1.IH"(1) [OF _ _ diff refl] star as_i True len i0 1(6) drop' nostar
          by (auto simp: add.assoc)
      qed
    qed
  qed
qed

lemma cleanActions_spec: "cleanActions actions = clean_actions_spec actions"
proof (cases "length actions \<ge> 2")
  case False
  then consider "actions = []" | a where "actions = [a]"
    by (cases actions; cases "tl actions") auto
  then show ?thesis by cases (auto simp: cleanActions_def clean_actions_spec_def)
next
  case True
  let ?xs = "sort actions"
  have ne: "?xs \<noteq> []" using True by (metis length_sort list.size(3) not_numeral_le_zero)
  have len: "length actions \<noteq> 0" "length actions \<noteq> 1" using True by auto
  from clean_loop_result [of ?xs ?xs 0 0] ne have R: "''*'' \<in> set actions \<Longrightarrow> clean_loop 0 0 ?xs = None"
    "''*'' \<notin> set actions \<Longrightarrow> \<exists>m bs. clean_loop 0 0 ?xs = Some (m, bs) \<and> m < length bs \<and> length bs = length ?xs
       \<and> sorted_wrt (<) (take (m + 1) bs) \<and> set (take (m + 1) bs) = set actions" by auto
  show ?thesis
  proof (cases "''*'' \<in> set actions")
    case star: True
    with R(1) len show ?thesis by (simp add: cleanActions_def clean_actions_spec_def)
  next
    case False
    with R(2) obtain m bs where bs: "clean_loop 0 0 ?xs = Some (m, bs)" "m < length bs"
      "sorted_wrt (<) (take (m + 1) bs)" "set (take (m + 1) bs) = set actions" by blast
    obtain b bs' where b: "bs = b # bs'" using bs(2) by (cases bs) auto
    have t: "take (m + 1) bs = b # take m bs'" using b by simp
    have uniq: "sorted_list_of_set (set ys) = ys" if "sorted_wrt (<) ys" for ys :: "string list"
      using that strict_sorted_equal_Uniq by (metis sorted_list_of_set.idem_if_sorted_distinct strict_sorted_iff)
    have min: "b < x" if "x \<in> set (take m bs')" for x using bs(3) that unfolding t by simp
    show ?thesis
    proof (cases "b = []")
      case True
      then have "set actions - {[]} = set (take m bs')" using bs(4) min unfolding t by auto
      moreover have "sorted_wrt (<) (take m bs')" using bs(3) unfolding t by simp
      ultimately show ?thesis
        using bs(1) b True False len uniq by (auto simp: cleanActions_def clean_actions_spec_def Let_def)
    next
      case b0: False
      have "[] \<notin> set actions"
      proof
        assume "[] \<in> set actions"
        then have "[] \<in> set (b # take m bs')" using bs(4) t by simp
        then have "[] = b \<or> b < []" using min [of "[]"] by auto
        with b0 show False by simp
      qed
      then have "set actions - {[]} = set (take (m + 1) bs)" using bs(4) by auto
      with uniq [OF bs(3)] have "sorted_list_of_set (set actions - {[]}) = take (m + 1) bs" by simp
      then show ?thesis
        using bs(1) b b0 False len by (simp add: cleanActions_def clean_actions_spec_def Let_def)
    qed
  qed
qed

section \<open>Scopes\<close>

text \<open>
  \<^verbatim>\<open>resourceTypes\<close> maps a resource type to a map from names to sets of actions; a set is the list of
  its keys. The orders are those in which the reconstruction visits the three levels.
\<close>

type_synonym named_actions = "(string, string list) gomap"

record scope_orders =
  so_types :: order
  so_names :: "string \<Rightarrow> order"
  so_actions :: "string \<Rightarrow> string \<Rightarrow> order"

definition valid_orders :: "scope_orders \<Rightarrow> bool" where
  "valid_orders os \<longleftrightarrow> valid_order (so_types os) \<and> (\<forall>t. valid_order (so_names os t))
     \<and> (\<forall>t n. valid_order (so_actions os t n))"

definition parse_scope :: "string \<Rightarrow> (string \<times> string \<times> string) option" where
  "parse_scope scope = (case Cut CHR '':'' scope of
     None \<Rightarrow> None
   | Some (resourceType, rest) \<Rightarrow>
       (case CutLast CHR '':'' rest of
          None \<Rightarrow> None
        | Some (resourceName, actions) \<Rightarrow> Some (resourceType, resourceName, actions)))"

definition add_actions :: "string list \<Rightarrow> string list \<Rightarrow> string list" where
  "add_actions = foldl (\<lambda>actionSet action.
     if action \<noteq> [] \<and> action \<notin> set actionSet then actionSet @ [action] else actionSet)"

definition merge_scope ::
  "string list \<times> (string, named_actions) gomap \<Rightarrow> string \<Rightarrow> string list \<times> (string, named_actions) gomap" where
  "merge_scope = (\<lambda>(result, resourceTypes) scope.
     case parse_scope scope of
       None \<Rightarrow> (result @ [scope], resourceTypes)
     | Some (resourceType, resourceName, actions) \<Rightarrow>
         if actions = [] then (result, resourceTypes)
         else let namedActions = gs_get resourceTypes resourceType;
                  actionSet = gs_get namedActions resourceName
           in (result, gm_put resourceType
                (gm_put resourceName (add_actions actionSet (Split CHR '','' actions)) namedActions) resourceTypes))"

fun list_actions :: "string list \<Rightarrow> string list \<Rightarrow> string list" where
  "list_actions actions [] = actions"
| "list_actions actions (action # rest) =
     (if action = ''*'' then [''*''] else list_actions (actions @ [action]) rest)"

definition scope_string :: "string \<Rightarrow> string \<Rightarrow> string list \<Rightarrow> string" where
  "scope_string resourceType resourceName actions =
     resourceType @ '':'' @ resourceName @ '':'' @ Join '','' actions"

definition rebuild :: "scope_orders \<Rightarrow> (string, named_actions) gomap \<Rightarrow> string list" where
  "rebuild os resourceTypes =
     concat (map (\<lambda>(resourceType, namedActions).
       concat (map (\<lambda>(resourceName, actionSet).
         if actionSet = [] then []
         else [scope_string resourceType resourceName
           (sort (list_actions [] (range_list (so_actions os resourceType resourceName) actionSet)))])
         (range_list (so_names os resourceType) namedActions)))
       (range_list (so_types os) resourceTypes))"

definition CleanScopes :: "scope_orders \<Rightarrow> string list \<Rightarrow> string list" where
  "CleanScopes os scopes =
     (if length scopes = 0 then []
      else if length scopes = 1 then
        let scope = scopes ! 0 in
        (case CutLast CHR '':'' scope of
           None \<Rightarrow> [scope]
         | Some (before, rest) \<Rightarrow>
             let actionList = cleanActions (Split CHR '','' rest)
             in if actionList = [] then [] else [before @ '':'' @ Join '','' actionList])
      else let (result, resourceTypes) = foldl merge_scope ([], []) scopes
        in sort (result @ rebuild os resourceTypes))"

section \<open>What a list of scopes grants\<close>

definition recognizable :: "string \<Rightarrow> bool" where
  "recognizable scope \<longleftrightarrow> parse_scope scope \<noteq> None"

definition actions_of :: "string \<Rightarrow> string \<Rightarrow> string \<Rightarrow> string set" where
  "actions_of t n scope = (case parse_scope scope of
     None \<Rightarrow> {}
   | Some (t', n', actions) \<Rightarrow> if t' = t \<and> n' = n then set (Split CHR '','' actions) - {[]} else {})"

definition all_actions :: "string list \<Rightarrow> string \<Rightarrow> string \<Rightarrow> string set" where
  "all_actions scopes t n = (\<Union>scope\<in>set scopes. actions_of t n scope)"

definition scope_keys :: "string list \<Rightarrow> (string \<times> string) set" where
  "scope_keys scopes = {(t, n). all_actions scopes t n \<noteq> {}}"

definition canonical_actions :: "string set \<Rightarrow> string list" where
  "canonical_actions A = (if ''*'' \<in> A then [''*''] else sorted_list_of_set A)"

definition CleanScopes_spec :: "string list \<Rightarrow> string list" where
  "CleanScopes_spec scopes =
     sort (filter (\<lambda>scope. \<not> recognizable scope) scopes @
       map (\<lambda>(t, n). scope_string t n (canonical_actions (all_actions scopes t n)))
         (sorted_list_of_set (scope_keys scopes)))"

section \<open>The slow path computes the reference definition\<close>

definition types_inv :: "(string, named_actions) gomap \<Rightarrow> bool" where
  "types_inv m \<longleftrightarrow> gm_ok m \<and> (\<forall>(t, named)\<in>set m. gm_ok named \<and>
     (\<forall>(n, A)\<in>set named. distinct A \<and> [] \<notin> set A))"

definition types_actions :: "(string, named_actions) gomap \<Rightarrow> string \<Rightarrow> string \<Rightarrow> string set" where
  "types_actions m t n = set (gs_get (gs_get m t) n)"

lemma add_actions_set: "set (add_actions A as) = set A \<union> (set as - {[]})"
  unfolding add_actions_def by (induction as arbitrary: A) auto

lemma add_actions_ok: "\<lbrakk>distinct A; [] \<notin> set A\<rbrakk> \<Longrightarrow> distinct (add_actions A as) \<and> [] \<notin> set (add_actions A as)"
  unfolding add_actions_def by (induction as arbitrary: A) auto

lemma types_invD:
  assumes "types_inv m"
  shows "gm_ok m" "gm_ok (gs_get m t)" "distinct (gs_get (gs_get m t) n)" "[] \<notin> set (gs_get (gs_get m t) n)"
  using assms by (fastforce simp: types_inv_def gs_get_def gm_ok_def split: option.splits dest: map_of_SomeD)+

lemma types_inv_put:
  assumes "types_inv m" "distinct A" "[] \<notin> set A"
  shows "types_inv (gm_put t (gm_put n A (gs_get m t)) m)"
proof -
  have ok: "gm_ok (gm_put t (gm_put n A (gs_get m t)) m)" "gm_ok (gm_put n A (gs_get m t))"
    using types_invD [OF assms(1)] by simp_all
  have inner: "distinct B \<and> [] \<notin> set B" if "(k, B) \<in> set (gm_put n A (gs_get m t))" for k B
  proof -
    from that ok(2) have "gm_get (gm_put n A (gs_get m t)) k = Some B" by (simp only: gm_get_in_set)
    then have "B = A \<or> gs_get (gs_get m t) k = B" by (auto simp: gs_get_def split: if_splits)
    then show ?thesis using assms(2,3) types_invD(3,4) [OF assms(1)] by metis
  qed
  have "gm_ok named \<and> (\<forall>(k, B)\<in>set named. distinct B \<and> [] \<notin> set B)"
    if "(u, named) \<in> set (gm_put t (gm_put n A (gs_get m t)) m)" for u named
  proof -
    from that ok(1) have "gm_get (gm_put t (gm_put n A (gs_get m t)) m) u = Some named" by (simp only: gm_get_in_set)
    then consider "named = gm_put n A (gs_get m t)" | "(u, named) \<in> set m"
      by (auto split: if_splits dest: map_of_SomeD)
    then show ?thesis
    proof cases
      case 1
      with ok(2) inner show ?thesis by auto
    next
      case 2
      with assms(1) show ?thesis unfolding types_inv_def by blast
    qed
  qed
  with ok(1) show ?thesis unfolding types_inv_def by blast
qed

lemma merge_scope_step:
  assumes "types_inv m"
  shows "\<exists>m'. merge_scope (r, m) scope = (r @ filter (\<lambda>scope. \<not> recognizable scope) [scope], m') \<and> types_inv m'
    \<and> (\<forall>t n. types_actions m' t n = types_actions m t n \<union> actions_of t n scope)"
proof (cases "parse_scope scope")
  case None
  with assms show ?thesis by (simp add: merge_scope_def recognizable_def actions_of_def)
next
  case (Some p)
  then obtain t n acts where p: "parse_scope scope = Some (t, n, acts)" by (cases p) auto
  show ?thesis
  proof (cases "acts = []")
    case True
    with p assms show ?thesis by (simp add: merge_scope_def recognizable_def actions_of_def)
  next
    case False
    let ?A = "add_actions (gs_get (gs_get m t) n) (Split CHR '','' acts)"
    let ?m = "gm_put t (gm_put n ?A (gs_get m t)) m"
    have "merge_scope (r, m) scope = (r, ?m)" using p False by (simp add: merge_scope_def Let_def)
    moreover have "types_inv ?m"
      using types_inv_put [OF assms] add_actions_ok types_invD(3,4) [OF assms] by blast
    moreover have "types_actions ?m u k = types_actions m u k \<union> actions_of u k scope" for u k
      using p by (auto simp: types_actions_def actions_of_def gs_get_put add_actions_set)
    ultimately show ?thesis using p by (simp add: recognizable_def)
  qed
qed

lemma merge_scopes:
  assumes "types_inv m"
  shows "\<exists>m'. foldl merge_scope (r, m) scopes = (r @ filter (\<lambda>scope. \<not> recognizable scope) scopes, m')
    \<and> types_inv m' \<and> (\<forall>t n. types_actions m' t n = types_actions m t n \<union> all_actions scopes t n)"
  using assms
proof (induction scopes arbitrary: r m)
  case Nil
  then show ?case by (simp add: all_actions_def)
next
  case (Cons scope scopes)
  obtain m1 where m1: "merge_scope (r, m) scope = (r @ filter (\<lambda>scope. \<not> recognizable scope) [scope], m1)"
    "types_inv m1" "\<And>t n. types_actions m1 t n = types_actions m t n \<union> actions_of t n scope"
    using merge_scope_step [OF Cons.prems] by blast
  from Cons.IH [OF m1(2), of "r @ filter (\<lambda>scope. \<not> recognizable scope) [scope]"] m1(1,3) show ?case
    by (auto simp: all_actions_def)
qed

lemma list_actions_eq: "list_actions acc xs = (if ''*'' \<in> set xs then [''*''] else acc @ xs)"
  by (induction xs arbitrary: acc) auto

lemma list_actions_canonical:
  "\<lbrakk>valid_order p; distinct A\<rbrakk> \<Longrightarrow> sort (list_actions [] (range_list p A)) = canonical_actions (set A)"
  by (simp add: list_actions_eq canonical_actions_def sorted_list_of_set_sort_remdups distinct_remdups_id
      mset_range_list properties_for_sort)

lemma mset_concat_range:
  assumes "valid_order p" "\<And>x. x \<in> set xs \<Longrightarrow> mset (F x) = mset (G x)"
  shows "mset (concat (map F (range_list p xs))) = mset (concat (map G xs))"
proof -
  have "mset (concat (map F ys)) = (\<Sum>x\<in>#mset ys. mset (F x))" for ys
    by (induction ys) auto
  moreover have "mset (concat (map G ys)) = (\<Sum>x\<in>#mset ys. mset (G x))" for ys
    by (induction ys) auto
  moreover have "image_mset (\<lambda>x. mset (F x)) (mset xs) = image_mset (\<lambda>x. mset (G x)) (mset xs)"
    by (rule image_mset_cong) (use assms(2) in simp)
  ultimately show ?thesis using mset_range_list [OF assms(1)] by metis
qed

definition key_list :: "(string, named_actions) gomap \<Rightarrow> (string \<times> string) list" where
  "key_list m = concat (map (\<lambda>(t, named). map (\<lambda>(n, A). (t, n)) (filter (\<lambda>(n, A). A \<noteq> []) named)) m)"

lemma key_list_set: "types_inv m \<Longrightarrow> set (key_list m) = {(t, n). types_actions m t n \<noteq> {}}"
proof (intro set_eqI)
  fix k :: "string \<times> string"
  assume m: "types_inv m"
  obtain t n where k: "k = (t, n)" by (cases k)
  have "k \<in> set (key_list m) \<longleftrightarrow> (\<exists>named A. (t, named) \<in> set m \<and> (n, A) \<in> set named \<and> A \<noteq> [])"
    unfolding k key_list_def by force
  also have "\<dots> \<longleftrightarrow> (\<exists>named A. gm_get m t = Some named \<and> gm_get named n = Some A \<and> A \<noteq> [])"
    using m unfolding types_inv_def by (metis (no_types, lifting) case_prodD gm_get_in_set)
  also have "\<dots> \<longleftrightarrow> types_actions m t n \<noteq> {}"
    by (cases "gm_get m t"; cases "gm_get (gs_get m t) n") (simp_all add: types_actions_def gs_get_def)
  finally show "k \<in> set (key_list m) \<longleftrightarrow> k \<in> {(t, n). types_actions m t n \<noteq> {}}" by (simp add: k)
qed

lemma key_list_distinct: "types_inv m \<Longrightarrow> distinct (key_list m)"
proof (induction m)
  case Nil
  then show ?case by (simp add: key_list_def)
next
  case (Cons e m)
  obtain t named where e: "e = (t, named)" by (cases e)
  from Cons.prems have m: "types_inv m" "gm_ok named" "t \<notin> fst ` set m"
    by (auto simp: types_inv_def gm_ok_def e)
  have "distinct (map (\<lambda>(n, A). (t, n)) (filter (\<lambda>(n, A). A \<noteq> []) named))"
    using m(2) unfolding gm_ok_def by (induction named) force+
  moreover have "fst ` set (key_list m) \<subseteq> fst ` set m" unfolding key_list_def by force
  ultimately show ?case using Cons.IH [OF m(1)] m(3) by (force simp: key_list_def e)
qed

lemma mset_rebuild:
  assumes "valid_orders os" "types_inv m"
  shows "mset (rebuild os m) = mset (map (\<lambda>(t, n). scope_string t n (canonical_actions (types_actions m t n)))
    (sorted_list_of_set {(t, n). types_actions m t n \<noteq> {}}))"
proof -
  let ?S = "\<lambda>(t, n). scope_string t n (canonical_actions (types_actions m t n))"
  let ?K = "\<lambda>(t, named). map (\<lambda>(n, A). (t, n)) (filter (\<lambda>(n, A). A \<noteq> []) named)"
  have inner: "mset (concat (map (\<lambda>(n, A). if A = [] then []
      else [scope_string t n (sort (list_actions [] (range_list (so_actions os t n) A)))])
      (range_list (so_names os t) named))) = mset (map ?S (?K (t, named)))"
    if e: "(t, named) \<in> set m" for t named
  proof -
    have named: "gm_get m t = Some named" "gm_ok named"
      using e assms(2) by (auto simp: types_inv_def gm_get_in_set)
    have A: "canonical_actions (set A) = canonical_actions (types_actions m t n) \<and> distinct A"
      if "(n, A) \<in> set named" for n A
    proof -
      have "gm_get named n = Some A" using that named(2) by (simp only: gm_get_in_set)
      then have "gs_get (gs_get m t) n = A" using named(1) by (simp add: gs_get_def)
      then show ?thesis using types_invD(3) [OF assms(2), of t n] by (simp add: types_actions_def)
    qed
    have "mset (concat (map (\<lambda>(n, A). if A = [] then []
        else [scope_string t n (sort (list_actions [] (range_list (so_actions os t n) A)))])
        (range_list (so_names os t) named)))
      = mset (concat (map (\<lambda>(n, A). if A = [] then [] else [?S (t, n)]) named))"
      by (rule mset_concat_range)
        (use assms(1) A in \<open>auto simp: valid_orders_def list_actions_canonical split: prod.splits\<close>)
    also have "concat (map (\<lambda>(n, A). if A = [] then [] else [?S (t, n)]) named) = map ?S (?K (t, named))"
      by (induction named) auto
    finally show ?thesis .
  qed
  have "mset (rebuild os m) = mset (concat (map (\<lambda>e. map ?S (?K e)) m))"
    unfolding rebuild_def
    by (rule mset_concat_range)
      (use assms(1) in \<open>simp_all only: valid_orders_def split_paired_all prod.case inner\<close>)
  also have "concat (map (\<lambda>e. map ?S (?K e)) m) = map ?S (key_list m)"
    by (simp add: key_list_def map_concat comp_def)
  also have "mset (map ?S (key_list m)) = mset (map ?S (sorted_list_of_set (set (key_list m))))"
    using key_list_distinct [OF assms(2)]
    by (simp add: sorted_list_of_set_sort_remdups distinct_remdups_id)
  finally show ?thesis unfolding key_list_set [OF assms(2)] .
qed

lemma scope_keys_finite: "finite (scope_keys scopes)"
proof -
  have "scope_keys scopes \<subseteq> (\<lambda>scope. case the (parse_scope scope) of (t, n, a) \<Rightarrow> (t, n)) ` set scopes"
    by (force simp: scope_keys_def all_actions_def actions_of_def split: option.splits if_splits)
  then show ?thesis by (rule finite_subset) simp
qed

lemma CleanScopes_slow:
  assumes "valid_orders os" "length scopes \<noteq> 1"
  shows "CleanScopes os scopes = CleanScopes_spec scopes"
proof (cases scopes)
  case Nil
  then show ?thesis by (simp add: CleanScopes_def CleanScopes_spec_def scope_keys_def all_actions_def)
next
  case (Cons a list)
  have "types_inv []" "\<And>t n. types_actions [] t n = {}"
    by (simp_all add: types_inv_def types_actions_def gs_get_def)
  with merge_scopes [of "[]" "[]" scopes] obtain m where
    m: "foldl merge_scope ([], []) scopes = (filter (\<lambda>scope. \<not> recognizable scope) scopes, m)" "types_inv m"
      "\<And>t n. types_actions m t n = all_actions scopes t n" by auto
  from mset_rebuild [OF assms(1) m(2)] m(3) have "mset (rebuild os m) =
    mset (map (\<lambda>(t, n). scope_string t n (canonical_actions (all_actions scopes t n)))
      (sorted_list_of_set (scope_keys scopes)))" by (simp add: scope_keys_def)
  then have "sort (filter (\<lambda>scope. \<not> recognizable scope) scopes @ rebuild os m) = CleanScopes_spec scopes"
    unfolding CleanScopes_spec_def by (intro properties_for_sort) simp_all
  with m(1) Cons assms(2) show ?thesis by (simp add: CleanScopes_def)
qed

text \<open>On a single recognizable scope the fast path computes the same.\<close>

lemma parse_scope_Some: "parse_scope scope = Some (t, n, a) \<longleftrightarrow>
  scope = t @ '':'' @ n @ '':'' @ a \<and> CHR '':'' \<notin> set t \<and> CHR '':'' \<notin> set a"
proof
  assume "parse_scope scope = Some (t, n, a)"
  then show "scope = t @ '':'' @ n @ '':'' @ a \<and> CHR '':'' \<notin> set t \<and> CHR '':'' \<notin> set a"
    by (auto simp: parse_scope_def Cut_Some CutLast_Some split: option.splits)
next
  assume s: "scope = t @ '':'' @ n @ '':'' @ a \<and> CHR '':'' \<notin> set t \<and> CHR '':'' \<notin> set a"
  then have "Cut CHR '':'' scope = Some (t, n @ '':'' @ a)" "CutLast CHR '':'' (n @ '':'' @ a) = Some (n, a)"
    by (simp_all add: Cut_Some CutLast_Some)
  then show "parse_scope scope = Some (t, n, a)" by (simp add: parse_scope_def)
qed

lemma CleanScopes_fast:
  assumes "recognizable scope"
  shows "CleanScopes os [scope] = CleanScopes_spec [scope]"
proof -
  from assms obtain t n a where p: "parse_scope scope = Some (t, n, a)" by (auto simp: recognizable_def)
  then have cut: "CutLast CHR '':'' scope = Some (t @ '':'' @ n, a)"
    by (simp add: parse_scope_Some CutLast_Some)
  let ?A = "set (Split CHR '','' a) - {[]}"
  have all: "all_actions [scope] u k = (if u = t \<and> k = n then ?A else {})" for u k
    using p by (simp add: all_actions_def actions_of_def)
  have keys: "scope_keys [scope] = (if ?A = {} then {} else {(t, n)})"
    by (auto simp: scope_keys_def all split: if_splits)
  have clean: "cleanActions (Split CHR '','' a) = canonical_actions ?A"
    by (auto simp: cleanActions_spec clean_actions_spec_def canonical_actions_def)
  have "canonical_actions ?A = [] \<longleftrightarrow> ?A = {}" by (auto simp: canonical_actions_def)
  then show ?thesis
    using assms by (auto simp: CleanScopes_def cut CleanScopes_spec_def keys all clean scope_string_def)
qed


definition demo_orders :: scope_orders where
  "demo_orders = \<lparr>so_types = rev_order, so_names = (\<lambda>_. id_order), so_actions = (\<lambda>_ _. rev_order)\<rparr>"

lemma demo_orders_valid: "valid_orders demo_orders"
  by (simp add: valid_orders_def demo_orders_def)


section \<open>Cleaning keeps what is granted\<close>

definition granted :: "string list \<Rightarrow> string \<Rightarrow> string \<Rightarrow> string \<Rightarrow> bool" where
  "granted scopes t n a \<longleftrightarrow> a \<in> all_actions scopes t n \<or> ''*'' \<in> all_actions scopes t n"

definition clean_chars :: "string \<Rightarrow> bool" where
  "clean_chars a \<longleftrightarrow> a \<noteq> [] \<and> CHR '':'' \<notin> set a \<and> CHR '','' \<notin> set a"

lemma all_actions_Nil [simp]: "all_actions [] t n = {}"
  by (simp add: all_actions_def)

lemma all_actions_append: "all_actions (xs @ ys) t n = all_actions xs t n \<union> all_actions ys t n"
  by (simp add: all_actions_def)

lemma all_actions_finite: "finite (all_actions scopes t n)"
  by (auto simp: all_actions_def actions_of_def split: option.splits)

lemma actions_of_chars:
  assumes "a \<in> actions_of t n scope"
  shows "clean_chars a" "CHR '':'' \<notin> set t"
proof -
  from assms obtain acts where p: "parse_scope scope = Some (t, n, acts)" "a \<in> set (Split CHR '','' acts)" "a \<noteq> []"
    by (auto simp: actions_of_def split: option.splits if_splits)
  have "set a \<subseteq> set acts" using p(2) by (metis Join_Split Join_member_chars)
  with p show "clean_chars a" "CHR '':'' \<notin> set t"
    by (auto simp: parse_scope_Some clean_chars_def dest: Split_no_sep)
qed

lemma scope_string_actions:
  assumes "CHR '':'' \<notin> set t" "C \<noteq> []" "\<forall>a\<in>set C. clean_chars a"
  shows "recognizable (scope_string t n C)"
    and "actions_of u k (scope_string t n C) = (if u = t \<and> k = n then set C else {})"
proof -
  have "CHR '':'' \<notin> set (Join '','' C)" using Join_chars [of _ "'',''" C] assms(3) by (fastforce simp: clean_chars_def)
  then have p: "parse_scope (scope_string t n C) = Some (t, n, Join '','' C)"
    using assms(1) by (simp add: parse_scope_Some scope_string_def)
  then show "recognizable (scope_string t n C)" by (simp add: recognizable_def)
  have "Split CHR '','' (Join '','' C) = C" using assms(2,3) by (intro Split_Join) (auto simp: clean_chars_def)
  with p assms(3) show "actions_of u k (scope_string t n C) = (if u = t \<and> k = n then set C else {})"
    by (auto simp: actions_of_def clean_chars_def)
qed

lemma canonical_actions_props:
  assumes "finite A" "\<forall>a\<in>A. clean_chars a"
  shows "set (canonical_actions A) = (if ''*'' \<in> A then {''*''} else A)" "\<forall>a\<in>set (canonical_actions A). clean_chars a"
  using assms by (auto simp: canonical_actions_def)

lemma all_actions_clean: "a \<in> all_actions scopes t n \<Longrightarrow> clean_chars a \<and> CHR '':'' \<notin> set t"
  using actions_of_chars by (auto simp: all_actions_def)

lemma spec_scope:
  assumes "(t, n) \<in> scope_keys scopes"
  defines "s \<equiv> scope_string t n (canonical_actions (all_actions scopes t n))"
  shows "recognizable s"
    and "actions_of u k s = (if u = t \<and> k = n then set (canonical_actions (all_actions scopes t n)) else {})"
proof -
  have c: "\<forall>a\<in>set (canonical_actions (all_actions scopes t n)). clean_chars a"
    using canonical_actions_props(2) [OF all_actions_finite] all_actions_clean by blast
  have t: "CHR '':'' \<notin> set t" using assms(1) all_actions_clean by (force simp: scope_keys_def)
  have ne: "canonical_actions (all_actions scopes t n) \<noteq> []"
    using assms(1) all_actions_finite by (auto simp: canonical_actions_def scope_keys_def)
  show "recognizable s" "actions_of u k s =
    (if u = t \<and> k = n then set (canonical_actions (all_actions scopes t n)) else {})"
    unfolding s_def using scope_string_actions [OF t ne c] by auto
qed

lemma CleanScopes_spec_set:
  "set (CleanScopes_spec scopes) = {scope \<in> set scopes. \<not> recognizable scope}
     \<union> (\<lambda>(t, n). scope_string t n (canonical_actions (all_actions scopes t n))) ` scope_keys scopes"
  using scope_keys_finite by (simp add: CleanScopes_spec_def)

lemma CleanScopes_spec_actions:
  "all_actions (CleanScopes_spec scopes) t n = set (canonical_actions (all_actions scopes t n))"
proof -
  have unrec: "actions_of t n scope = {}" if "\<not> recognizable scope" for scope
    using that by (auto simp: actions_of_def recognizable_def split: option.splits)
  have "all_actions (CleanScopes_spec scopes) t n =
    (\<Union>(u, k)\<in>scope_keys scopes. actions_of t n (scope_string u k (canonical_actions (all_actions scopes u k))))"
    unfolding all_actions_def [of "CleanScopes_spec scopes"] CleanScopes_spec_set using unrec by auto
  also have "\<dots> = (\<Union>(u, k)\<in>scope_keys scopes.
      if t = u \<and> n = k then set (canonical_actions (all_actions scopes u k)) else {})"
    by (intro SUP_cong refl) (auto simp: spec_scope(2) split: prod.splits)
  also have "\<dots> = set (canonical_actions (all_actions scopes t n))"
    by (auto simp: scope_keys_def canonical_actions_def split: if_splits)
  finally show ?thesis .
qed

lemma granted_spec: "granted (CleanScopes_spec scopes) t n a \<longleftrightarrow> granted scopes t n a"
  using canonical_actions_props(1) [OF all_actions_finite] all_actions_clean
  unfolding granted_def CleanScopes_spec_actions by (smt (verit) singleton_iff)

lemma recognizable_spec: "\<forall>s\<in>set scopes. recognizable s \<Longrightarrow> \<forall>s\<in>set (CleanScopes_spec scopes). recognizable s"
  unfolding CleanScopes_spec_set using spec_scope(1) by auto

lemma granted_append: "granted (xs @ ys) t n a \<longleftrightarrow> granted xs t n a \<or> granted ys t n a"
  by (auto simp: granted_def all_actions_append)

text \<open>On recognizable scopes the cleaned list is the reference one, whatever the number of scopes.\<close>

lemma CleanScopes_recognizable:
  assumes "valid_orders os" "\<forall>s\<in>set scopes. recognizable s"
  shows "CleanScopes os scopes = CleanScopes_spec scopes"
proof (cases "length scopes = 1")
  case True
  then obtain scope where "scopes = [scope]" by (cases scopes) auto
  with assms(2) CleanScopes_fast show ?thesis by simp
next
  case False
  with assms(1) show ?thesis by (rule CleanScopes_slow)
qed

section \<open>Scopes of a context\<close>

text \<open>
  The values of a context under the key of the global scopes and under the keys of the hosts.
\<close>

record context_scopes =
  cx_scopes :: "string list option"
  cx_host :: "string \<Rightarrow> string list option"

definition GetScopes :: "context_scopes \<Rightarrow> string list" where
  "GetScopes ctx = (case cx_scopes ctx of Some scopes \<Rightarrow> scopes | None \<Rightarrow> [])"

definition WithScopes :: "scope_orders \<Rightarrow> context_scopes \<Rightarrow> string list \<Rightarrow> context_scopes" where
  "WithScopes os ctx scopes = ctx\<lparr>cx_scopes := Some (CleanScopes os scopes)\<rparr>"

definition AppendScopes :: "scope_orders \<Rightarrow> context_scopes \<Rightarrow> string list \<Rightarrow> context_scopes" where
  "AppendScopes os ctx scopes =
     (if length scopes = 0 then ctx else WithScopes os ctx (GetScopes ctx @ scopes))"

definition GetScopesForHost :: "context_scopes \<Rightarrow> string \<Rightarrow> string list" where
  "GetScopesForHost ctx host = (case cx_host ctx host of Some scopes \<Rightarrow> scopes | None \<Rightarrow> [])"

definition WithScopesForHost :: "scope_orders \<Rightarrow> context_scopes \<Rightarrow> string \<Rightarrow> string list \<Rightarrow> context_scopes" where
  "WithScopesForHost os ctx host scopes = ctx\<lparr>cx_host := (cx_host ctx)(host \<mapsto> CleanScopes os scopes)\<rparr>"

definition AppendScopesForHost :: "scope_orders \<Rightarrow> context_scopes \<Rightarrow> string \<Rightarrow> string list \<Rightarrow> context_scopes" where
  "AppendScopesForHost os ctx host scopes =
     (if length scopes = 0 then ctx
      else let oldScopes = GetScopesForHost ctx host
        in WithScopesForHost os ctx host (oldScopes @ scopes))"

definition GetAllScopesForHost :: "scope_orders \<Rightarrow> context_scopes \<Rightarrow> string \<Rightarrow> string list" where
  "GetAllScopesForHost os ctx host =
     (let scopes = GetScopesForHost ctx host;
          globalScopes = GetScopes ctx
      in if length scopes = 0 then globalScopes
         else if length globalScopes = 0 then scopes
         else CleanScopes os (scopes @ globalScopes))"

definition ScopeRepository :: "string \<Rightarrow> string list \<Rightarrow> string" where
  "ScopeRepository repository actions =
     (let actions = cleanActions actions
      in if repository = [] \<or> length actions = 0 then []
         else Join '':'' [''repository'', repository, Join '','' actions])"

definition AppendRepositoryScope ::
  "scope_orders \<Rightarrow> context_scopes \<Rightarrow> reference \<Rightarrow> string list \<Rightarrow> context_scopes" where
  "AppendRepositoryScope os ctx ref actions =
     (if length actions = 0 then ctx
      else let scope = ScopeRepository (Repository ref) actions
        in AppendScopesForHost os ctx (Host ref) [scope])"

definition context_ok :: "context_scopes \<Rightarrow> bool" where
  "context_ok ctx \<longleftrightarrow> (\<forall>s\<in>set (GetScopes ctx). recognizable s)
     \<and> (\<forall>host. \<forall>s\<in>set (GetScopesForHost ctx host). recognizable s)"

definition host_granted :: "context_scopes \<Rightarrow> string \<Rightarrow> string \<Rightarrow> string \<Rightarrow> string \<Rightarrow> bool" where
  "host_granted ctx host t n a \<longleftrightarrow> granted (GetScopes ctx) t n a \<or> granted (GetScopesForHost ctx host) t n a"

lemma GetAllScopesForHost_granted:
  assumes "valid_orders os" "context_ok ctx"
  shows "granted (GetAllScopesForHost os ctx host) t n a \<longleftrightarrow> host_granted ctx host t n a"
proof -
  have "CleanScopes os (GetScopesForHost ctx host @ GetScopes ctx) =
      CleanScopes_spec (GetScopesForHost ctx host @ GetScopes ctx)"
    using assms by (auto simp: context_ok_def intro!: CleanScopes_recognizable)
  then show ?thesis
    using granted_spec granted_append
    by (auto simp: GetAllScopesForHost_def Let_def host_granted_def granted_def [of "[]"])
qed

lemma AppendScopesForHost_granted:
  assumes "valid_orders os" "context_ok ctx" "\<forall>s\<in>set scopes. recognizable s"
  shows "context_ok (AppendScopesForHost os ctx host scopes)"
    and "host_granted (AppendScopesForHost os ctx host scopes) h t n a \<longleftrightarrow> host_granted ctx h t n a \<or> h = host \<and> granted scopes t n a"
proof -
  have rec: "\<forall>s\<in>set (GetScopesForHost ctx host @ scopes). recognizable s"
    using assms(2,3) by (auto simp: context_ok_def)
  note * = CleanScopes_recognizable [OF assms(1) rec] recognizable_spec [OF rec]
  show "context_ok (AppendScopesForHost os ctx host scopes)"
    using assms(2) *
    by (auto simp: AppendScopesForHost_def WithScopesForHost_def context_ok_def GetScopes_def GetScopesForHost_def Let_def)
  have G: "granted (CleanScopes os (GetScopesForHost ctx host @ scopes)) t n a \<longleftrightarrow>
      granted (GetScopesForHost ctx host) t n a \<or> granted scopes t n a"
    unfolding *(1) granted_spec granted_append ..
  have get: "GetScopes (AppendScopesForHost os ctx host scopes) = GetScopes ctx"
    "GetScopesForHost (AppendScopesForHost os ctx host scopes) h =
      (if scopes \<noteq> [] \<and> h = host then CleanScopes os (GetScopesForHost ctx host @ scopes) else GetScopesForHost ctx h)"
    by (auto simp: AppendScopesForHost_def WithScopesForHost_def GetScopes_def GetScopesForHost_def Let_def)
  show "host_granted (AppendScopesForHost os ctx host scopes) h t n a \<longleftrightarrow>
      host_granted ctx h t n a \<or> h = host \<and> granted scopes t n a"
  proof (cases "scopes \<noteq> [] \<and> h = host")
    case True
    then show ?thesis unfolding host_granted_def get using G by auto
  next
    case False
    then have "\<not> (h = host \<and> granted scopes t n a)" by (auto simp: granted_def)
    with False show ?thesis unfolding host_granted_def get by auto
  qed
qed

lemma ScopeRepository_granted:
  assumes "repository \<noteq> []" "actions \<noteq> []" "\<forall>a\<in>set actions. clean_chars a"
  shows "recognizable (ScopeRepository repository actions)"
    and "granted [ScopeRepository repository actions] t n a \<longleftrightarrow>
      t = ''repository'' \<and> n = repository \<and> (a \<in> set actions \<or> ''*'' \<in> set actions)"
proof -
  have eq: "cleanActions actions = canonical_actions (set actions)"
  proof -
    have "set actions - {[]} = set actions" using assms(3) by (auto simp: clean_chars_def)
    then show ?thesis by (simp add: cleanActions_spec clean_actions_spec_def canonical_actions_def)
  qed
  note C = canonical_actions_props [OF finite_set assms(3)]
  have ne: "canonical_actions (set actions) \<noteq> []" using C(1) assms(2) by (metis set_empty insert_not_empty)
  have s: "ScopeRepository repository actions = scope_string ''repository'' repository (canonical_actions (set actions))"
    using assms(1) ne by (simp add: ScopeRepository_def eq scope_string_def)
  have "CHR '':'' \<notin> set ''repository''" by simp
  note S = scope_string_actions [OF this ne C(2), where n = repository]
  show "recognizable (ScopeRepository repository actions)" unfolding s by (rule S(1))
  show "granted [ScopeRepository repository actions] t n a \<longleftrightarrow>
      t = ''repository'' \<and> n = repository \<and> (a \<in> set actions \<or> ''*'' \<in> set actions)"
    unfolding s granted_def all_actions_def using S(2) C(1) by auto
qed

text \<open>
  C20. Asking for actions on a repository extends the scopes that the client gets for its host by exactly
  these actions (by all of them when the wildcard is among them), and changes nothing for another host.
\<close>

theorem AppendRepositoryScope_grants:
  assumes "valid_orders os" "context_ok ctx" "Repository ref \<noteq> []" "\<forall>a\<in>set actions. clean_chars a"
  shows "granted (GetAllScopesForHost os (AppendRepositoryScope os ctx ref actions) host) t n a \<longleftrightarrow>
    granted (GetAllScopesForHost os ctx host) t n a
    \<or> host = Host ref \<and> t = ''repository'' \<and> n = Repository ref \<and> (a \<in> set actions \<or> ''*'' \<in> set actions)"
proof (cases "actions = []")
  case True
  then show ?thesis by (simp add: AppendRepositoryScope_def)
next
  case False
  note S = ScopeRepository_granted [OF assms(3) False assms(4)]
  have "\<forall>s\<in>set [ScopeRepository (Repository ref) actions]. recognizable s" using S(1) by simp
  note A = AppendScopesForHost_granted [OF assms(1,2) this, of "Host ref"]
  have "AppendRepositoryScope os ctx ref actions =
      AppendScopesForHost os ctx (Host ref) [ScopeRepository (Repository ref) actions]"
    using False by (simp add: AppendRepositoryScope_def)
  then show ?thesis
    using A S(2) GetAllScopesForHost_granted [OF assms(1)] assms(2) by auto
qed

definition demo_context :: context_scopes where
  "demo_context = \<lparr>cx_scopes = Some [''registry:catalog:*''], cx_host = (\<lambda>_. None)\<rparr>"

definition demo_ref :: reference where
  "demo_ref = \<lparr>Registry = ''docker.io'', Repository = ''library/a'', Reference = []\<rparr>"

theorem AppendRepositoryScope_grants_witness:
  "GetAllScopesForHost demo_orders
     (AppendRepositoryScope demo_orders demo_context demo_ref [''push'', ''pull'', ''push'']) ''registry-1.docker.io''
     = [''registry:catalog:*'', ''repository:library/a:pull,push'']
   \<and> granted [''registry:catalog:*'', ''repository:library/a:pull,push''] ''repository'' ''library/a'' ''pull''"
proof -
  have ok: "context_ok demo_context"
  proof -
    have "recognizable ''registry:catalog:*''" by code_simp
    then show ?thesis by (simp add: context_ok_def demo_context_def GetScopes_def GetScopesForHost_def)
  qed
  have run: "GetAllScopesForHost demo_orders
     (AppendRepositoryScope demo_orders demo_context demo_ref [''push'', ''pull'', ''push'']) ''registry-1.docker.io''
     = [''registry:catalog:*'', ''repository:library/a:pull,push'']" by code_simp
  have host: "Host demo_ref = ''registry-1.docker.io''" by code_simp
  have "Repository demo_ref \<noteq> []" "\<forall>a\<in>set [''push'', ''pull'', ''push'']. clean_chars a" by code_simp+
  from AppendRepositoryScope_grants [OF demo_orders_valid ok this, of "''registry-1.docker.io''" "''repository''" "''library/a''" "''pull''"]
  show ?thesis unfolding run using host by (simp add: run demo_ref_def)
qed

text \<open>
  Two scopes that are not of the form type, name and actions are kept as they are, even when they are equal.
\<close>

lemma CleanScopes_keeps_duplicates: "CleanScopes demo_orders [''a'', ''a''] = [''a'', ''a'']"
  by code_simp

end
