(* ===== verification/Go_Time.thy ===== *)
theory Go_Time
  imports Go_Strings
begin

text \<open>
  What \<^verbatim>\<open>time.Parse(time.RFC3339, value)\<close> accepts. The layout is
  \<^verbatim>\<open>2006-01-02T15:04:05Z07:00\<close>: the fields have two digits, except that the year has four and
  that an hour may have one; a fraction of a second follows a period or a comma; the zone is \<^verbatim>\<open>Z\<close> or
  a signed offset. Each function consumes a prefix of the value.
\<close>

definition digit :: "char \<Rightarrow> nat option" where
  "digit c = (let n = of_char c in if 48 \<le> n \<and> n \<le> (57 :: nat) then Some (n - 48) else None)"

fun number :: "nat \<Rightarrow> string \<Rightarrow> nat option" where
  "number acc [] = Some acc"
| "number acc (c # cs) = (case digit c of None \<Rightarrow> None | Some d \<Rightarrow> number (10 * acc + d) cs)"

fun getnum :: "bool \<Rightarrow> string \<Rightarrow> (nat \<times> string) option" where
  "getnum fixed [] = None"
| "getnum fixed (a # s) = (case digit a of
     None \<Rightarrow> None
   | Some x \<Rightarrow> (case s of
       [] \<Rightarrow> if fixed then None else Some (x, [])
     | b # rest \<Rightarrow> (case digit b of
         None \<Rightarrow> if fixed then None else Some (x, s)
       | Some y \<Rightarrow> Some (10 * x + y, rest))))"

definition skip :: "char \<Rightarrow> string \<Rightarrow> string option" where
  "skip c s = (case s of [] \<Rightarrow> None | x # rest \<Rightarrow> if x = c then Some rest else None)"

definition leap_year :: "nat \<Rightarrow> bool" where
  "leap_year y \<longleftrightarrow> y mod 4 = 0 \<and> (y mod 100 \<noteq> 0 \<or> y mod 400 = 0)"

definition daysIn :: "nat \<Rightarrow> nat \<Rightarrow> nat" where
  "daysIn month year =
     (if month = 2 then (if leap_year year then 29 else 28)
      else if month \<in> {4, 6, 9, 11} then 30 else 31)"

fun skip_fraction :: "string \<Rightarrow> string" where
  "skip_fraction (c # d # rest) =
     (if c \<in> {CHR ''.'', CHR '',''} \<and> digit d \<noteq> None
      then dropWhile (\<lambda>x. digit x \<noteq> None) rest else c # d # rest)"
| "skip_fraction s = s"

definition zone_ok :: "string \<Rightarrow> bool" where
  "zone_ok s \<longleftrightarrow> s = ''Z'' \<or>
     length s = 6 \<and> s ! 0 \<in> {CHR ''+'', CHR ''-''} \<and> s ! 3 = CHR '':'' \<and>
     (case (number 0 (take 2 (drop 1 s)), number 0 (drop 4 s)) of
        (Some hr, Some mm) \<Rightarrow> hr \<le> 24 \<and> mm \<le> 60
      | _ \<Rightarrow> False)"

definition RFC3339_ok :: "string \<Rightarrow> bool" where
  "RFC3339_ok value = (case number 0 (take 4 value) of None \<Rightarrow> False | Some year \<Rightarrow>
     length value \<ge> 4 \<and>
     (case skip CHR ''-'' (drop 4 value) of None \<Rightarrow> False | Some s \<Rightarrow>
     (case getnum True s of None \<Rightarrow> False | Some (month, s) \<Rightarrow> 1 \<le> month \<and> month \<le> 12 \<and>
     (case skip CHR ''-'' s of None \<Rightarrow> False | Some s \<Rightarrow>
     (case getnum True s of None \<Rightarrow> False | Some (day, s) \<Rightarrow> 1 \<le> day \<and> day \<le> daysIn month year \<and>
     (case skip CHR ''T'' s of None \<Rightarrow> False | Some s \<Rightarrow>
     (case getnum False s of None \<Rightarrow> False | Some (hour, s) \<Rightarrow> hour < 24 \<and>
     (case skip CHR '':'' s of None \<Rightarrow> False | Some s \<Rightarrow>
     (case getnum True s of None \<Rightarrow> False | Some (minute, s) \<Rightarrow> minute < 60 \<and>
     (case skip CHR '':'' s of None \<Rightarrow> False | Some s \<Rightarrow>
     (case getnum True s of None \<Rightarrow> False | Some (sec, s) \<Rightarrow> sec < 60 \<and>
       zone_ok (skip_fraction s))))))))))))"

lemma RFC3339_examples:
  "RFC3339_ok ''2000-02-29T00:00:00Z''" "RFC3339_ok ''2024-01-02T03:04:05.678+09:00''"
  "\<not> RFC3339_ok ''1900-02-29T00:00:00Z''" "\<not> RFC3339_ok ''2024-01-02 03:04:05Z''"
  "\<not> RFC3339_ok ''2024-01-02T03:04:05''"
  by code_simp+

end
