(* ===== verification/Pack.thy ===== *)
theory Pack
  imports Memory_Store Oci_Store Regexp Go_Time
begin

text \<open>
  \<^verbatim>\<open>pack.go\<close>: building a manifest of given layers and pushing it with its config. The JSON encoding of
  manifests and the descriptor of the empty JSON object, which come from the image-spec package, are the
  parameter \<open>M\<close>; the current time, formatted, is the argument \<open>now\<close>. A missing and an empty list of
  layers are both the empty list.
\<close>

record pack_ext =
  mar_manifest :: "manifest \<Rightarrow> bytes option"
  mar_artifact :: "artifact \<Rightarrow> bytes option"
  DescriptorEmptyJSON :: descriptor

record 's pusher =
  pu_Push :: "'s \<Rightarrow> descriptor \<Rightarrow> reader \<Rightarrow> unit res \<times> 's"
  pu_Exists :: "('s \<Rightarrow> descriptor \<Rightarrow> bool res) option"

type_synonym annotations = "(string, string) gomap option"

record PackManifestOptions =
  po_Subject :: "descriptor option"
  po_Layers :: "descriptor list"
  po_ManifestAnnotations :: annotations
  po_ConfigDescriptor :: "descriptor option"
  po_ConfigAnnotations :: annotations

record PackOptions =
  pk_Subject :: "descriptor option"
  pk_ManifestAnnotations :: annotations
  pk_PackImageManifest :: bool
  pk_ConfigDescriptor :: "descriptor option"
  pk_ConfigAnnotations :: annotations

definition MediaTypeUnknownConfig :: string where
  "MediaTypeUnknownConfig = ''application/vnd.unknown.config.v1+json''"

definition MediaTypeUnknownArtifact :: string where
  "MediaTypeUnknownArtifact = ''application/vnd.unknown.artifact.v1''"

definition oci_MediaTypeEmptyJSON :: string where
  "oci_MediaTypeEmptyJSON = ''application/vnd.oci.empty.v1+json''"

definition oci_AnnotationCreated :: string where
  "oci_AnnotationCreated = ''org.opencontainers.image.created''"

definition AnnotationArtifactCreated :: string where
  "AnnotationArtifactCreated = ''org.opencontainers.artifact.created''"

definition PackManifestVersion1_0 :: int where "PackManifestVersion1_0 = 1"

definition PackManifestVersion1_1 :: int where "PackManifestVersion1_1 = 2"

text \<open>In the classes of the pattern \<^verbatim>\<open>&-^\<close> is a range, from the ampersand to the caret.\<close>

abbreviation "alnum \<equiv> [rng CHR ''A'' CHR ''Z'', rng CHR ''a'' CHR ''z'', rng CHR ''0'' CHR ''9'']"

definition mediaTypeRegexp :: re where
  "mediaTypeRegexp =
     (let part = Seq (Cls alnum) (Upto 126 (Cls (alnum @ chars ''!#$'' @ [rng CHR ''&'' CHR ''^''] @ chars ''_.+'')))
      in Seq part (Seq (Cls (chars ''/'')) part))"

definition validateMediaType :: "string \<Rightarrow> unit res" where
  "validateMediaType mediaType =
     (if \<not> re_match mediaTypeRegexp mediaType then Inl ErrInvalidMediaType else Inr ())"

text \<open>The names on both sides of a slash, and what the pattern accepts.\<close>

abbreviation "name_chars \<equiv> alnum @ chars ''!#$'' @ [rng CHR ''&'' CHR ''^''] @ chars ''_.+''"

definition media_name :: "string \<Rightarrow> bool" where
  "media_name w \<longleftrightarrow> w \<noteq> [] \<and> length w \<le> 127 \<and> in_cls alnum (hd w) \<and> list_all (in_cls name_chars) (tl w)"

lemma lang_media_name: "lang (Seq (Cls alnum) (Upto 126 (Cls name_chars))) = {w. media_name w}"
proof -
  have n: "(127 :: nat) = Suc 126" by simp
  show ?thesis unfolding set_eq_iff mem_Collect_eq lang_Cls_Upto media_name_def n by blast
qed

lemma validateMediaType_names:
  "validateMediaType mt = Inr () \<longleftrightarrow> (\<exists>t u. mt = t @ ''/'' @ u \<and> media_name t \<and> media_name u)"
proof -
  let ?name = "Seq (Cls alnum) (Upto 126 (Cls name_chars))"
  have "mt \<in> lang mediaTypeRegexp \<longleftrightarrow> (\<exists>t v. mt = t @ v \<and> t \<in> lang ?name \<and> v \<in> lang (Seq (Cls (chars ''/'')) ?name))"
    unfolding mediaTypeRegexp_def Let_def lang.simps(5) [of ?name] by blast
  also have "\<dots> \<longleftrightarrow> (\<exists>t u. mt = t @ ''/'' @ u \<and> media_name t \<and> media_name u)"
    unfolding lang_Cls_Seq [of _ "chars ''/''"] lang_media_name in_cls_char by auto
  finally show ?thesis unfolding validateMediaType_def re_match_iff by (cases "mt \<in> lang mediaTypeRegexp") simp_all
qed

lemma validateMediaType_code [code]:
  "validateMediaType mt =
     (if list_ex (\<lambda>i. mt ! i = CHR ''/'' \<and> media_name (take i mt) \<and> media_name (drop (i + 1) mt)) [0..<length mt]
      then Inr () else Inl ErrInvalidMediaType)"
proof -
  have "(\<exists>t u. mt = t @ ''/'' @ u \<and> media_name t \<and> media_name u) \<longleftrightarrow>
      (\<exists>i<length mt. mt ! i = CHR ''/'' \<and> media_name (take i mt) \<and> media_name (drop (i + 1) mt))"
  proof
    assume "\<exists>t u. mt = t @ ''/'' @ u \<and> media_name t \<and> media_name u"
    then obtain t u where "mt = t @ ''/'' @ u" "media_name t" "media_name u" by blast
    then show "\<exists>i<length mt. mt ! i = CHR ''/'' \<and> media_name (take i mt) \<and> media_name (drop (i + 1) mt)"
      by (intro exI [of _ "length t"]) simp
  next
    assume "\<exists>i<length mt. mt ! i = CHR ''/'' \<and> media_name (take i mt) \<and> media_name (drop (i + 1) mt)"
    then obtain i where i: "i < length mt" "mt ! i = CHR ''/''" "media_name (take i mt)" "media_name (drop (i + 1) mt)"
      by blast
    then have "mt = take i mt @ ''/'' @ drop (i + 1) mt" using id_take_nth_drop [OF i(1)] by simp
    with i(3,4) show "\<exists>t u. mt = t @ ''/'' @ u \<and> media_name t \<and> media_name u" by blast
  qed
  with validateMediaType_names [of mt] show ?thesis
    by (auto simp: list_ex_iff validateMediaType_def split: if_splits)
qed

definition ensureAnnotationCreated :: "string \<Rightarrow> annotations \<Rightarrow> string \<Rightarrow> annotations res" where
  "ensureAnnotationCreated now annotations annotationCreatedKey =
     (let m = (case annotations of None \<Rightarrow> [] | Some m \<Rightarrow> m)
      in case gm_get m annotationCreatedKey of
        Some createdTime \<Rightarrow>
          if \<not> RFC3339_ok createdTime then Inl ErrInvalidDateTimeFormat else Inr annotations
      | None \<Rightarrow> Inr (Some (gm_put annotationCreatedKey now m)))"

definition pushIfNotExist :: "'s pusher \<Rightarrow> 's \<Rightarrow> descriptor \<Rightarrow> bytes \<Rightarrow> unit res \<times> 's" where
  "pushIfNotExist U s desc data =
     (let push = (case pu_Push U s desc (bytes_reader data) of
            (Inl e, s') \<Rightarrow> if e \<noteq> ErrAlreadyExists then (Inl e, s') else (Inr (), s')
          | (Inr _, s') \<Rightarrow> (Inr (), s'))
      in case pu_Exists U of
        None \<Rightarrow> push
      | Some f \<Rightarrow> (case f s desc of
            Inl e \<Rightarrow> (Inl e, s)
          | Inr ex \<Rightarrow> if ex then (Inr (), s) else push))"

definition pushManifest ::
  "ext \<Rightarrow> 's pusher \<Rightarrow> 's \<Rightarrow> bytes option \<Rightarrow> string \<Rightarrow> string \<Rightarrow> annotations \<Rightarrow> descriptor res \<times> 's" where
  "pushManifest P U s json mediaType artifactType annotations = (case json of
     None \<Rightarrow> (Inl (ErrOther ''marshal''), s)
   | Some manifestJSON \<Rightarrow>
       let manifestDesc = (NewDescriptorFromBytes P mediaType manifestJSON)
             \<lparr>ArtifactType := artifactType, Annotations := annotations\<rparr>
       in case pu_Push U s manifestDesc (bytes_reader manifestJSON) of
            (Inl e, s') \<Rightarrow> if e \<noteq> ErrAlreadyExists then (Inl e, s') else (Inr manifestDesc, s')
          | (Inr _, s') \<Rightarrow> (Inr manifestDesc, s'))"

definition pushCustomEmptyConfig ::
  "ext \<Rightarrow> 's pusher \<Rightarrow> 's \<Rightarrow> string \<Rightarrow> annotations \<Rightarrow> descriptor res \<times> 's" where
  "pushCustomEmptyConfig P U s mediaType annotations =
     (let configBytes = ''{}'';
          configDesc = (NewDescriptorFromBytes P mediaType configBytes)\<lparr>Annotations := annotations\<rparr>
      in case pushIfNotExist U s configDesc configBytes of
           (Inl e, s') \<Rightarrow> (Inl e, s')
         | (Inr _, s') \<Rightarrow> (Inr configDesc, s'))"

definition packArtifact ::
  "ext \<Rightarrow> pack_ext \<Rightarrow> 's pusher \<Rightarrow> string \<Rightarrow> 's \<Rightarrow> string \<Rightarrow> descriptor list \<Rightarrow> PackOptions \<Rightarrow> descriptor res \<times> 's" where
  "packArtifact P M U now s artifactType blobs opts =
     (let artifactType = (if artifactType = [] then MediaTypeUnknownArtifact else artifactType)
      in case ensureAnnotationCreated now (pk_ManifestAnnotations opts) AnnotationArtifactCreated of
        Inl e \<Rightarrow> (Inl e, s)
      | Inr annotations \<Rightarrow>
          let manifest = \<lparr>a_MediaType = spec_MediaTypeArtifactManifest, a_ArtifactType = artifactType,
                a_Blobs = blobs, a_Subject = pk_Subject opts, a_Annotations = annotations\<rparr>
          in pushManifest P U s (mar_artifact M manifest) (a_MediaType manifest) (a_ArtifactType manifest)
               (a_Annotations manifest))"

definition packManifestV1_0 ::
  "ext \<Rightarrow> pack_ext \<Rightarrow> 's pusher \<Rightarrow> string \<Rightarrow> 's \<Rightarrow> string \<Rightarrow> PackManifestOptions \<Rightarrow> descriptor res \<times> 's" where
  "packManifestV1_0 P M U now s artifactType opts =
     (if po_Subject opts \<noteq> None then (Inl ErrUnsupported, s)
      else let config = (case po_ConfigDescriptor opts of
             Some c \<Rightarrow> (case validateMediaType (MediaType c) of Inl e \<Rightarrow> (Inl e, s) | Inr _ \<Rightarrow> (Inr c, s))
           | None \<Rightarrow>
               (case (if artifactType = [] then Inr () else validateMediaType artifactType) of
                  Inl e \<Rightarrow> (Inl e, s)
                | Inr _ \<Rightarrow> pushCustomEmptyConfig P U s
                    (if artifactType = [] then MediaTypeUnknownConfig else artifactType) (po_ConfigAnnotations opts)))
      in case config of
        (Inl e, s) \<Rightarrow> (Inl e, s)
      | (Inr configDesc, s) \<Rightarrow>
          (case ensureAnnotationCreated now (po_ManifestAnnotations opts) oci_AnnotationCreated of
             Inl e \<Rightarrow> (Inl e, s)
           | Inr annotations \<Rightarrow>
               let manifest = \<lparr>m_MediaType = oci_MediaTypeImageManifest, m_ArtifactType = [],
                     m_Config = configDesc, m_Layers = po_Layers opts, m_Subject = None, m_Annotations = annotations\<rparr>
               in pushManifest P U s (mar_manifest M manifest) (m_MediaType manifest)
                    (MediaType (m_Config manifest)) (m_Annotations manifest)))"

definition packManifestV1_1_RC2 ::
  "ext \<Rightarrow> pack_ext \<Rightarrow> 's pusher \<Rightarrow> string \<Rightarrow> 's \<Rightarrow> string \<Rightarrow> descriptor list \<Rightarrow> PackOptions \<Rightarrow> descriptor res \<times> 's" where
  "packManifestV1_1_RC2 P M U now s configMediaType layers opts =
     (let configMediaType = (if configMediaType = [] then MediaTypeUnknownConfig else configMediaType);
          config = (case pk_ConfigDescriptor opts of
             Some c \<Rightarrow> (Inr c, s)
           | None \<Rightarrow> pushCustomEmptyConfig P U s configMediaType (pk_ConfigAnnotations opts))
      in case config of
        (Inl e, s) \<Rightarrow> (Inl e, s)
      | (Inr configDesc, s) \<Rightarrow>
          (case ensureAnnotationCreated now (pk_ManifestAnnotations opts) oci_AnnotationCreated of
             Inl e \<Rightarrow> (Inl e, s)
           | Inr annotations \<Rightarrow>
               let manifest = \<lparr>m_MediaType = oci_MediaTypeImageManifest, m_ArtifactType = [],
                     m_Config = configDesc, m_Layers = layers, m_Subject = pk_Subject opts, m_Annotations = annotations\<rparr>
               in pushManifest P U s (mar_manifest M manifest) (m_MediaType manifest)
                    (MediaType (m_Config manifest)) (m_Annotations manifest)))"

text \<open>The config of a manifest of version 1.1: the descriptor, and whether the empty blob has been pushed.\<close>

definition v1_1_config ::
  "pack_ext \<Rightarrow> 's pusher \<Rightarrow> 's \<Rightarrow> PackManifestOptions \<Rightarrow> (descriptor \<times> bool) res \<times> 's" where
  "v1_1_config M U s opts = (case po_ConfigDescriptor opts of
     Some c \<Rightarrow> (case validateMediaType (MediaType c) of Inl e \<Rightarrow> (Inl e, s) | Inr _ \<Rightarrow> (Inr (c, False), s))
   | None \<Rightarrow>
       let configDesc = (DescriptorEmptyJSON M)\<lparr>Annotations := po_ConfigAnnotations opts\<rparr>;
           configBytes = Data (DescriptorEmptyJSON M)
       in case pushIfNotExist U s configDesc configBytes of
            (Inl e, s') \<Rightarrow> (Inl e, s')
          | (Inr _, s') \<Rightarrow> (Inr (configDesc, True), s'))"

definition v1_1_layers ::
  "pack_ext \<Rightarrow> 's pusher \<Rightarrow> 's \<Rightarrow> bool \<Rightarrow> PackManifestOptions \<Rightarrow> descriptor list res \<times> 's" where
  "v1_1_layers M U s emptyBlobExists opts =
     (if length (po_Layers opts) = 0 then
        let layerDesc = DescriptorEmptyJSON M;
            layerData = Data (DescriptorEmptyJSON M)
        in if \<not> emptyBlobExists
           then (case pushIfNotExist U s layerDesc layerData of
                   (Inl e, s') \<Rightarrow> (Inl e, s')
                 | (Inr _, s') \<Rightarrow> (Inr [layerDesc], s'))
           else (Inr [layerDesc], s)
      else (Inr (po_Layers opts), s))"

definition packManifestV1_1 ::
  "ext \<Rightarrow> pack_ext \<Rightarrow> 's pusher \<Rightarrow> string \<Rightarrow> 's \<Rightarrow> string \<Rightarrow> PackManifestOptions \<Rightarrow> descriptor res \<times> 's" where
  "packManifestV1_1 P M U now s artifactType opts =
     (if artifactType = [] \<and> (case po_ConfigDescriptor opts of
           None \<Rightarrow> True | Some c \<Rightarrow> MediaType c = oci_MediaTypeEmptyJSON)
      then (Inl ErrMissingArtifactType, s)
      else case (if artifactType \<noteq> [] then validateMediaType artifactType else Inr ()) of
        Inl e \<Rightarrow> (Inl e, s)
      | Inr _ \<Rightarrow> (case v1_1_config M U s opts of
          (Inl e, s) \<Rightarrow> (Inl e, s)
        | (Inr (configDesc, emptyBlobExists), s) \<Rightarrow>
            (case ensureAnnotationCreated now (po_ManifestAnnotations opts) oci_AnnotationCreated of
               Inl e \<Rightarrow> (Inl e, s)
             | Inr annotations \<Rightarrow> (case v1_1_layers M U s emptyBlobExists opts of
                 (Inl e, s) \<Rightarrow> (Inl e, s)
               | (Inr layers, s) \<Rightarrow>
                   let manifest = \<lparr>m_MediaType = oci_MediaTypeImageManifest, m_ArtifactType = artifactType,
                         m_Config = configDesc, m_Layers = layers, m_Subject = po_Subject opts,
                         m_Annotations = annotations\<rparr>
                   in pushManifest P U s (mar_manifest M manifest) (m_MediaType manifest)
                        (m_ArtifactType manifest) (m_Annotations manifest)))))"

definition PackManifest ::
  "ext \<Rightarrow> pack_ext \<Rightarrow> 's pusher \<Rightarrow> string \<Rightarrow> 's \<Rightarrow> int \<Rightarrow> string \<Rightarrow> PackManifestOptions \<Rightarrow> descriptor res \<times> 's" where
  "PackManifest P M U now s packManifestVersion artifactType opts =
     (if packManifestVersion = PackManifestVersion1_0 then packManifestV1_0 P M U now s artifactType opts
      else if packManifestVersion = PackManifestVersion1_1 then packManifestV1_1 P M U now s artifactType opts
      else (Inl ErrUnsupported, s))"

definition Pack ::
  "ext \<Rightarrow> pack_ext \<Rightarrow> 's pusher \<Rightarrow> string \<Rightarrow> 's \<Rightarrow> string \<Rightarrow> descriptor list \<Rightarrow> PackOptions \<Rightarrow> descriptor res \<times> 's" where
  "Pack P M U now s artifactType blobs opts =
     (if pk_PackImageManifest opts then packManifestV1_1_RC2 P M U now s artifactType blobs opts
      else packArtifact P M U now s artifactType blobs opts)"

section \<open>The packed manifest\<close>

definition pack_descriptor :: "ext \<Rightarrow> string \<Rightarrow> string \<Rightarrow> annotations \<Rightarrow> bytes \<Rightarrow> descriptor" where
  "pack_descriptor P mt artifactType A b =
     (NewDescriptorFromBytes P mt b)\<lparr>ArtifactType := artifactType, Annotations := A\<rparr>"

definition v1_0_manifest :: "ext \<Rightarrow> string \<Rightarrow> PackManifestOptions \<Rightarrow> annotations \<Rightarrow> manifest" where
  "v1_0_manifest P artifactType opts A =
     \<lparr>m_MediaType = oci_MediaTypeImageManifest, m_ArtifactType = [],
      m_Config = (case po_ConfigDescriptor opts of
          Some c \<Rightarrow> c
        | None \<Rightarrow> (NewDescriptorFromBytes P (if artifactType = [] then MediaTypeUnknownConfig else artifactType) ''{}'')
            \<lparr>Annotations := po_ConfigAnnotations opts\<rparr>),
      m_Layers = po_Layers opts, m_Subject = None, m_Annotations = A\<rparr>"

definition v1_1_manifest :: "pack_ext \<Rightarrow> string \<Rightarrow> PackManifestOptions \<Rightarrow> annotations \<Rightarrow> manifest" where
  "v1_1_manifest M artifactType opts A =
     \<lparr>m_MediaType = oci_MediaTypeImageManifest, m_ArtifactType = artifactType,
      m_Config = (case po_ConfigDescriptor opts of
          Some c \<Rightarrow> c
        | None \<Rightarrow> (DescriptorEmptyJSON M)\<lparr>Annotations := po_ConfigAnnotations opts\<rparr>),
      m_Layers = (if po_Layers opts = [] then [DescriptorEmptyJSON M] else po_Layers opts),
      m_Subject = po_Subject opts, m_Annotations = A\<rparr>"

lemma pushManifest_Inr:
  "pushManifest P U s json mt artifactType A = (Inr d, s') \<longleftrightarrow>
     (\<exists>b. json = Some b \<and> d = pack_descriptor P mt artifactType A b
       \<and> snd (pu_Push U s d (bytes_reader b)) = s'
       \<and> fst (pu_Push U s d (bytes_reader b)) \<in> {Inr (), Inl ErrAlreadyExists})"
  by (cases json) (auto simp: pushManifest_def pack_descriptor_def Let_def split: prod.splits sum.splits)

lemma v1_1_config_Inr:
  "v1_1_config M U s opts = (Inr (c, e), s') \<Longrightarrow> c = m_Config (v1_1_manifest M at opts A)
     \<and> (if po_ConfigDescriptor opts = None then e \<and> pushIfNotExist U s c (Data (DescriptorEmptyJSON M)) = (Inr (), s')
        else \<not> e \<and> s' = s)"
  by (auto simp: v1_1_config_def v1_1_manifest_def Let_def split: option.splits sum.splits prod.splits)

lemma v1_1_layers_Inr:
  "v1_1_layers M U s e opts = (Inr ls, s') \<Longrightarrow> ls = m_Layers (v1_1_manifest M at opts A)
     \<and> (if po_Layers opts = [] \<and> \<not> e
        then pushIfNotExist U s (DescriptorEmptyJSON M) (Data (DescriptorEmptyJSON M)) = (Inr (), s')
        else s' = s)"
  by (auto simp: v1_1_layers_def v1_1_manifest_def Let_def split: sum.splits prod.splits if_splits)

lemma packManifestV1_1_Inr:
  assumes "packManifestV1_1 P M U now s artifactType opts = (Inr d, s')"
  obtains A e s1 s2 where
    "ensureAnnotationCreated now (po_ManifestAnnotations opts) oci_AnnotationCreated = Inr A"
    "v1_1_config M U s opts = (Inr (m_Config (v1_1_manifest M artifactType opts A), e), s1)"
    "v1_1_layers M U s1 e opts = (Inr (m_Layers (v1_1_manifest M artifactType opts A)), s2)"
    "pushManifest P U s2 (mar_manifest M (v1_1_manifest M artifactType opts A)) oci_MediaTypeImageManifest
       artifactType A = (Inr d, s')"
proof -
  from assms obtain c e s1 A ls s2 where *: "v1_1_config M U s opts = (Inr (c, e), s1)"
    "ensureAnnotationCreated now (po_ManifestAnnotations opts) oci_AnnotationCreated = Inr A"
    "v1_1_layers M U s1 e opts = (Inr ls, s2)"
    "pushManifest P U s2 (mar_manifest M \<lparr>m_MediaType = oci_MediaTypeImageManifest, m_ArtifactType = artifactType,
       m_Config = c, m_Layers = ls, m_Subject = po_Subject opts, m_Annotations = A\<rparr>) oci_MediaTypeImageManifest
       artifactType A = (Inr d, s')"
    by (auto simp: packManifestV1_1_def Let_def split: if_splits sum.splits prod.splits)
  have "c = m_Config (v1_1_manifest M artifactType opts A)" "ls = m_Layers (v1_1_manifest M artifactType opts A)"
    using v1_1_config_Inr [OF *(1)] v1_1_layers_Inr [OF *(3)] by blast+
  moreover from this have "\<lparr>m_MediaType = oci_MediaTypeImageManifest, m_ArtifactType = artifactType,
       m_Config = c, m_Layers = ls, m_Subject = po_Subject opts, m_Annotations = A\<rparr> = v1_1_manifest M artifactType opts A"
    by (simp add: v1_1_manifest_def)
  ultimately show thesis using that * by simp
qed

lemma pushCustomEmptyConfig_Inr:
  "pushCustomEmptyConfig P U s mt A = (Inr c, s') \<longleftrightarrow>
     c = (NewDescriptorFromBytes P mt ''{}'')\<lparr>Annotations := A\<rparr> \<and> pushIfNotExist U s c ''{}'' = (Inr (), s')"
  by (auto simp: pushCustomEmptyConfig_def Let_def split: sum.splits prod.splits)

lemma packManifestV1_0_Inr:
  assumes "packManifestV1_0 P M U now s artifactType opts = (Inr d, s')"
  obtains A s1 where
    "ensureAnnotationCreated now (po_ManifestAnnotations opts) oci_AnnotationCreated = Inr A"
    "pushManifest P U s1 (mar_manifest M (v1_0_manifest P artifactType opts A)) oci_MediaTypeImageManifest
       (MediaType (m_Config (v1_0_manifest P artifactType opts A))) A = (Inr d, s')"
  using assms
  by (auto simp: packManifestV1_0_def Let_def v1_0_manifest_def pushCustomEmptyConfig_Inr
      split: if_splits sum.splits prod.splits option.splits)

text \<open>
  C35. With a creation time among the annotations, packing is reproducible: two calls of \<^verbatim>\<open>PackManifest\<close>
  with the same arguments that succeed, at any times and with any targets, return the same descriptor.
\<close>

theorem PackManifest_reproducible:
  assumes "po_ManifestAnnotations opts = Some m" "gm_get m oci_AnnotationCreated = Some t"
    and "PackManifest P M U now s v artifactType opts = (Inr d, s1)"
    and "PackManifest P M U' now' s' v artifactType opts = (Inr d', s1')"
  shows "d' = d"
proof -
  have A: "A = Some m"
    if "ensureAnnotationCreated n (po_ManifestAnnotations opts) oci_AnnotationCreated = Inr A" for n A
    using that assms(1,2) by (auto simp: ensureAnnotationCreated_def split: if_splits)
  consider "v = PackManifestVersion1_0" | "v = PackManifestVersion1_1"
    using assms(3) by (auto simp: PackManifest_def split: if_splits)
  then show ?thesis
  proof cases
    case 1
    with assms(3,4) show ?thesis
      by (auto simp: PackManifest_def pushManifest_Inr elim!: packManifestV1_0_Inr dest!: A)
  next
    case 2
    then have "v \<noteq> PackManifestVersion1_0" by (simp add: PackManifestVersion1_0_def PackManifestVersion1_1_def)
    with 2 assms(3,4) show ?thesis
      by (auto simp: PackManifest_def pushManifest_Inr elim!: packManifestV1_1_Inr dest!: A)
  qed
qed

section \<open>Packing into a store\<close>

text \<open>A pusher that is a given storage, known to be one that can be read or not.\<close>

definition pusher_of :: "'s storage \<Rightarrow> 's pusher \<Rightarrow> bool" where
  "pusher_of st U \<longleftrightarrow> pu_Push U = st_Push st \<and> (pu_Exists U = None \<or> pu_Exists U = Some (st_Exists st))"

definition keeps :: "('s \<Rightarrow> descriptor \<Rightarrow> bytes option) \<Rightarrow> 's \<Rightarrow> 's \<Rightarrow> bool" where
  "keeps content s s' \<longleftrightarrow> (\<forall>x b. content s x = Some b \<longrightarrow> content s' x = Some b)"

lemma keeps_refl [simp]: "keeps content s s"
  by (simp add: keeps_def)

lemma keeps_trans: "\<lbrakk>keeps content s s'; keeps content s' s''\<rbrakk> \<Longrightarrow> keeps content s s''"
  by (simp add: keeps_def)

lemma keeps_stored: "\<lbrakk>keeps content s s'; content s x \<noteq> None\<rbrakk> \<Longrightarrow> content s' x \<noteq> None"
  by (auto simp: keeps_def)

context push_store
begin

lemma push_result:
  assumes "inv s" "st_Push st s d (bytes_reader b) = (x, s')"
  shows "inv s'" "keeps content s s'" "x \<in> {Inr (), Inl ErrAlreadyExists} \<Longrightarrow> content s' d \<noteq> None"
proof -
  show "inv s'" using store_inv [OF assms(1), of d "bytes_reader b"] assms(2) by simp
  show "keeps content s s'"
    using store_adds [OF assms(1), of d "bytes_reader b"] assms(2) by (simp add: adds_def keeps_def)
  assume "x \<in> {Inr (), Inl ErrAlreadyExists}"
  moreover have "snd (rd_stream (bytes_reader b)) \<noteq> ErrAlreadyExists" by (simp add: bytes_reader_def)
  ultimately show "content s' d \<noteq> None" using store_ok store_already assms by blast
qed

lemma pushIfNotExist_result:
  assumes "inv s" "pusher_of st U" "pushIfNotExist U s d b = (Inr (), s')"
  shows "inv s' \<and> keeps content s s' \<and> content s' d \<noteq> None"
proof -
  obtain x s1 where p: "st_Push st s d (bytes_reader b) = (x, s1)" by fastforce
  from assms(2,3) p consider "st_Exists st s d = Inr True" "s' = s"
    | "x \<in> {Inr (), Inl ErrAlreadyExists}" "s' = s1"
    by (auto simp: pusher_of_def pushIfNotExist_def Let_def split: option.splits sum.splits if_splits)
  then show ?thesis
  proof cases
    case 1
    with store_exists assms(1) show ?thesis by simp
  next
    case 2
    with push_result [OF assms(1) p] show ?thesis by simp
  qed
qed

lemma pushManifest_result:
  assumes "inv s" "pusher_of st U" "pushManifest P U s json mt artifactType A = (Inr d, s')"
  shows "inv s' \<and> keeps content s s' \<and> content s' d \<noteq> None"
proof -
  from assms(3) [unfolded pushManifest_Inr] assms(2) obtain b where
    "snd (st_Push st s d (bytes_reader b)) = s'" "fst (st_Push st s d (bytes_reader b)) \<in> {Inr (), Inl ErrAlreadyExists}"
    by (auto simp: pusher_of_def)
  moreover from this(1) have "st_Push st s d (bytes_reader b) = (fst (st_Push st s d (bytes_reader b)), s')"
    by (metis prod.collapse)
  ultimately show ?thesis using push_result [OF assms(1)] by blast
qed

lemma packManifestV1_1_result:
  assumes "inv s" "pusher_of st U" "packManifestV1_1 P M U now s artifactType opts = (Inr d, s')"
  shows "inv s' \<and> keeps content s s' \<and> content s' d \<noteq> None
    \<and> (po_ConfigDescriptor opts = None \<or> po_Layers opts = [] \<longrightarrow> content s' (DescriptorEmptyJSON M) \<noteq> None)"
proof -
  from assms(3) obtain A e s1 s2 where
    c: "v1_1_config M U s opts = (Inr (m_Config (v1_1_manifest M artifactType opts A), e), s1)" and
    l: "v1_1_layers M U s1 e opts = (Inr (m_Layers (v1_1_manifest M artifactType opts A)), s2)" and
    m: "pushManifest P U s2 (mar_manifest M (v1_1_manifest M artifactType opts A)) oci_MediaTypeImageManifest
       artifactType A = (Inr d, s')" by (rule packManifestV1_1_Inr)
  let ?E = "DescriptorEmptyJSON M"
  have key: "content x (?E\<lparr>Annotations := a\<rparr>) = content x ?E" for x a
    by (rule store_key) (simp add: FromOCI_def)
  have s1: "inv s1 \<and> keeps content s s1 \<and> (po_ConfigDescriptor opts = None \<longrightarrow> content s1 ?E \<noteq> None)
      \<and> e = (po_ConfigDescriptor opts = None)"
  proof (cases "po_ConfigDescriptor opts")
    case None
    with v1_1_config_Inr [OF c, of artifactType A] have e: e and
      p: "pushIfNotExist U s (?E\<lparr>Annotations := po_ConfigAnnotations opts\<rparr>) (Data ?E) = (Inr (), s1)"
      by (simp_all add: v1_1_manifest_def)
    from pushIfNotExist_result [OF assms(1,2) p] e None show ?thesis unfolding key by simp
  next
    case (Some a)
    with v1_1_config_Inr [OF c, of artifactType A] assms(1) show ?thesis by simp
  qed
  have s2: "inv s2 \<and> keeps content s1 s2 \<and> (po_Layers opts = [] \<and> \<not> e \<longrightarrow> content s2 ?E \<noteq> None)"
    using v1_1_layers_Inr [OF l, of artifactType A] pushIfNotExist_result [OF _ assms(2)] s1
    by (metis keeps_refl)
  with pushManifest_result [OF _ assms(2) m] have s': "inv s' \<and> keeps content s2 s' \<and> content s' d \<noteq> None" by blast
  with s1 s2 show ?thesis using keeps_trans keeps_stored by metis
qed

end

text \<open>
  What the encoding of a manifest is relied on for: decoding gives back the descriptors it lists.
\<close>

definition json_manifest_ok :: "ext \<Rightarrow> pack_ext \<Rightarrow> manifest \<Rightarrow> bool" where
  "json_manifest_ok P M m \<longleftrightarrow> (\<forall>b. mar_manifest M m = Some b \<longrightarrow> (\<exists>m'. un_manifest P b = Some m'
     \<and> FromOCI (m_Config m') = FromOCI (m_Config m) \<and> map FromOCI (m_Layers m') = map FromOCI (m_Layers m)
     \<and> map_option FromOCI (m_Subject m') = map_option FromOCI (m_Subject m)))"

definition digest_from_ok :: "ext \<Rightarrow> bool" where
  "digest_from_ok P \<longleftrightarrow> (\<forall>b. dg_verify P (dg_from P b) b)"

definition manifest_nodes :: "manifest \<Rightarrow> descriptor list" where
  "manifest_nodes m = opt_list (m_Subject m) @ [m_Config m] @ m_Layers m"

lemma decode_manifest_keys:
  assumes "json_manifest_ok P M m" "mar_manifest M m = Some b" "MediaType d = oci_MediaTypeImageManifest"
  shows "\<exists>ss. decode_successors P d b = Inr ss \<and> map FromOCI ss = map FromOCI (manifest_nodes m)"
proof -
  from assms(1,2) obtain m' where m': "un_manifest P b = Some m'" "FromOCI (m_Config m') = FromOCI (m_Config m)"
    "map FromOCI (m_Layers m') = map FromOCI (m_Layers m)"
    "map_option FromOCI (m_Subject m') = map_option FromOCI (m_Subject m)"
    unfolding json_manifest_ok_def by blast
  have opt: "map FromOCI (opt_list x) = opt_list (map_option FromOCI x)" for x
    by (cases x) (simp_all add: opt_list_def)
  have "decode_successors P d b = Inr (manifest_nodes m')"
    using m'(1) assms(3) by (simp add: decode_successors_def manifest_nodes_def media_type_defs)
  then show ?thesis using m'(2-4) by (simp add: manifest_nodes_def opt)
qed

lemma pack_descriptor_sel:
  "mt \<noteq> [] \<Longrightarrow> MediaType (pack_descriptor P mt artifactType A b) = mt"
  "Digest (pack_descriptor P mt artifactType A b) = dg_from P b"
  by (simp_all add: pack_descriptor_def NewDescriptorFromBytes_def plain_desc_def)

text \<open>
  C18. A manifest packed into a memory store is there with what it lists: fetching the returned descriptor
  gives the encoding of the manifest with the given config, layers and subject, the empty blob is
  stored when the manifest refers to it, the manifest is a predecessor of its config, its layers and
  its subject, and no content is lost.
\<close>

theorem PackManifest_stored:
  assumes "ms_inv P s" "pusher_of (ms_target P) U" "collision_free P" "digest_from_ok P"
    and "\<forall>A. json_manifest_ok P M (v1_1_manifest M artifactType opts A)"
    and "PackManifest P M U now s PackManifestVersion1_1 artifactType opts = (Inr d, s')"
    and "valid_order ord"
  shows "ms_inv P s' \<and> keeps ms_content s s'
    \<and> (\<exists>A b. ensureAnnotationCreated now (po_ManifestAnnotations opts) oci_AnnotationCreated = Inr A
         \<and> mar_manifest M (v1_1_manifest M artifactType opts A) = Some b \<and> FetchAll P (ms_Fetch s') d = Inr b
         \<and> (\<forall>x\<in>set (manifest_nodes (v1_1_manifest M artifactType opts A)).
              FromOCI d \<in> FromOCI ` set (projr (ms_Predecessors s' ord x))))
    \<and> (po_ConfigDescriptor opts = None \<or> po_Layers opts = [] \<longrightarrow>
         ms_Exists s' (DescriptorEmptyJSON M) = Inr True)"
proof -
  have pack: "packManifestV1_1 P M U now s artifactType opts = (Inr d, s')"
    using assms(6) by (simp add: PackManifest_def PackManifestVersion1_0_def PackManifestVersion1_1_def)
  note R = mst.packManifestV1_1_result [OF assms(1,2) pack]
  from pack obtain A s2 where A: "ensureAnnotationCreated now (po_ManifestAnnotations opts) oci_AnnotationCreated = Inr A"
    "pushManifest P U s2 (mar_manifest M (v1_1_manifest M artifactType opts A)) oci_MediaTypeImageManifest
       artifactType A = (Inr d, s')" by (rule packManifestV1_1_Inr)
  then obtain b where b: "mar_manifest M (v1_1_manifest M artifactType opts A) = Some b"
    "d = pack_descriptor P oci_MediaTypeImageManifest artifactType A b" by (auto simp: pushManifest_Inr)
  have d: "MediaType d = oci_MediaTypeImageManifest" "Digest d = dg_from P b"
    unfolding b(2) by (simp_all add: pack_descriptor_sel media_type_defs)
  obtain b' where b': "ms_storage s' (FromOCI d) = Some b'" using R by (auto simp: ms_content_def mem_content_def)
  then have "dg_verify P (Digest d) b'" using mst.store_verified [of P s' d b'] R by (simp add: ms_content_def mem_content_def)
  then have "b' = b" using assms(3,4) d(2) unfolding collision_free_def digest_from_ok_def by metis
  then have fetch: "FetchAll P (ms_Fetch s') d = Inr b"
    using b' mem_FetchAll [OF ms_invD(1), of P s' d] R by (simp add: ms_Fetch_def [abs_def])
  obtain ss where ss: "decode_successors P d b = Inr ss"
    "map FromOCI ss = map FromOCI (manifest_nodes (v1_1_manifest M artifactType opts A))"
    using decode_manifest_keys [OF assms(5) [rule_format] b(1) d(1)] by blast
  have "FromOCI d \<in> FromOCI ` set (projr (ms_Predecessors s' ord x))"
    if "x \<in> set (manifest_nodes (v1_1_manifest M artifactType opts A))" for x
  proof -
    have "FromOCI x \<in> FromOCI ` set ss" using that ss(2) by (metis image_eqI list.set_map)
    moreover have "ms_Predecessors s' ord x = Inr (projr (ms_Predecessors s' ord x))" by (simp add: ms_Predecessors_def)
    ultimately show ?thesis
      using ms_Predecessors_keys [OF conjunct1 [OF R] assms(7)] b' \<open>b' = b\<close> ss(1) by blast
  qed
  moreover have "ms_content s' x \<noteq> None \<Longrightarrow> ms_Exists s' x = Inr True" for x
    by (auto simp: ms_content_def mem_content_def ms_Exists_def mem_Exists_def)
  ultimately show ?thesis using R A(1) b(1) fetch by blast
qed

section \<open>Concrete packs\<close>

definition demo_pack :: pack_ext where
  "demo_pack = \<lparr>mar_manifest = (\<lambda>m. Some ''M''), mar_artifact = (\<lambda>a. Some ''A''),
     DescriptorEmptyJSON = demo_config\<lparr>Data := ''c''\<rparr>\<rparr>"

definition demo_pack_opts :: PackManifestOptions where
  "demo_pack_opts = \<lparr>po_Subject = None, po_Layers = [demo_layer],
     po_ManifestAnnotations = Some [(oci_AnnotationCreated, ''2000-02-29T00:00:00Z'')],
     po_ConfigDescriptor = None, po_ConfigAnnotations = Some [(''k'', ''v'')]\<rparr>"

definition demo_pusher :: "mstore pusher" where
  "demo_pusher = \<lparr>pu_Push = ms_Push demo_graph_ext, pu_Exists = Some ms_Exists\<rparr>"

definition demo_packed :: descriptor where
  "demo_packed = pack_descriptor demo_graph_ext oci_MediaTypeImageManifest ''a/b''
     (Some [(oci_AnnotationCreated, ''2000-02-29T00:00:00Z'')]) ''M''"

definition demo_pack_run :: "string \<Rightarrow> mstore \<Rightarrow> descriptor res \<times> mstore" where
  "demo_pack_run now s =
     PackManifest demo_graph_ext demo_pack demo_pusher now s PackManifestVersion1_1 ''a/b'' demo_pack_opts"

lemma demo_pack_result: "fst (demo_pack_run now ms_New) = Inr demo_packed"
  by code_simp

lemma demo_pack_run_eq: "demo_pack_run now ms_New = (Inr demo_packed, snd (demo_pack_run now ms_New))"
  using demo_pack_result [of now] by (simp add: prod_eq_iff)

theorem PackManifest_reproducible_witness:
  "fst (demo_pack_run ''2020-01-01T00:00:00Z'' ms_New) = fst (demo_pack_run ''2021-01-01T00:00:00Z'' ms_New)"
proof -
  have "po_ManifestAnnotations demo_pack_opts = Some [(oci_AnnotationCreated, ''2000-02-29T00:00:00Z'')]"
    "gm_get [(oci_AnnotationCreated, ''2000-02-29T00:00:00Z'')] oci_AnnotationCreated = Some ''2000-02-29T00:00:00Z''"
    by (simp_all add: demo_pack_opts_def)
  note R = PackManifest_reproducible [OF this demo_pack_run_eq [unfolded demo_pack_run_def]
      demo_pack_run_eq [unfolded demo_pack_run_def]]
  have "demo_packed = demo_packed" by (rule R)
  then show ?thesis using demo_pack_result by simp
qed

theorem PackManifest_stored_witness:
  "FetchAll demo_graph_ext (ms_Fetch (snd (demo_pack_run [] ms_New))) demo_packed = Inr ''M''
   \<and> FromOCI demo_packed \<in>
       FromOCI ` set (projr (ms_Predecessors (snd (demo_pack_run [] ms_New)) rev_order demo_layer))"
proof -
  have U: "pusher_of (ms_target demo_graph_ext) demo_pusher"
    by (simp add: pusher_of_def ms_target_def demo_pusher_def)
  have c: "collision_free demo_graph_ext" using demo_consistent by (simp add: consistent_def)
  have f: "digest_from_ok demo_graph_ext" by (simp add: digest_from_ok_def demo_graph_ext_def demo_ext_def)
  have j: "\<forall>A. json_manifest_ok demo_graph_ext demo_pack (v1_1_manifest demo_pack ''a/b'' demo_pack_opts A)"
    by (simp add: json_manifest_ok_def demo_pack_def v1_1_manifest_def demo_pack_opts_def demo_graph_ext_def
        demo_decode_def FromOCI_def)
  from PackManifest_stored [OF ms_inv_New U c f j demo_pack_run_eq [unfolded demo_pack_run_def] valid_rev_order]
  obtain A b where A: "mar_manifest demo_pack (v1_1_manifest demo_pack ''a/b'' demo_pack_opts A) = Some b"
    "FetchAll demo_graph_ext (ms_Fetch (snd (demo_pack_run [] ms_New))) demo_packed = Inr b"
    "\<forall>x\<in>set (manifest_nodes (v1_1_manifest demo_pack ''a/b'' demo_pack_opts A)).
       FromOCI demo_packed \<in> FromOCI ` set (projr (ms_Predecessors (snd (demo_pack_run [] ms_New)) rev_order x))"
    unfolding demo_pack_run_def by blast
  have "b = ''M''" using A(1) by (simp add: demo_pack_def)
  moreover have "demo_layer \<in> set (manifest_nodes (v1_1_manifest demo_pack ''a/b'' demo_pack_opts A))"
    by (simp add: manifest_nodes_def v1_1_manifest_def demo_pack_opts_def)
  ultimately show ?thesis using A(2,3) by blast
qed

text \<open>
  C36. The accepted media types are exactly two names separated by a slash, each of at most 127 characters
  and beginning with a letter or digit. The other characters of a name are letters, digits and
  \<^verbatim>\<open>!#$_.+\<close> and those between the ampersand and the caret, among them the slash itself.
\<close>

theorem validateMediaType_iff:
  "validateMediaType mt = Inr () \<longleftrightarrow> (\<exists>t u. mt = t @ ''/'' @ u \<and> media_name t \<and> media_name u)"
  by (rule validateMediaType_names)

text \<open>
  The character range in the pattern of media types admits more than the two names separated by a slash.
\<close>

lemma validateMediaType_range:
  "validateMediaType ''a/b/c'' = Inr ()" "validateMediaType ''text/html;charset=utf-8'' = Inr ()"
  "validateMediaType ''a/b<c>'' = Inr ()" "validateMediaType ''a'' = Inl ErrInvalidMediaType"
  by code_simp+

end
