(* ===== verification/Content_Ops.thy ===== *)
theory Content_Ops
  imports Copy_Target Reference Pack Oci_Histories
begin

text \<open>
  \<^verbatim>\<open>content.go\<close>: resolving, fetching, pushing and tagging by reference. The goroutines of a group of
  tagging tasks (\<^verbatim>\<open>internal/syncutil/limitgroup.go\<close>) interleave in any order that the limit of the group
  allows, so that \<^verbatim>\<open>TagN\<close> and \<^verbatim>\<open>TagBytesN\<close> are relations between the states before and after. A
  call of \<^verbatim>\<open>Tag\<close> or \<^verbatim>\<open>PushReference\<close> is one step.
\<close>

record 's ctarget = "'s target" +
  tg_FetchReference :: "('s \<Rightarrow> string \<Rightarrow> (descriptor \<times> reader) res) option"
  tg_ParseReference :: "(string \<Rightarrow> reference res) option"

definition source_of :: "'s ctarget \<Rightarrow> 's \<Rightarrow> source" where
  "source_of T s =
     \<lparr>so_Fetch = st_Fetch (tg_storage T) s, so_Exists = st_Exists (tg_storage T) s, so_Resolve = tg_Resolve T s,
      so_FetchReference = map_option (\<lambda>f. f s) (tg_FetchReference T)\<rparr>"

definition defaultTagConcurrency :: nat where "defaultTagConcurrency = 5"

definition defaultTagNMaxMetadataBytes :: int where "defaultTagNMaxMetadataBytes = 4 * 1024 * 1024"

definition defaultResolveMaxMetadataBytes :: int where "defaultResolveMaxMetadataBytes = 4 * 1024 * 1024"

definition defaultMaxBytes :: int where "defaultMaxBytes = 4 * 1024 * 1024"

section \<open>Resolving and fetching\<close>

record ResolveOptions =
  ro_TargetPlatform :: "platform option"
  ro_MaxMetadataBytes :: int

record FetchBytesOptions =
  fo_Resolve :: ResolveOptions
  fo_MaxBytes :: int

definition resolve :: "ext \<Rightarrow> source \<Rightarrow> (cas_memory proxy \<times> cas_memory) option \<Rightarrow> string \<Rightarrow> ResolveOptions \<Rightarrow>
    descriptor res \<times> cas_memory" where
  "resolve P src proxy reference opts =
     (let n = (if ro_MaxMetadataBytes opts \<le> 0 then defaultResolveMaxMetadataBytes else ro_MaxMetadataBytes opts);
          (px, c) = (case proxy of
             Some p \<Rightarrow> p
           | None \<Rightarrow> (NewProxyWithLimit (so_Fetch src) (so_Exists src) (mem_storage P) n, mem_New))
      in case so_FetchReference src of
        Some fetchReference \<Rightarrow> (case fetchReference reference of
            Inl e \<Rightarrow> (Inl e, c)
          | Inr (desc, rc) \<Rightarrow>
              if MediaType desc \<in> {docker_MediaTypeManifestList, oci_MediaTypeImageIndex,
                   docker_MediaTypeManifest, oci_MediaTypeImageManifest}
              then if Size desc > n then (Inl ErrSizeExceedsLimit, c)
                   else (case st_Push (px_Cache px) c desc rc of
                       (Inl e, c) \<Rightarrow> (Inl e, c)
                     | (Inr _, c) \<Rightarrow> (SelectManifest P (FetchCached px c) desc (ro_TargetPlatform opts), c))
              else (Inl ErrUnsupported, c))
      | None \<Rightarrow> (case so_Resolve src reference of
            Inl e \<Rightarrow> (Inl e, c)
          | Inr desc \<Rightarrow> (SelectManifest P (so_Fetch src) desc (ro_TargetPlatform opts), c)))"

definition Resolve :: "ext \<Rightarrow> source \<Rightarrow> string \<Rightarrow> ResolveOptions \<Rightarrow> descriptor res" where
  "Resolve P src reference opts =
     (if ro_TargetPlatform opts = None then so_Resolve src reference
      else fst (resolve P src None reference opts))"

definition Fetch :: "ext \<Rightarrow> source \<Rightarrow> string \<Rightarrow> ResolveOptions \<Rightarrow> (descriptor \<times> reader) res" where
  "Fetch P src reference opts =
     (if ro_TargetPlatform opts = None then
        (case so_FetchReference src of
           Some fetchReference \<Rightarrow> fetchReference reference
         | None \<Rightarrow> (case so_Resolve src reference of
             Inl e \<Rightarrow> Inl e
           | Inr desc \<Rightarrow> (case so_Fetch src desc of
               Inl e \<Rightarrow> Inl e
             | Inr rc \<Rightarrow> Inr (desc, rc))))
      else
        let n = (if ro_MaxMetadataBytes opts \<le> 0 then defaultResolveMaxMetadataBytes else ro_MaxMetadataBytes opts);
            px = NewProxyWithLimit (so_Fetch src) (so_Exists src) (mem_storage P) n
        in case resolve P src (Some (px, mem_New)) reference (opts\<lparr>ro_MaxMetadataBytes := n\<rparr>) of
             (Inl e, c) \<Rightarrow> Inl e
           | (Inr desc, c) \<Rightarrow> (case FetchCached px c desc of
               Inl e \<Rightarrow> Inl e
             | Inr rc \<Rightarrow> Inr (desc, rc)))"

definition FetchBytes :: "ext \<Rightarrow> source \<Rightarrow> string \<Rightarrow> FetchBytesOptions \<Rightarrow> (descriptor \<times> bytes) res" where
  "FetchBytes P src reference opts =
     (let n = (if fo_MaxBytes opts \<le> 0 then defaultMaxBytes else fo_MaxBytes opts)
      in case Fetch P src reference (fo_Resolve opts) of
        Inl e \<Rightarrow> Inl e
      | Inr (desc, rc) \<Rightarrow>
          if Size desc > n then Inl ErrSizeExceedsLimit
          else (case ReadAll P rc desc of
              Inl e \<Rightarrow> Inl e
            | Inr b \<Rightarrow> Inr (desc, b)))"

section \<open>Pushing and tagging\<close>

definition PushBytes :: "ext \<Rightarrow> ('s \<Rightarrow> descriptor \<Rightarrow> reader \<Rightarrow> unit res \<times> 's) \<Rightarrow> 's \<Rightarrow> string \<Rightarrow> bytes \<Rightarrow>
    descriptor res \<times> 's" where
  "PushBytes P push s mediaType contentBytes =
     (let desc = NewDescriptorFromBytes P mediaType contentBytes
      in case push s desc (bytes_reader contentBytes) of
           (Inl e, s) \<Rightarrow> (Inl e, s)
         | (Inr _, s) \<Rightarrow> (Inr desc, s))"

text \<open>
  A group with a limit: the references of the tasks that have not returned, the state and the first
  error. Tasks are started in order, so that only the first \<open>n\<close> of them can be active. After an error the
  context is canceled and a task may return without doing anything.
\<close>

type_synonym 's group = "string list \<times> 's \<times> error option"

definition first_error :: "error option \<Rightarrow> unit res \<Rightarrow> error option" where
  "first_error e x = (case e of Some e \<Rightarrow> Some e | None \<Rightarrow> (case x of Inl e \<Rightarrow> Some e | Inr _ \<Rightarrow> None))"

inductive group_step :: "nat \<Rightarrow> ('s \<Rightarrow> string \<Rightarrow> unit res \<times> 's) \<Rightarrow> 's group \<Rightarrow> 's group \<Rightarrow> bool" for n f where
  run: "\<lbrakk>length xs < n; f s r = (x, s')\<rbrakk> \<Longrightarrow>
     group_step n f (xs @ r # ys, s, e) (xs @ ys, s', first_error e x)"
| canceled: "length xs < n \<Longrightarrow> group_step n f (xs @ r # ys, s, Some e) (xs @ ys, s, Some e)"

definition group_Wait :: "nat \<Rightarrow> ('s \<Rightarrow> string \<Rightarrow> unit res \<times> 's) \<Rightarrow> string list \<Rightarrow> 's \<Rightarrow> error option \<Rightarrow> 's \<Rightarrow> bool" where
  "group_Wait n f refs s e s' \<longleftrightarrow> (group_step n f)\<^sup>*\<^sup>* (refs, s, None) ([], s', e)"

definition push_reference_task ::
  "('s \<Rightarrow> descriptor \<Rightarrow> reader \<Rightarrow> string \<Rightarrow> unit res \<times> 's) \<Rightarrow> descriptor \<Rightarrow> bytes \<Rightarrow> 's \<Rightarrow> string \<Rightarrow> unit res \<times> 's" where
  "push_reference_task pushReference desc contentBytes s ref =
     (case pushReference s desc (bytes_reader contentBytes) ref of
        (Inl e, s) \<Rightarrow> if e \<noteq> ErrAlreadyExists then (Inl e, s) else (Inr (), s)
      | (Inr _, s) \<Rightarrow> (Inr (), s))"

definition tagBytesN :: "'s ctarget \<Rightarrow> nat \<Rightarrow> 's \<Rightarrow> descriptor \<Rightarrow> bytes \<Rightarrow> string list \<Rightarrow> error option \<Rightarrow> 's \<Rightarrow> bool" where
  "tagBytesN T n s desc contentBytes references e s' = (case tg_PushReference T of
     Some pushReference \<Rightarrow> group_Wait n (push_reference_task pushReference desc contentBytes) references s e s'
   | None \<Rightarrow> (case st_Push (tg_storage T) s desc (bytes_reader contentBytes) of
       (Inl err, s) \<Rightarrow>
         if err \<noteq> ErrAlreadyExists then e = Some err \<and> s' = s
         else group_Wait n (\<lambda>s ref. tg_Tag T s desc ref) references s e s'
     | (Inr _, s) \<Rightarrow> group_Wait n (\<lambda>s ref. tg_Tag T s desc ref) references s e s'))"

definition with_desc :: "descriptor \<Rightarrow> error option \<Rightarrow> descriptor res" where
  "with_desc desc e = (case e of Some e \<Rightarrow> Inl e | None \<Rightarrow> Inr desc)"

definition TagBytesN :: "ext \<Rightarrow> 's ctarget \<Rightarrow> 's \<Rightarrow> string \<Rightarrow> bytes \<Rightarrow> string list \<Rightarrow> int \<Rightarrow>
    descriptor res \<Rightarrow> 's \<Rightarrow> bool" where
  "TagBytesN P T s mediaType contentBytes references concurrency r s' =
     (if length references = 0 then PushBytes P (st_Push (tg_storage T)) s mediaType contentBytes = (r, s')
      else let desc = NewDescriptorFromBytes P mediaType contentBytes;
               n = (if concurrency \<le> 0 then defaultTagConcurrency else nat concurrency)
        in \<exists>e. tagBytesN T n s desc contentBytes references e s' \<and> r = with_desc desc e)"

definition TagBytes :: "ext \<Rightarrow> 's ctarget \<Rightarrow> 's \<Rightarrow> string \<Rightarrow> bytes \<Rightarrow> string \<Rightarrow> descriptor res \<Rightarrow> 's \<Rightarrow> bool" where
  "TagBytes P T s mediaType contentBytes reference r s' = TagBytesN P T s mediaType contentBytes [reference] 0 r s'"

definition parse_hint :: "'s ctarget \<Rightarrow> string \<Rightarrow> unit res" where
  "parse_hint T src = (case tg_ParseReference T of
     None \<Rightarrow> Inr ()
   | Some parse \<Rightarrow> (case parse src of Inl e \<Rightarrow> Inl e | Inr _ \<Rightarrow> Inr ()))"

definition Tag :: "'s ctarget \<Rightarrow> 's \<Rightarrow> string \<Rightarrow> string \<Rightarrow> descriptor res \<times> 's" where
  "Tag T s src dst = (case (tg_FetchReference T, tg_PushReference T) of
     (Some fetchReference, Some pushReference) \<Rightarrow> (case parse_hint T src of
         Inl e \<Rightarrow> (Inl e, s)
       | Inr _ \<Rightarrow> (case fetchReference s src of
           Inl e \<Rightarrow> (Inl e, s)
         | Inr (desc, rc) \<Rightarrow> (case pushReference s desc rc dst of
             (Inl e, s) \<Rightarrow> (Inl e, s)
           | (Inr _, s) \<Rightarrow> (Inr desc, s))))
   | _ \<Rightarrow> (case tg_Resolve T s src of
         Inl e \<Rightarrow> (Inl e, s)
       | Inr desc \<Rightarrow> (case tg_Tag T s desc dst of
           (Inl e, s) \<Rightarrow> (Inl e, s)
         | (Inr _, s) \<Rightarrow> (Inr desc, s))))"

record TagNOptions =
  tn_Concurrency :: int
  tn_MaxMetadataBytes :: int

definition TagN :: "ext \<Rightarrow> 's ctarget \<Rightarrow> 's \<Rightarrow> string \<Rightarrow> string list \<Rightarrow> TagNOptions \<Rightarrow> descriptor res \<Rightarrow> 's \<Rightarrow> bool" where
  "TagN P T s srcReference dstReferences opts r s' =
     (if length dstReferences = 0 then r = Inl ErrMissingReference \<and> s' = s
      else if length dstReferences = 1 then Tag T s srcReference (dstReferences ! 0) = (r, s')
      else let n = (if tn_Concurrency opts \<le> 0 then defaultTagConcurrency else nat (tn_Concurrency opts));
               m = (if tn_MaxMetadataBytes opts \<le> 0 then defaultTagNMaxMetadataBytes else tn_MaxMetadataBytes opts)
        in if tg_FetchReference T \<noteq> None \<and> tg_PushReference T \<noteq> None then
             (case parse_hint T srcReference of
                Inl e \<Rightarrow> r = Inl e \<and> s' = s
              | Inr _ \<Rightarrow> (case FetchBytes P (source_of T s) srcReference
                    \<lparr>fo_Resolve = \<lparr>ro_TargetPlatform = None, ro_MaxMetadataBytes = 0\<rparr>, fo_MaxBytes = m\<rparr> of
                  Inl e \<Rightarrow> r = Inl e \<and> s' = s
                | Inr (desc, contentBytes) \<Rightarrow>
                    \<exists>e. tagBytesN T n s desc contentBytes dstReferences e s' \<and> r = with_desc desc e))
           else (case tg_Resolve T s srcReference of
               Inl e \<Rightarrow> r = Inl e \<and> s' = s
             | Inr desc \<Rightarrow>
                 \<exists>e. group_Wait n (\<lambda>s ref. tg_Tag T s desc ref) dstReferences s e s' \<and> r = with_desc desc e))"

section \<open>Fetched bytes are verified\<close>

text \<open>
  C39. Whatever the target delivers and however the content is found, the bytes that \<^verbatim>\<open>FetchBytes\<close> returns
  have the digest and the size of the returned descriptor, and are not larger than the limit.
\<close>

theorem FetchBytes_verified:
  assumes "FetchBytes P src reference opts = Inr (desc, b)"
  shows "dg_verify P (Digest desc) b \<and> int (length b) = Size desc
    \<and> int (length b) \<le> (if fo_MaxBytes opts \<le> 0 then 4194304 else fo_MaxBytes opts)"
  using assms by (auto simp: FetchBytes_def Let_def ReadAll_Inr defaultMaxBytes_def split: sum.splits if_splits)

section \<open>Groups of tagging tasks\<close>

text \<open>
  A store in which tagging a descriptor leaves the other references alone, up to references that it
  sets to the same descriptor.
\<close>

locale tag_frame_store = tag_store +
  assumes tag_frame: "\<lbrakk>inv s; resolve s r' = Inr x\<rbrakk> \<Longrightarrow>
    \<exists>x'. resolve (snd (tag s d r)) r' = Inr x' \<and> (Equal x' x \<or> Equal x' d)"
begin

lemma group_step_tags:
  assumes "group_step n (\<lambda>s r. tag s d r) g g'" "inv (fst (snd g))"
  shows "inv (fst (snd g')) \<and> content (fst (snd g')) = content (fst (snd g))
    \<and> (snd (snd g') = None \<longrightarrow> snd (snd g) = None \<and>
        (\<forall>r x. (resolve (fst (snd g)) r = Inr x \<and> Equal x d) \<or> r \<in> set (fst g) - set (fst g') \<longrightarrow>
           (\<exists>x. resolve (fst (snd g')) r = Inr x \<and> Equal x d)))"
  using assms
proof cases
  case (run xs s r x s' ys e)
  have s': "s' = snd (tag s d r)" using run(4) by simp
  have "inv s" using assms(2) run(1) by simp
  then have keep: "inv s' \<and> content s' = content s" using tag_inv tag_content unfolding s' by blast
  have "\<exists>x. resolve s' r' = Inr x \<and> Equal x d"
    if "first_error e x = None" "resolve s r' = Inr y \<and> Equal y d \<or> r' \<in> set (xs @ r # ys) - set (xs @ ys)" for r' y
  proof (cases "r' = r")
    case True
    have "x = Inr ()" using that(1) by (cases x) (auto simp: first_error_def split: option.splits)
    with run(4) tag_ok [OF \<open>inv s\<close>] True show ?thesis by blast
  next
    case False
    with that(2) have "resolve s r' = Inr y" "Equal y d" by auto
    with tag_frame [OF \<open>inv s\<close>, of r' y d r] show ?thesis unfolding s' by (auto simp: Equal_def)
  qed
  with keep run(1,2) show ?thesis by (auto simp: first_error_def split: option.splits)
qed (use assms in auto)

lemma group_Wait_tags:
  assumes "group_Wait n (\<lambda>s r. tag s d r) refs s None s'" "inv s"
  shows "inv s' \<and> content s' = content s \<and> (\<forall>r\<in>set refs. \<exists>x. resolve s' r = Inr x \<and> Equal x d)"
proof -
  have "inv (fst (snd g)) \<and> content (fst (snd g)) = content s
      \<and> (snd (snd g) = None \<longrightarrow> (\<forall>r\<in>set refs - set (fst g). \<exists>x. resolve (fst (snd g)) r = Inr x \<and> Equal x d))"
    if "(group_step n (\<lambda>s r. tag s d r))\<^sup>*\<^sup>* (refs, s, None) g" for g
    using that
  proof (induction rule: rtranclp_induct)
    case base
    with assms(2) show ?case by simp
  next
    case (step g g')
    from group_step_tags [OF step(2)] step(3) show ?case by (simp add: Ball_def) blast
  qed
  from this [OF assms(1) [unfolded group_Wait_def]] show ?thesis by simp
qed

end

lemma ms_Tag_frame:
  assumes "ms_Resolve s r' = Inr x"
  shows "\<exists>x'. ms_Resolve (snd (ms_Tag s d r)) r' = Inr x' \<and> (Equal x' x \<or> Equal x' d)"
  using assms by (auto simp: ms_Tag_def ms_Resolve_def mem_Exists_def rmem.resolve_tag Equal_def)

interpretation mtf: tag_frame_store P "ms_target P" "ms_inv P" ms_content ms_Resolve ms_Tag for P
  by unfold_locales (rule ms_Tag_frame)

lemma os_Tag_frame:
  assumes "os_Resolve P s r' = Inr x"
  shows "\<exists>x'. os_Resolve P (snd (os_Tag P ords s d r)) r' = Inr x' \<and> (Equal x' x \<or> Equal x' d)"
proof (cases "fst (os_Tag P ords s d r)")
  case (Inl e)
  then have "snd (os_Tag P ords s d r) = s" using os_Tag_Inl [of P ords s d r e] by (simp add: prod_eq_iff)
  with assms show ?thesis by (auto simp: Equal_def)
next
  case (Inr u)
  then have s': "snd (os_Tag P ords s d r) = os_tag ords s d r"
    by (simp add: os_Tag_def split: sum.splits if_splits)
  have r': "r' \<noteq> []"
  proof
    assume "r' = []"
    with assms show False by (simp add: os_Resolve_def oci_Resolve_def)
  qed
  show ?thesis
  proof (cases "r' = r \<or> r' = Digest d")
    case True
    then have "os_Resolve P (os_tag ords s d r) r' = Inr (if r' = Digest d then Plain d else d)"
      unfolding os_Resolve_cases [OF r'] os_tag_get by simp
    then show ?thesis unfolding s' by (auto simp: Equal_def Plain_def)
  next
    case False
    have fs: "os_fs (os_tag ords s d r) = os_fs s" using os_Tag_fs [of P ords s d r] unfolding s' .
    have "os_Resolve P (os_tag ords s d r) r' = os_Resolve P s r'"
      unfolding os_Resolve_cases [OF r'] os_tag_get fs using False by simp
    with assms show ?thesis unfolding s' by (simp add: Equal_def)
  qed
qed

interpretation otf: tag_frame_store P "os_target P ords" "\<lambda>s. oci_inv P (os_fs s)" "os_content P" "os_Resolve P" "os_Tag P ords"
  for P ords
  by unfold_locales (rule os_Tag_frame)

section \<open>Tagging by content and by reference\<close>

definition ms_ctarget :: "ext \<Rightarrow> mstore ctarget" where
  "ms_ctarget P = \<lparr>tg_storage = ms_target P, tg_Resolve = ms_Resolve, tg_Tag = ms_Tag, tg_PushReference = None,
     tg_Mount = None, tg_FetchReference = None, tg_ParseReference = None\<rparr>"

definition os_ctarget :: "ext \<Rightarrow> (nat \<Rightarrow> order) \<Rightarrow> ocistore ctarget" where
  "os_ctarget P ords = \<lparr>tg_storage = os_target P ords, tg_Resolve = os_Resolve P, tg_Tag = os_Tag P ords,
     tg_PushReference = None, tg_Mount = None, tg_FetchReference = None, tg_ParseReference = None\<rparr>"

lemma with_desc_Inr: "Inr d' = with_desc d e \<longleftrightarrow> e = None \<and> d' = d"
  by (auto simp: with_desc_def split: option.splits)

lemma Equal_FromOCI: "Equal x d \<longleftrightarrow> FromOCI x = FromOCI d"
  by (auto simp: Equal_def FromOCI_def)

text \<open>
  C37. Content tagged with \<^verbatim>\<open>TagBytesN\<close> in a memory store is found again under every one of the references:
  \<^verbatim>\<open>FetchBytes\<close> returns the same bytes with an equal descriptor, for every interleaving of the tasks.
\<close>

theorem TagBytesN_FetchBytes:
  assumes "ms_inv P s" "collision_free P" "digest_from_ok P"
    and "TagBytesN P (ms_ctarget P) s mediaType b refs n (Inr d) s'" "r \<in> set refs"
    and "int (length b) \<le> m" "0 < m"
  shows "\<exists>x. FetchBytes P (source_of (ms_ctarget P) s') r
      \<lparr>fo_Resolve = \<lparr>ro_TargetPlatform = None, ro_MaxMetadataBytes = k\<rparr>, fo_MaxBytes = m\<rparr> = Inr (x, b) \<and> Equal x d"
proof -
  let ?n = "if n \<le> 0 then defaultTagConcurrency else nat n"
  from assms(4,5) have d: "d = NewDescriptorFromBytes P mediaType b"
    and t: "tagBytesN (ms_ctarget P) ?n s d b refs None s'"
    by (auto simp: TagBytesN_def with_desc_Inr Let_def split: if_splits)
  obtain y s1 where push: "st_Push (ms_target P) s d (bytes_reader b) = (y, s1)" by fastforce
  from t push have y: "y \<in> {Inr (), Inl ErrAlreadyExists}" and g: "group_Wait ?n (\<lambda>s r. ms_Tag s d r) refs s1 None s'"
    by (auto simp: tagBytesN_def ms_ctarget_def split: sum.splits if_splits)
  note s1 = mst.push_result [OF assms(1) push]
  note s' = mtf.group_Wait_tags [OF g s1(1)]
  from s' assms(5) obtain x where x: "ms_Resolve s' r = Inr x" "Equal x d" by blast
  have "ms_content s' x \<noteq> None" using s1(3) [OF y] s' x(2) mst.store_key [of x d s'] by (simp add: Equal_FromOCI)
  then obtain b' where b': "ms_storage s' (FromOCI x) = Some b'" by (auto simp: ms_content_def mem_content_def)
  have "Digest x = dg_from P b" "Size x = int (length b)"
    using x(2) d by (auto simp: Equal_def NewDescriptorFromBytes_def plain_desc_def Let_def)
  moreover have "dg_verify P (Digest x) b'" "int (length b') = Size x"
    using mem_inv_FromOCI [OF ms_invD(1) b'] s' by blast+
  ultimately have "b' = b" using assms(2,3) unfolding collision_free_def digest_from_ok_def by metis
  have fetch: "FetchAll P (ms_Fetch s') x = Inr b"
    using b' \<open>b' = b\<close> mem_FetchAll [OF ms_invD(1), of P s' x] s' by (simp add: ms_Fetch_def [abs_def])
  then obtain rc where "ms_Fetch s' x = Inr rc" "ReadAll P rc x = Inr b"
    by (auto simp: FetchAll_def split: sum.splits)
  then have "FetchBytes P (source_of (ms_ctarget P) s') r
      \<lparr>fo_Resolve = \<lparr>ro_TargetPlatform = None, ro_MaxMetadataBytes = k\<rparr>, fo_MaxBytes = m\<rparr> = Inr (x, b)"
    using x(1) assms(6,7) \<open>Size x = int (length b)\<close>
    by (simp add: FetchBytes_def Fetch_def source_of_def ms_ctarget_def ms_target_def)
  with x(2) show ?thesis by blast
qed

text \<open>
  C38. When \<^verbatim>\<open>TagN\<close> succeeds on an OCI store, for every interleaving of its tasks, each of the new references
  resolves to the content of the source reference, and the stored content has not changed.
\<close>

theorem TagN_references:
  assumes "oci_inv P (os_fs s)" "TagN P (os_ctarget P ords) s src dsts opts (Inr d) s'"
  shows "(\<exists>x. os_Resolve P s src = Inr x \<and> Equal x d) \<and> os_content P s' = os_content P s \<and> oci_inv P (os_fs s')
    \<and> (\<forall>r\<in>set dsts. \<exists>x. os_Resolve P s' r = Inr x \<and> Equal x d)"
proof (cases "length dsts = 1")
  case True
  then obtain r where r: "dsts = [r]" by (cases dsts) auto
  from assms(2) r have "os_Resolve P s src = Inr d" and tag: "os_Tag P ords s d r = (Inr (), s')"
    by (auto simp: TagN_def Tag_def os_ctarget_def split: sum.splits prod.splits)
  then show ?thesis
    using ost.tag_ok [OF assms(1) tag] ost.tag_inv [where P = P and ords = ords, OF assms(1), of d r]
      ost.tag_content [where P = P and ords = ords, OF assms(1), of d r] r
    by (auto simp: Equal_def)
next
  case False
  let ?n = "if tn_Concurrency opts \<le> 0 then defaultTagConcurrency else nat (tn_Concurrency opts)"
  from assms(2) False have "os_Resolve P s src = Inr d" and g: "group_Wait ?n (\<lambda>s r. os_Tag P ords s d r) dsts s None s'"
    by (simp_all add: TagN_def os_ctarget_def Let_def with_desc_Inr split: if_splits sum.split_asm)
  then show ?thesis using otf.group_Wait_tags [OF g assms(1)] by (auto simp: Equal_def)
qed

section \<open>Concrete calls\<close>

lemma group_Wait_two:
  assumes "f s r2 = (Inr (), s1)" "f s1 r1 = (Inr (), s')"
  shows "group_Wait 5 f [r1, r2] s None s'"
proof -
  have "group_step 5 f ([r1] @ r2 # [], s, None) ([r1] @ [], s1, first_error None (Inr ()))"
    by (rule group_step.run) (simp_all add: assms(1))
  moreover have "group_step 5 f ([] @ r1 # [], s1, None) ([] @ [], s', first_error None (Inr ()))"
    by (rule group_step.run) (simp_all add: assms(2))
  ultimately show ?thesis
    unfolding group_Wait_def by (simp add: first_error_def)
qed

definition demo_pushed :: mstore where
  "demo_pushed = snd (ms_Push demo_ext ms_New (NewDescriptorFromBytes demo_ext [] ''hello'') (bytes_reader ''hello''))"

definition demo_retag :: "mstore \<Rightarrow> string \<Rightarrow> mstore" where
  "demo_retag s r = snd (ms_Tag s (NewDescriptorFromBytes demo_ext [] ''hello'') r)"

theorem FetchBytes_verified_witness:
  "FetchBytes demo_ext (source_of (ms_ctarget demo_ext) (demo_retag demo_pushed ''a'')) ''a''
     \<lparr>fo_Resolve = \<lparr>ro_TargetPlatform = None, ro_MaxMetadataBytes = 0\<rparr>, fo_MaxBytes = 0\<rparr>
     = Inr (NewDescriptorFromBytes demo_ext [] ''hello'', ''hello'')
   \<and> dg_verify demo_ext (Digest (NewDescriptorFromBytes demo_ext [] ''hello'')) ''hello''"
proof -
  have run: "FetchBytes demo_ext (source_of (ms_ctarget demo_ext) (demo_retag demo_pushed ''a'')) ''a''
     \<lparr>fo_Resolve = \<lparr>ro_TargetPlatform = None, ro_MaxMetadataBytes = 0\<rparr>, fo_MaxBytes = 0\<rparr>
     = Inr (NewDescriptorFromBytes demo_ext [] ''hello'', ''hello'')" by code_simp
  with FetchBytes_verified [OF run] show ?thesis by blast
qed

lemma demo_TagBytesN:
  "TagBytesN demo_ext (ms_ctarget demo_ext) ms_New [] ''hello'' [''a'', ''b''] 0
     (Inr (NewDescriptorFromBytes demo_ext [] ''hello'')) (demo_retag (demo_retag demo_pushed ''b'') ''a'')"
proof -
  let ?d = "NewDescriptorFromBytes demo_ext [] ''hello''"
  have "fst (ms_Push demo_ext ms_New ?d (bytes_reader ''hello'')) = Inr ()" by code_simp
  then have push: "ms_Push demo_ext ms_New ?d (bytes_reader ''hello'') = (Inr (), demo_pushed)"
    by (simp add: demo_pushed_def prod_eq_iff)
  have "fst (ms_Tag demo_pushed ?d ''b'') = Inr ()" "fst (ms_Tag (demo_retag demo_pushed ''b'') ?d ''a'') = Inr ()"
    by code_simp+
  then have "group_Wait 5 (\<lambda>s r. ms_Tag s ?d r) [''a'', ''b''] demo_pushed None (demo_retag (demo_retag demo_pushed ''b'') ''a'')"
    by (intro group_Wait_two) (simp_all add: demo_retag_def prod_eq_iff)
  with push show ?thesis
    by (simp add: TagBytesN_def tagBytesN_def ms_ctarget_def ms_target_def with_desc_def defaultTagConcurrency_def Let_def)
      (metis (no_types) option.simps(4))
qed

theorem TagBytesN_FetchBytes_witness:
  "\<exists>x. FetchBytes demo_ext (source_of (ms_ctarget demo_ext) (demo_retag (demo_retag demo_pushed ''b'') ''a'')) ''b''
     \<lparr>fo_Resolve = \<lparr>ro_TargetPlatform = None, ro_MaxMetadataBytes = 0\<rparr>, fo_MaxBytes = 5\<rparr> = Inr (x, ''hello'')"
proof -
  have c: "collision_free demo_ext" "digest_from_ok demo_ext"
    by (simp_all add: collision_free_def digest_from_ok_def demo_ext_def)
  from TagBytesN_FetchBytes [OF ms_inv_New c demo_TagBytesN, of "''b''" 5] show ?thesis by auto
qed

definition demo_tagged :: "ocistore \<Rightarrow> string \<Rightarrow> ocistore" where
  "demo_tagged s r = snd (os_Tag demo_graph_ext (\<lambda>_. id_order) s demo_referrer r)"

lemma demo_os_Tag:
  assumes "os_fs s = os_fs demo_oci" "r \<noteq> []"
  shows "os_Tag demo_graph_ext (\<lambda>_. id_order) s demo_referrer r = (Inr (), demo_tagged s r)"
    and "os_fs (demo_tagged s r) = os_fs demo_oci"
proof -
  have "oci_Exists demo_graph_ext (os_fs demo_oci) demo_referrer = Inr True"
    by (simp add: oci_Exists_def demo_oci_sel demo_blobPath)
  with assms show "os_Tag demo_graph_ext (\<lambda>_. id_order) s demo_referrer r = (Inr (), demo_tagged s r)"
    by (simp add: demo_tagged_def os_Tag_def validateReference_def)
  show "os_fs (demo_tagged s r) = os_fs demo_oci" using assms(1) by (simp add: demo_tagged_def)
qed

theorem TagN_references_witness:
  "\<exists>x. os_Resolve demo_graph_ext (demo_tagged (demo_tagged demo_oci ''b'') ''a'') ''b'' = Inr x \<and> Equal x demo_referrer"
proof -
  have "group_Wait 5 (\<lambda>s r. os_Tag demo_graph_ext (\<lambda>_. id_order) s demo_referrer r) [''a'', ''b''] demo_oci None
      (demo_tagged (demo_tagged demo_oci ''b'') ''a'')"
    by (rule group_Wait_two) (rule demo_os_Tag(1); simp add: demo_os_Tag(2))+
  moreover have "os_Resolve demo_graph_ext demo_oci ''sig'' = Inr demo_referrer"
    by (simp add: os_Resolve_def oci_Resolve_def resolver_Resolve_def demo_oci_sel)
  ultimately have "TagN demo_graph_ext (os_ctarget demo_graph_ext (\<lambda>_. id_order)) demo_oci ''sig'' [''a'', ''b'']
      \<lparr>tn_Concurrency = 0, tn_MaxMetadataBytes = 0\<rparr> (Inr demo_referrer) (demo_tagged (demo_tagged demo_oci ''b'') ''a'')"
    by (auto simp: TagN_def os_ctarget_def with_desc_def defaultTagConcurrency_def Let_def intro!: exI [of _ None])
  moreover have "oci_inv demo_graph_ext (os_fs demo_oci)" using os_invD(1) [OF os_goodD(1) [OF os_reachable_good [OF demo_consistent demo_oci_reachable]]] .
  ultimately show ?thesis using TagN_references by fastforce
qed

end
