(* ===== verification/Referrers_Index.thy ===== *)
theory Referrers_Index
  imports Descriptors Go_Strings
begin

text \<open>
  \<^verbatim>\<open>registry/remote/referrers.go\<close>: the referrers index that a client keeps for registries without the
  Referrers API. The slices that the code filters in place are lists updated by index; the position map
  of \<^verbatim>\<open>applyReferrerChanges\<close> is a map from keys to positions.
\<close>

datatype referrerOperation = referrerOperationAdd | referrerOperationRemove

record referrerChange =
  rc_referrer :: descriptor
  rc_operation :: referrerOperation

definition buildReferrersTag :: "descriptor \<Rightarrow> string" where
  "buildReferrersTag desc =
     (let alg = dg_Algorithm (Digest desc);
          encoded = dg_Encoded (Digest desc)
      in alg @ ''-'' @ encoded)"

definition isReferrersFilterApplied :: "string \<Rightarrow> string \<Rightarrow> bool" where
  "isReferrersFilterApplied applied requested =
     (if applied = [] \<or> requested = [] then False
      else list_ex (\<lambda>f. f = requested) (Split CHR '','' applied))"

text \<open>The loop of \<^verbatim>\<open>filterReferrers\<close>: it reads the element before anything is written behind it.\<close>

function filter_loop :: "string \<Rightarrow> nat \<Rightarrow> nat \<Rightarrow> descriptor list \<Rightarrow> nat \<times> descriptor list" where
  "filter_loop artifactType i j refs =
     (if i \<ge> length refs then (j, refs)
      else let ref = refs ! i
        in if ArtifactType ref = artifactType
           then filter_loop artifactType (i + 1) (j + 1) (if i \<noteq> j then refs[j := ref] else refs)
           else filter_loop artifactType (i + 1) j refs)"
  by pat_completeness auto
termination
  by (relation "measure (\<lambda>(a, i, j, refs). length refs - i)") (auto simp: Let_def)

declare filter_loop.simps [simp del]

definition filterReferrers :: "descriptor list \<Rightarrow> string \<Rightarrow> descriptor list" where
  "filterReferrers refs artifactType =
     (if artifactType = [] then refs
      else case filter_loop artifactType 0 0 refs of (j, refs) \<Rightarrow> take j refs)"

abbreviation nonempty_desc :: "descriptor \<Rightarrow> bool" where
  "nonempty_desc r \<equiv> \<not> Equal r empty_descriptor"

function remove_loop :: "nat \<Rightarrow> nat \<Rightarrow> nat \<Rightarrow> descriptor list \<Rightarrow> nat \<times> descriptor list" where
  "remove_loop hint i j descs =
     (if i \<ge> length descs then (j, descs)
      else let r = descs ! i;
               (j, descs) = (if nonempty_desc r then (j + 1, if i > j then descs[j := r] else descs) else (j, descs))
        in if j = hint then (j, descs) else remove_loop hint (i + 1) j descs)"
  by pat_completeness auto
termination
  by (relation "measure (\<lambda>(h, i, j, descs). length descs - i)") (auto simp: Let_def split: if_splits)

declare remove_loop.simps [simp del]

definition removeEmptyDescriptors :: "descriptor list \<Rightarrow> nat \<Rightarrow> descriptor list" where
  "removeEmptyDescriptors descs hint = (case remove_loop hint 0 0 descs of (j, descs) \<Rightarrow> take j descs)"

type_synonym referrers_state = "(key, nat) gomap \<times> descriptor list \<times> bool"

definition collect_referrer :: "referrers_state \<Rightarrow> descriptor \<Rightarrow> referrers_state" where
  "collect_referrer = (\<lambda>(referrersMap, updatedReferrers, updateRequired) r.
     if Equal r empty_descriptor then (referrersMap, updatedReferrers, True)
     else let key = FromOCI r
       in if gm_get referrersMap key \<noteq> None then (referrersMap, updatedReferrers, True)
          else let updatedReferrers = updatedReferrers @ [r]
            in (gm_put key (length updatedReferrers - 1) referrersMap, updatedReferrers, updateRequired))"

definition apply_change :: "(key, nat) gomap \<times> descriptor list \<Rightarrow> referrerChange \<Rightarrow> (key, nat) gomap \<times> descriptor list" where
  "apply_change = (\<lambda>(referrersMap, updatedReferrers) change.
     let key = FromOCI (rc_referrer change)
     in case rc_operation change of
       referrerOperationAdd \<Rightarrow>
         if gm_get referrersMap key = None
         then let updatedReferrers = updatedReferrers @ [rc_referrer change]
           in (gm_put key (length updatedReferrers - 1) referrersMap, updatedReferrers)
         else (referrersMap, updatedReferrers)
     | referrerOperationRemove \<Rightarrow> (case gm_get referrersMap key of
           Some pos \<Rightarrow> (gm_del key referrersMap, updatedReferrers[pos := empty_descriptor])
         | None \<Rightarrow> (referrersMap, updatedReferrers)))"

text \<open>None is \<^verbatim>\<open>errNoReferrerUpdate\<close>.\<close>

definition applyReferrerChanges :: "descriptor list \<Rightarrow> referrerChange list \<Rightarrow> descriptor list option" where
  "applyReferrerChanges referrers referrerChanges =
     (let (referrersMap, updatedReferrers, updateRequired) = foldl collect_referrer ([], [], False) referrers;
          (referrersMap, updatedReferrers) = foldl apply_change (referrersMap, updatedReferrers) referrerChanges
      in if \<not> updateRequired \<and> length referrersMap = length referrers
            \<and> list_all (\<lambda>r. gm_get referrersMap (FromOCI r) \<noteq> None) referrers
         then None
         else Some (removeEmptyDescriptors updatedReferrers (length referrersMap)))"

section \<open>In-place filters\<close>

lemma filter_loop_result:
  assumes "j \<le> i" "i \<le> length refs" "take j refs = filter (\<lambda>r. ArtifactType r = a) (take i xs)"
    and "drop i refs = drop i xs" "length refs = length xs"
  shows "case filter_loop a i j refs of (j, refs) \<Rightarrow> take j refs = filter (\<lambda>r. ArtifactType r = a) xs"
  using assms
proof (induction a i j refs rule: filter_loop.induct)
  case (1 a i j refs)
  show ?case
  proof (cases "i < length refs")
    case False
    then have "filter_loop a i j refs = (j, refs)" using filter_loop.simps [of a i j refs] by simp
    with False 1(4-7) show ?thesis by simp
  next
    case True
    have x: "refs ! i = xs ! i" using 1(6,7) True by (metis nth_via_drop Cons_nth_drop_Suc)
    have take: "take (Suc i) xs = take i xs @ [xs ! i]" using True 1(7) by (simp add: take_Suc_conv_app_nth)
    have drop: "drop (Suc i) refs = drop (Suc i) xs" using 1(6) by (metis drop_Suc tl_drop)
    show ?thesis
    proof (cases "ArtifactType (refs ! i) = a")
      case True
      let ?refs = "if i \<noteq> j then refs[j := refs ! i] else refs"
      have j: "j < length refs" using \<open>i < length refs\<close> 1(3) by simp
      have "take (Suc j) ?refs = take j refs @ [refs ! i]"
        using j by (auto simp: take_Suc_conv_app_nth)
      moreover have "drop (Suc i) ?refs = drop (Suc i) xs" using drop 1(3) by auto
      moreover have "filter_loop a i j refs = filter_loop a (i + 1) (j + 1) ?refs"
        using \<open>i < length refs\<close> True filter_loop.simps [of a i j refs] by (simp add: Let_def)
      moreover have "length ?refs = length xs" using 1(7) by simp
      ultimately show ?thesis
        using 1(1) [OF _ refl True] \<open>i < length refs\<close> 1(3-7) x take True by simp
    next
      case False
      with 1(2) [OF _ refl] \<open>i < length refs\<close> 1(3-7) x take drop show ?thesis
        by (simp add: filter_loop.simps [of a i] Let_def)
    qed
  qed
qed

lemma filterReferrers_eq:
  "filterReferrers refs a = (if a = [] then refs else filter (\<lambda>r. ArtifactType r = a) refs)"
  using filter_loop_result [of 0 0 refs a refs] by (auto simp: filterReferrers_def)

lemma remove_loop_result:
  assumes "j \<le> i" "i \<le> length ds" "take j ds = filter nonempty_desc (take i xs)"
    and "drop i ds = drop i xs" "length ds = length xs" "length (filter nonempty_desc xs) \<le> hint"
    and "j = hint \<longrightarrow> i = 0"
  shows "case remove_loop hint i j ds of (j, ds) \<Rightarrow> take j ds = filter nonempty_desc xs"
  using assms
proof (induction hint i j ds rule: remove_loop.induct)
  case (1 hint i j ds)
  show ?case
  proof (cases "i < length ds")
    case False
    then have "remove_loop hint i j ds = (j, ds)" using remove_loop.simps [of hint i j ds] by simp
    with False 1(3-6) show ?thesis by simp
  next
    case True
    have x: "ds ! i = xs ! i" using 1(5,6) True by (metis nth_via_drop Cons_nth_drop_Suc)
    have take: "take (Suc i) xs = take i xs @ [xs ! i]" using True 1(6) by (simp add: take_Suc_conv_app_nth)
    have drop: "drop (Suc i) ds = drop (Suc i) xs" using 1(5) by (metis drop_Suc tl_drop)
    let ?j = "if nonempty_desc (ds ! i) then j + 1 else j"
    let ?ds = "if nonempty_desc (ds ! i) then (if i > j then ds[j := ds ! i] else ds) else ds"
    have j: "j < length ds" using True 1(2) by simp
    have pre: "take ?j ?ds = filter nonempty_desc (take (Suc i) xs)"
      using j 1(2,4) x take by (auto simp: take_Suc_conv_app_nth le_less)
    have drop': "drop (Suc i) ?ds = drop (Suc i) xs" using drop 1(2) by simp
    have loop: "remove_loop hint i j ds = (if ?j = hint then (?j, ?ds) else remove_loop hint (i + 1) ?j ?ds)"
      using True by (subst remove_loop.simps) (simp add: Let_def)
    show ?thesis
    proof (cases "?j = hint")
      case hint: True
      have split: "filter nonempty_desc xs = filter nonempty_desc (take (Suc i) xs) @ filter nonempty_desc (drop (Suc i) xs)"
        by (metis append_take_drop_id filter_append)
      have "?j \<le> length ?ds" using True 1(2) by auto
      then have "length (take ?j ?ds) = hint" unfolding length_take hint by (rule min_absorb2)
      with pre have "length (filter nonempty_desc (take (Suc i) xs)) = hint" by simp
      moreover have "length (filter nonempty_desc xs) =
          length (filter nonempty_desc (take (Suc i) xs)) + length (filter nonempty_desc (drop (Suc i) xs))"
        by (subst split) simp
      ultimately have "length (filter nonempty_desc (drop (Suc i) xs)) = 0" using 1(7) by linarith
      then have "filter nonempty_desc xs = filter nonempty_desc (take (Suc i) xs)" using split by simp
      then show ?thesis unfolding loop using pre hint by simp
    next
      case False
      have "case remove_loop hint (i + 1) ?j ?ds of (j, ds) \<Rightarrow> take j ds = filter nonempty_desc xs"
        by (rule 1(1) [OF _ refl _ refl False]) (use True 1(2,6,7) pre drop' False in auto)
      with loop False show ?thesis by simp
    qed
  qed
qed

lemma removeEmptyDescriptors_eq:
  "length (filter nonempty_desc ds) \<le> hint \<Longrightarrow> removeEmptyDescriptors ds hint = filter nonempty_desc ds"
  using remove_loop_result [of 0 0 ds ds hint] by (auto simp: removeEmptyDescriptors_def)

section \<open>Applying changes\<close>

text \<open>
  The reference definition: the first entry of each key, empty entries left out; then an addition appends a
  referrer that is not there and a removal removes it.
\<close>

fun distinct_referrers :: "key set \<Rightarrow> descriptor list \<Rightarrow> descriptor list" where
  "distinct_referrers K [] = []"
| "distinct_referrers K (r # rs) =
     (if Equal r empty_descriptor \<or> FromOCI r \<in> K then distinct_referrers K rs
      else r # distinct_referrers (insert (FromOCI r) K) rs)"

definition change_spec :: "descriptor list \<Rightarrow> referrerChange \<Rightarrow> descriptor list" where
  "change_spec L change = (case rc_operation change of
     referrerOperationAdd \<Rightarrow>
       if FromOCI (rc_referrer change) \<in> FromOCI ` set L then L else L @ [rc_referrer change]
   | referrerOperationRemove \<Rightarrow> filter (\<lambda>r. FromOCI r \<noteq> FromOCI (rc_referrer change)) L)"

definition changes_spec :: "descriptor list \<Rightarrow> referrerChange list \<Rightarrow> descriptor list" where
  "changes_spec referrers changes = foldl change_spec (distinct_referrers {} referrers) changes"

definition referrers_inv :: "(key, nat) gomap \<Rightarrow> descriptor list \<Rightarrow> descriptor list \<Rightarrow> bool" where
  "referrers_inv m u L \<longleftrightarrow> gm_ok m \<and> distinct (map FromOCI L) \<and> fst ` set m = FromOCI ` set L
     \<and> (\<forall>k pos. gm_get m k = Some pos \<longrightarrow> pos < length u \<and> FromOCI (u ! pos) = k)
     \<and> (\<forall>i<length u. nonempty_desc (u ! i) \<longrightarrow> gm_get m (FromOCI (u ! i)) = Some i)
     \<and> filter nonempty_desc u = filter nonempty_desc L"

lemma Equal_key: "Equal a b \<longleftrightarrow> FromOCI a = FromOCI b"
  by (auto simp: Equal_def FromOCI_def)

lemma referrers_invD:
  assumes "referrers_inv m u L"
  shows "gm_ok m" "distinct (map FromOCI L)" "gm_get m k \<noteq> None \<longleftrightarrow> k \<in> FromOCI ` set L"
    "gm_get m k = Some pos \<Longrightarrow> pos < length u \<and> FromOCI (u ! pos) = k"
    "\<lbrakk>i < length u; nonempty_desc (u ! i)\<rbrakk> \<Longrightarrow> gm_get m (FromOCI (u ! i)) = Some i"
    "filter nonempty_desc u = filter nonempty_desc L"
  using assms gm_in_keys [of k m] unfolding referrers_inv_def by blast+

lemma referrers_inv_add:
  assumes "referrers_inv m u L" "gm_get m (FromOCI r) = None"
  shows "referrers_inv (gm_put (FromOCI r) (length u) m) (u @ [r]) (L @ [r])"
proof -
  note I = referrers_invD [OF assms(1)]
  have new: "FromOCI r \<notin> FromOCI ` set L" using I(3) [of "FromOCI r"] assms(2) by blast
  have keys: "fst ` set (gm_put (FromOCI r) (length u) m) = FromOCI ` set (L @ [r])"
  proof -
    have "k \<in> fst ` set (gm_put (FromOCI r) (length u) m) \<longleftrightarrow> k = FromOCI r \<or> gm_get m k \<noteq> None" for k
      unfolding gm_in_keys by auto
    then show ?thesis using I(3) by auto
  qed
  have pos: "pos < length (u @ [r]) \<and> FromOCI ((u @ [r]) ! pos) = k"
    if "gm_get (gm_put (FromOCI r) (length u) m) k = Some pos" for k pos
    using that I(4) [of k pos] by (auto simp: nth_append split: if_splits)
  have bk: "gm_get (gm_put (FromOCI r) (length u) m) (FromOCI ((u @ [r]) ! i)) = Some i"
    if "i < length (u @ [r])" "nonempty_desc ((u @ [r]) ! i)" for i
  proof (cases "i < length u")
    case True
    then have i: "gm_get m (FromOCI (u ! i)) = Some i" using that(2) I(5) by (simp add: nth_append)
    then have "FromOCI (u ! i) \<noteq> FromOCI r" using assms(2) by auto
    with i True show ?thesis by (simp add: nth_append)
  next
    case False
    with that(1) show ?thesis by (simp add: nth_append)
  qed
  show ?thesis unfolding referrers_inv_def
    using I(1,2,6) new keys pos bk by auto
qed

lemma referrers_inv_remove:
  assumes "referrers_inv m u L" "gm_get m k = Some pos"
  shows "referrers_inv (gm_del k m) (u[pos := empty_descriptor]) (filter (\<lambda>r. FromOCI r \<noteq> k) L)"
proof -
  note I = referrers_invD [OF assms(1)]
  have p: "pos < length u" "FromOCI (u ! pos) = k" using I(4) [OF assms(2)] by auto
  have at: "i = pos" if "i < length u" "nonempty_desc (u ! i)" "FromOCI (u ! i) = k" for i
    using I(5) [OF that(1,2)] assms(2) that(3) by simp
  have keys: "fst ` set (gm_del k m) = FromOCI ` set (filter (\<lambda>r. FromOCI r \<noteq> k) L)"
  proof -
    have "k' \<in> fst ` set (gm_del k m) \<longleftrightarrow> k' \<noteq> k \<and> gm_get m k' \<noteq> None" for k'
      unfolding gm_in_keys by auto
    then have A: "k' \<in> fst ` set (gm_del k m) \<longleftrightarrow> k' \<noteq> k \<and> k' \<in> FromOCI ` set L" for k' unfolding I(3) .
    have B: "FromOCI ` set (filter (\<lambda>r. FromOCI r \<noteq> k) L) = {k' \<in> FromOCI ` set L. k' \<noteq> k}" by auto
    show ?thesis unfolding B by (rule set_eqI) (simp only: A mem_Collect_eq conj_commute)
  qed
  have "filter nonempty_desc (u[pos := empty_descriptor]) = filter (\<lambda>r. nonempty_desc r \<and> FromOCI r \<noteq> k) u"
  proof -
    have u: "u = take pos u @ u ! pos # drop (Suc pos) u" using p(1) by (rule id_take_nth_drop)
    have e: "\<not> nonempty_desc empty_descriptor" by (simp add: Equal_def)
    have side: "filter nonempty_desc ys = filter (\<lambda>r. nonempty_desc r \<and> FromOCI r \<noteq> k) ys"
      if "\<And>y. y \<in> set ys \<Longrightarrow> \<exists>i. i < length u \<and> i \<noteq> pos \<and> u ! i = y" for ys
    proof (rule filter_cong [OF refl])
      fix y assume "y \<in> set ys"
      with that obtain i where "i < length u" "i \<noteq> pos" "u ! i = y" by blast
      with at [of i] show "nonempty_desc y \<longleftrightarrow> nonempty_desc y \<and> FromOCI y \<noteq> k" by blast
    qed
    have "filter nonempty_desc (take pos u) = filter (\<lambda>r. nonempty_desc r \<and> FromOCI r \<noteq> k) (take pos u)"
    proof (rule side)
      fix y assume "y \<in> set (take pos u)"
      then obtain i where "i < pos" "y = u ! i" by (auto simp: in_set_conv_nth)
      then show "\<exists>i. i < length u \<and> i \<noteq> pos \<and> u ! i = y" using p(1) by (intro exI [of _ i]) simp
    qed
    moreover have "filter nonempty_desc (drop (Suc pos) u) = filter (\<lambda>r. nonempty_desc r \<and> FromOCI r \<noteq> k) (drop (Suc pos) u)"
    proof (rule side)
      fix y assume "y \<in> set (drop (Suc pos) u)"
      then obtain i where "i < length u - Suc pos" "y = u ! (Suc pos + i)" by (auto simp: in_set_conv_nth)
      then show "\<exists>i. i < length u \<and> i \<noteq> pos \<and> u ! i = y" by (intro exI [of _ "Suc pos + i"]) simp
    qed
    moreover have "u[pos := empty_descriptor] = take pos u @ empty_descriptor # drop (Suc pos) u"
      using p(1) by (rule upd_conv_take_nth_drop)
    moreover have "filter (\<lambda>r. nonempty_desc r \<and> FromOCI r \<noteq> k) u =
        filter (\<lambda>r. nonempty_desc r \<and> FromOCI r \<noteq> k) (take pos u) @ filter (\<lambda>r. nonempty_desc r \<and> FromOCI r \<noteq> k) (drop (Suc pos) u)"
      using arg_cong [OF u, of "filter (\<lambda>r. nonempty_desc r \<and> FromOCI r \<noteq> k)"] p(2) by (simp only: filter_append filter.simps) simp
    ultimately show ?thesis using e by simp
  qed
  moreover have "filter (\<lambda>r. nonempty_desc r \<and> FromOCI r \<noteq> k) u = filter (\<lambda>r. FromOCI r \<noteq> k) (filter nonempty_desc L)"
    unfolding I(6) [symmetric] by (simp add: conj_commute)
  ultimately have f: "filter nonempty_desc (u[pos := empty_descriptor]) = filter nonempty_desc (filter (\<lambda>r. FromOCI r \<noteq> k) L)"
    by (simp add: conj_commute)
  have pos': "p' < length (u[pos := empty_descriptor]) \<and> FromOCI (u[pos := empty_descriptor] ! p') = k'"
    if "gm_get (gm_del k m) k' = Some p'" for k' p'
    using that I(4) [of k' p'] p by (auto simp: nth_list_update split: if_splits)
  have bk: "gm_get (gm_del k m) (FromOCI (u[pos := empty_descriptor] ! i)) = Some i"
    if "i < length (u[pos := empty_descriptor])" "nonempty_desc (u[pos := empty_descriptor] ! i)" for i
  proof -
    have "i \<noteq> pos" using that p(1) by (auto simp: Equal_def)
    then show ?thesis using that I(5) [of i] at [of i] by auto
  qed
  show ?thesis unfolding referrers_inv_def
    using I(1,2) keys pos' bk f by (auto simp: distinct_map inj_on_def)
qed

lemma collect_referrers:
  assumes "referrers_inv m u L"
  shows "\<exists>m' u'. foldl collect_referrer (m, u, b) rs = (m', u', b \<or> \<not> distinct (map FromOCI rs)
      \<or> (\<exists>r\<in>set rs. Equal r empty_descriptor \<or> FromOCI r \<in> FromOCI ` set L))
    \<and> referrers_inv m' u' (L @ distinct_referrers (FromOCI ` set L) rs)"
  using assms
proof (induction rs arbitrary: m u L b)
  case Nil
  then show ?case by simp
next
  case (Cons r rs)
  note get = referrers_invD(3) [OF Cons.prems, of "FromOCI r"]
  show ?case
  proof (cases "Equal r empty_descriptor \<or> FromOCI r \<in> FromOCI ` set L")
    case True
    then have "collect_referrer (m, u, b) r = (m, u, True)" using get by (auto simp: collect_referrer_def Let_def)
    with Cons.IH [OF Cons.prems, of True] True show ?thesis by auto
  next
    case False
    then have none: "gm_get m (FromOCI r) = None" using get by blast
    then have "collect_referrer (m, u, b) r = (gm_put (FromOCI r) (length u) m, u @ [r], b)"
      using False by (simp add: collect_referrer_def Let_def)
    moreover have "b \<or> \<not> distinct (map FromOCI rs)
        \<or> (\<exists>x\<in>set rs. Equal x empty_descriptor \<or> FromOCI x \<in> FromOCI ` set (L @ [r])) \<longleftrightarrow>
      b \<or> \<not> distinct (map FromOCI (r # rs))
        \<or> (\<exists>x\<in>set (r # rs). Equal x empty_descriptor \<or> FromOCI x \<in> FromOCI ` set L)"
    proof -
      have "FromOCI r \<in> FromOCI ` set rs \<longleftrightarrow> (\<exists>x\<in>set rs. FromOCI x = FromOCI r)" by (metis image_iff)
      then show ?thesis using False by (simp only: distinct.simps list.map set_append image_Un list.set list.set_map) auto
    qed
    ultimately show ?thesis using Cons.IH [OF referrers_inv_add [OF Cons.prems none], of b] False by simp
  qed
qed

lemma apply_changes:
  assumes "referrers_inv m u L"
  shows "\<exists>m' u'. foldl apply_change (m, u) cs = (m', u') \<and> referrers_inv m' u' (foldl change_spec L cs)"
  using assms
proof (induction cs arbitrary: m u L)
  case Nil
  then show ?case by simp
next
  case (Cons c cs)
  let ?k = "FromOCI (rc_referrer c)"
  note get = referrers_invD(3) [OF Cons.prems, of ?k]
  have "\<exists>m' u'. apply_change (m, u) c = (m', u') \<and> referrers_inv m' u' (change_spec L c)"
  proof (cases "gm_get m ?k")
    case None
    then have "?k \<notin> FromOCI ` set L" using get by blast
    moreover from this have "filter (\<lambda>r. FromOCI r \<noteq> ?k) L = L" by (intro filter_True) (metis image_eqI)
    ultimately show ?thesis using None referrers_inv_add [OF Cons.prems None] Cons.prems
      by (cases "rc_operation c") (simp_all add: apply_change_def change_spec_def Let_def)
  next
    case (Some pos)
    then have "?k \<in> FromOCI ` set L" using get by blast
    with Some referrers_inv_remove [OF Cons.prems Some] Cons.prems show ?thesis
      by (cases "rc_operation c") (simp_all add: apply_change_def change_spec_def Let_def)
  qed
  then obtain m' u' where "apply_change (m, u) c = (m', u')" "referrers_inv m' u' (change_spec L c)" by blast
  with Cons.IH [OF this(2)] show ?case by simp
qed

lemma referrers_inv_size:
  assumes "referrers_inv m u L"
  shows "length m = length L"
proof -
  have "length m = card (fst ` set m)"
    using referrers_invD(1) [OF assms] by (metis distinct_card gm_ok_def length_map list.set_map)
  also have "\<dots> = length L"
    using assms referrers_invD(2) [OF assms] unfolding referrers_inv_def by (metis distinct_card length_map list.set_map)
  finally show ?thesis .
qed

text \<open>
  C40. Applying changes to a list of referrers refines the reference definition: an update is needed unless
  the list has no empty and no duplicate entries and the changes lead to the same set of referrers, and
  the updated list has the distinct referrers with the additions and without the removals, in order.
\<close>

theorem applyReferrerChanges_refines:
  "applyReferrerChanges referrers changes =
     (if distinct (map FromOCI referrers) \<and> list_all nonempty_desc referrers
         \<and> FromOCI ` set (changes_spec referrers changes) = FromOCI ` set referrers
      then None else Some (filter nonempty_desc (changes_spec referrers changes)))"
proof -
  have "referrers_inv [] [] []" by (simp add: referrers_inv_def)
  from collect_referrers [OF this, of False referrers] obtain m u where
    c: "foldl collect_referrer ([], [], False) referrers = (m, u, \<not> distinct (map FromOCI referrers)
      \<or> (\<exists>r\<in>set referrers. Equal r empty_descriptor))" "referrers_inv m u (distinct_referrers {} referrers)"
    by auto
  from apply_changes [OF c(2), of changes] obtain m' u' where
    a: "foldl apply_change (m, u) changes = (m', u')" "referrers_inv m' u' (changes_spec referrers changes)"
    unfolding changes_spec_def by blast
  let ?L = "changes_spec referrers changes"
  note I = referrers_invD [OF a(2)]
  have len: "length m' = length ?L" by (rule referrers_inv_size [OF a(2)])
  have "length (filter nonempty_desc u') \<le> length ?L" unfolding I(6) by simp
  then have r: "removeEmptyDescriptors u' (length ?L) = filter nonempty_desc ?L"
    using removeEmptyDescriptors_eq I(6) by simp
  have all: "list_all (\<lambda>r. gm_get m' (FromOCI r) \<noteq> None) referrers \<longleftrightarrow> FromOCI ` set referrers \<subseteq> FromOCI ` set ?L"
    unfolding I(3) by (auto simp: list_all_iff)
  have same: "length ?L = length referrers \<and> FromOCI ` set referrers \<subseteq> FromOCI ` set ?L \<longleftrightarrow>
      FromOCI ` set ?L = FromOCI ` set referrers" if "distinct (map FromOCI referrers)"
  proof -
    have c: "card (FromOCI ` set ?L) = length ?L" "card (FromOCI ` set referrers) = length referrers"
      using I(2) that by (metis distinct_card length_map list.set_map)+
    show ?thesis using card_subset_eq [of "FromOCI ` set ?L" "FromOCI ` set referrers"] c by auto
  qed
  have "\<not> (\<not> distinct (map FromOCI referrers) \<or> (\<exists>r\<in>set referrers. Equal r empty_descriptor)) \<and> length ?L = length referrers
      \<and> FromOCI ` set referrers \<subseteq> FromOCI ` set ?L \<longleftrightarrow>
    distinct (map FromOCI referrers) \<and> list_all nonempty_desc referrers \<and> FromOCI ` set ?L = FromOCI ` set referrers"
    unfolding list_all_iff using same by blast
  then show ?thesis
    unfolding applyReferrerChanges_def c(1) Let_def prod.case a(1) all len r by presburger
qed

text \<open>A referrer is in the updated list exactly when the last change of it is an addition, or it has none and was there.\<close>

lemma changes_spec_keys:
  "FromOCI ` set (foldl change_spec L cs) =
     {k. case find (\<lambda>c. FromOCI (rc_referrer c) = k) (rev cs) of
           Some c \<Rightarrow> rc_operation c = referrerOperationAdd | None \<Rightarrow> k \<in> FromOCI ` set L}"
proof (induction cs rule: rev_induct)
  case Nil
  then show ?case by simp
next
  case (snoc c cs)
  have "FromOCI ` set (change_spec M c) = (case rc_operation c of
      referrerOperationAdd \<Rightarrow> insert (FromOCI (rc_referrer c)) (FromOCI ` set M)
    | referrerOperationRemove \<Rightarrow> FromOCI ` set M - {FromOCI (rc_referrer c)})" for M
    by (cases "rc_operation c") (auto simp: change_spec_def)
  with snoc show ?case by (cases "rc_operation c") auto
qed

text \<open>The tag under which the index of a manifest is kept determines the digest of the manifest.\<close>

lemma buildReferrersTag_inj:
  assumes "CHR '':'' \<in> set (Digest a)" "CHR '':'' \<in> set (Digest b)" "CHR ''-'' \<notin> set (dg_Algorithm (Digest a))"
    and "CHR ''-'' \<notin> set (dg_Algorithm (Digest b))" "buildReferrersTag a = buildReferrersTag b"
  shows "Digest a = Digest b"
proof -
  have "dg_Algorithm (Digest a) @ CHR ''-'' # dg_Encoded (Digest a) = dg_Algorithm (Digest b) @ CHR ''-'' # dg_Encoded (Digest b)"
    using assms(5) by (simp add: buildReferrersTag_def)
  with assms(3,4) have "dg_Algorithm (Digest a) = dg_Algorithm (Digest b)" "dg_Encoded (Digest a) = dg_Encoded (Digest b)"
    by (metis Cut_app option.inject prod.inject)+
  with dg_split assms(1,2) show ?thesis by metis
qed

end
