(* ===== verification/Spec2Isabelle.thy ===== *)
theory Spec2Isabelle
  imports Proxy Oci_GC Reference Extended_Copy Scopes Content_Ops Referrers_Index
begin

text \<open>
  \<^bold>\<open>A verification development of oras-go\<close>

  The library moves OCI content (blobs, and manifests that list other content) between content
  stores. A store keeps bytes under descriptors (media type, digest, size), an index of predecessors
  and references that resolve to descriptors. The copy functions walk the graph of a root and copy it
  bottom up. The theories follow the packages, from the data to the functions that users call. They
  import each other in this order, and this theory imports them all.

  \<^bold>\<open>Conventions.\<close> Bytes and Go strings are \<open>string\<close>, sizes are \<open>int\<close>, a call that may fail returns
  \<open>error + 'a\<close>, a panic is the error \<open>Panic\<close> and a call that waits for ever is the error \<open>Blocked\<close>. An
  object with state is a record that its methods return updated. A Go map over which the code ranges is an
  association list, and the order of iteration is an argument (\<open>valid_order\<close> says that it visits
  every entry once). Code that is not part of the sources is the record \<open>ext\<close>, usually \<open>P\<close>: the digest
  functions and the decoding of JSON, with what is relied on as named hypotheses (\<open>digest_laws\<close>,
  \<open>collision_free\<close>, \<open>consistent\<close>, \<open>digest_from_ok\<close>, \<open>json_subject_ok\<close>, \<open>json_manifest_ok\<close>).

  \<^bold>\<open>Shared theories.\<close>
  \<^item> \<open>Prelude\<close>: maps, sets and iteration orders.
  \<^item> \<open>Go_Strings\<close>, \<open>Go_Time\<close>, \<open>Regexp\<close>: what the sources use of \<^verbatim>\<open>strings\<close>, of \<^verbatim>\<open>time.Parse\<close> for RFC 3339
    and of \<^verbatim>\<open>regexp\<close> (matching by derivatives, proved equal to the language of the expression).

  \<^bold>\<open>Content.\<close>
  \<^item> \<open>Descriptors\<close>: \<^verbatim>\<open>errdef\<close>, \<^verbatim>\<open>internal/descriptor\<close>, \<^verbatim>\<open>content/descriptor.go\<close>, the media types.
  \<^item> \<open>Readers\<close>: \<^verbatim>\<open>content/reader.go\<close> and \<^verbatim>\<open>internal/ioutil/io.go\<close>. \<^verbatim>\<open>ReadAll\<close> returns exactly content that
    is delivered whole with the described size and digest; all errors are characterised.
  \<^item> \<open>Storage\<close>: \<^verbatim>\<open>content/storage.go\<close>, \<^verbatim>\<open>content/limitedstorage.go\<close>, \<^verbatim>\<open>internal/cas/memory.go\<close>, with the
    interfaces as locales: \<open>cas\<close>, \<open>push_store\<close> (what a client of any store relies on) and \<open>tag_store\<close>.
    The memory CAS, the limited storage, the memory store and the OCI store interpret them.
  \<^item> \<open>Proxy\<close>: \<^verbatim>\<open>internal/cas/proxy.go\<close>, transparent and sound, and blocking on trailing data.
  \<^item> \<open>Content_Graph\<close>: \<^verbatim>\<open>content/graph.go\<close>, \<^verbatim>\<open>internal/manifestutil\<close>, \<^verbatim>\<open>internal/platform\<close> and \<^verbatim>\<open>Referrers\<close>
    of \<^verbatim>\<open>registry/repository.go\<close>: successors, selection by platform and by subject.

  \<^bold>\<open>Stores.\<close>
  \<^item> \<open>Graph_Memory\<close>, \<open>Resolver_Memory\<close>: \<^verbatim>\<open>internal/graph/memory.go\<close> refines an abstract directed graph, and
    its concurrent \<^verbatim>\<open>IndexAll\<close> terminates and indexes what is reachable for every schedule;
    \<^verbatim>\<open>internal/resolver/memory.go\<close>.
  \<^item> \<open>Memory_Store\<close>: \<^verbatim>\<open>content/memory/memory.go\<close>; references lead to verified content and predecessors are
    exact in every reachable state.
  \<^item> \<open>Oci_Storage\<close>, \<open>Oci_Index\<close>, \<open>Oci_Store\<close>: \<^verbatim>\<open>content/oci\<close>, with the files of a layout as a map from paths.
  \<^item> \<open>Oci_Histories\<close>, \<open>Oci_Delete\<close>, \<open>Oci_GC\<close>: what holds in every history of an OCI store with failures and
    restarts, what \<^verbatim>\<open>Delete\<close> removes and what \<^verbatim>\<open>GC\<close> keeps.

  \<^bold>\<open>Operations on stores.\<close>
  \<^item> \<open>Copy_Node\<close>, \<open>Copy_Graph\<close>, \<open>Copy_Target\<close>: \<^verbatim>\<open>copy.go\<close>. The goroutines of \<^verbatim>\<open>copyGraph\<close> are tasks of a step
    relation. For every interleaving the destination is closed under successors at every moment, has
    the whole graph at the end, and the copy ends without a deadlock; \<^verbatim>\<open>Copy\<close> tags the copied root.
  \<^item> \<open>Extended_Copy\<close>: \<^verbatim>\<open>extendedcopy.go\<close>: finding the roots above a node and copying them all.
  \<^item> \<open>Pack\<close>: \<^verbatim>\<open>pack.go\<close>: a packed manifest is stored with what it lists, reproducibly.
  \<^item> \<open>Content_Ops\<close>: \<^verbatim>\<open>content.go\<close> and \<^verbatim>\<open>internal/syncutil/limitgroup.go\<close>: resolving, fetching and tagging by
    reference, with the interleavings of the tagging tasks.

  \<^bold>\<open>Registry.\<close>
  \<^item> \<open>Reference\<close>: \<^verbatim>\<open>registry/reference.go\<close>: the accepted references and their printing.
  \<^item> \<open>Scopes\<close>: \<^verbatim>\<open>registry/remote/auth/scope.go\<close>: merging scopes and the scopes of a context.
  \<^item> \<open>Referrers_Index\<close>: \<^verbatim>\<open>registry/remote/referrers.go\<close>: the updates of a referrers index.

  \<^bold>\<open>Bounds and loops.\<close> No definition has fuel. Loops are \<open>fun\<close> or \<open>function\<close> with a termination proof; the
  loop of \<^verbatim>\<open>findRoots\<close>, loading an index and the loops of \<^verbatim>\<open>gcIndex\<close>, which may run for ever, are
  \<open>partial_function (option)\<close>, and the properties say when they return. Concurrent functions are step
  relations with all interleavings.

  \<^bold>\<open>Not modelled.\<close> The remote repository, the authentication client with its challenges and token cache,
  and the retrying transport exchange HTTP messages with servers that are not part of the sources; the
  synchronisation helpers \<^verbatim>\<open>Merge\<close>, \<^verbatim>\<open>Once\<close> and \<^verbatim>\<open>Pool\<close> serve them. The file store, the tar file system and
  the credential stores are about files, archives, helper programs and key chains of a machine. Contexts
  are left out except for their scopes: no call is cancelled from outside. Within a store, a method that
  holds its lock is one step; the races that the code allows between a check and an update are explicit
  where they matter (pushing to the memory CAS and to an OCI layout).
\<close>

end
